(* ===== verification/Base.thy ===== *)
theory Base
  imports Main "HOL-Library.Word" "HOL-Library.Multiset" "HOL-Library.Sublist"
begin

text \<open>
  Vocabulary and lemmas shared by the component theories.

  \<^item> machine integers: \<open>byte\<close>, \<open>u32\<close> and \<open>u64\<close> are words of the C width, so that \<open>+\<close>, \<open>-\<close>
    and \<open>*\<close> wrap as in C; \<open>size_t\<close> is 64 bits wide;
  \<^item> C strings are byte lists without the terminator; \<open>at0\<close> reads one, giving the terminating
    zero at and past the end, which is what the code's \<open>p[1]\<close> may see;
  \<^item> errno values that the code tests by name;
  \<^item> lemmas moving word arithmetic to \<open>nat\<close>, collected in \<open>no_wrap\<close>.
\<close>

unbundle bit_operations_syntax

type_synonym byte = "8 word"
type_synonym u32 = "32 word"
type_synonym u64 = "64 word"

named_theorems no_wrap "unat of word arithmetic that does not overflow"

definition at0 :: "byte list \<Rightarrow> nat \<Rightarrow> byte" where
  "at0 s i = (if i < length s then s ! i else 0)"

lemma at0_Cons_0 [simp]: "at0 (c # cs) 0 = c"
  by (simp add: at0_def)

lemma at0_Cons_Suc [simp]: "at0 (c # cs) (Suc i) = at0 cs i"
  by (simp add: at0_def)

lemma at0_Nil [simp]: "at0 [] i = 0"
  by (simp add: at0_def)

subsection \<open>errno\<close>

abbreviation "ENOENT \<equiv> (2 :: int)"
abbreviation "EAGAIN \<equiv> (11 :: int)"
abbreviation "ENOMEM \<equiv> (12 :: int)"
abbreviation "EACCES \<equiv> (13 :: int)"
abbreviation "EPERM \<equiv> (1 :: int)"
abbreviation "ENOTDIR \<equiv> (20 :: int)"
abbreviation "EINVAL \<equiv> (22 :: int)"
abbreviation "ENOTTY \<equiv> (25 :: int)"
abbreviation "ENAMETOOLONG \<equiv> (36 :: int)"
abbreviation "EOPNOTSUPP \<equiv> (95 :: int)"

subsection \<open>Words\<close>

abbreviation u64_max :: u64 where "u64_max \<equiv> 0xFFFFFFFFFFFFFFFF"

lemma unat_u64_lt: "unat (x :: u64) < 2 ^ 64"
  by (rule order.strict_trans2 [OF unsigned_less]) simp

lemma unat_u32_lt: "unat (x :: u32) < 2 ^ 32"
  by (rule order.strict_trans2 [OF unsigned_less]) simp

lemma unat_add_u64 [no_wrap]:
  "unat (a :: u64) + unat b < 2 ^ 64 \<Longrightarrow> unat (a + b) = unat a + unat b"
  by (simp add: unat_word_ariths)

lemma unat_sub_u64 [no_wrap]: "b \<le> a \<Longrightarrow> unat ((a :: u64) - b) = unat a - unat b"
  by (simp add: unat_sub)

lemma unat_u64_max: "unat u64_max = 2 ^ 64 - 1"
  by simp

subsection \<open>Decimal text\<close>

text \<open>
  What the C library's \<open>%llu\<close> prints and \<open>strtoull\<close> reads: \<open>dec\<close> is the decimal text of a
  number, \<open>dec_val\<close> the number a run of digits stands for.
\<close>

definition digit_char :: "nat \<Rightarrow> char" where
  "digit_char d = char_of (48 + d)"

definition digit_val :: "char \<Rightarrow> nat" where
  "digit_val c = of_char c - 48"

definition is_digit :: "char \<Rightarrow> bool" where
  "is_digit c \<longleftrightarrow> (48 :: nat) \<le> of_char c \<and> of_char c \<le> (57 :: nat)"

fun dec :: "nat \<Rightarrow> string" where
  "dec n = (if n < 10 then [digit_char n] else dec (n div 10) @ [digit_char (n mod 10)])"

declare dec.simps [simp del]

definition dec_val :: "string \<Rightarrow> nat" where
  "dec_val s = foldl (\<lambda>v c. 10 * v + digit_val c) 0 s"

lemma of_char_digit_char: "d < 10 \<Longrightarrow> of_char (digit_char d) = 48 + d"
  by (simp add: digit_char_def)

lemma digit_val_digit_char [simp]: "d < 10 \<Longrightarrow> digit_val (digit_char d) = d"
  by (simp add: digit_val_def of_char_digit_char)

lemma is_digit_digit_char [simp]: "d < 10 \<Longrightarrow> is_digit (digit_char d)"
  by (simp add: is_digit_def of_char_digit_char)

lemma dec_val_snoc [simp]: "dec_val (s @ [c]) = 10 * dec_val s + digit_val c"
  by (simp add: dec_val_def)

lemma dec_val_single [simp]: "dec_val [c] = digit_val c"
  by (simp add: dec_val_def)

lemma dec_val_dec [simp]: "dec_val (dec n) = n"
proof (induction n rule: dec.induct)
  case (1 n)
  then show ?case
    by (cases "n < 10") (simp_all add: dec.simps [of n])
qed

lemma dec_digits: "list_all is_digit (dec n)"
proof (induction n rule: dec.induct)
  case (1 n)
  then show ?case
    by (cases "n < 10") (simp_all add: dec.simps [of n])
qed

lemma dec_not_Nil [simp]: "dec n \<noteq> []"
  by (simp add: dec.simps [of n])

lemma length_dec_le: "0 < k \<Longrightarrow> n < 10 ^ k \<Longrightarrow> length (dec n) \<le> k"
proof (induction n arbitrary: k rule: dec.induct)
  case (1 n)
  show ?case
  proof (cases "n < 10")
    case True
    with 1 show ?thesis by (simp add: dec.simps [of n])
  next
    case False
    from 1 obtain j where k: "k = Suc j" by (cases k) auto
    with 1 False have j: "0 < j" by (cases j) auto
    have "n div 10 < 10 ^ j" using 1 k by auto
    then have "length (dec (n div 10)) \<le> j" using 1(1) [OF False j] by simp
    with False k show ?thesis by (simp add: dec.simps [of n])
  qed
qed

lemma length_dec_u64: "length (dec (unat (n :: u64))) \<le> 20"
  using unat_u64_lt [of n] by (intro length_dec_le) simp_all

lemma is_digit_not_comma: "is_digit c \<Longrightarrow> c \<noteq> CHR '',''"
  by (auto simp: is_digit_def)

subsection \<open>Digests\<close>

text \<open>
  \<open>DIGEST_LEN\<close> bytes; \<open>memcmp\<close> as its sign. Two digests always have the same length; the shorter of
  two lists is made the smaller, which makes the comparison total.
\<close>

type_synonym digest = "byte list"

abbreviation "DIGEST_LEN \<equiv> (16 :: nat)"

fun memcmp :: "byte list \<Rightarrow> byte list \<Rightarrow> int" where
  "memcmp [] [] = 0"
| "memcmp [] (b # bs) = - 1"
| "memcmp (a # as) [] = 1"
| "memcmp (a # as) (b # bs) = (if a = b then memcmp as bs else if a < b then - 1 else 1)"

lemma memcmp_eq [simp]: "memcmp a b = 0 \<longleftrightarrow> b = a"
  by (induction a b rule: memcmp.induct) auto

lemma memcmp_flip: "0 < memcmp a b \<longleftrightarrow> memcmp b a < 0"
  by (induction a b rule: memcmp.induct) auto

lemma memcmp_trans: "memcmp a b < 0 \<Longrightarrow> memcmp b c < 0 \<Longrightarrow> memcmp a c < 0"
proof (induction a c arbitrary: b rule: memcmp.induct)
  case (4 a as c cs)
  then show ?case by (cases b) (auto split: if_split_asm)
next
  case (1)
  then show ?case by (cases b) auto
next
  case (2 b bs)
  then show ?case by simp
next
  case (3 a as)
  then show ?case by (cases b) (auto split: if_split_asm)
qed

lemma memcmp_right: "0 < memcmp a c \<Longrightarrow> memcmp b c < 0 \<Longrightarrow> 0 < memcmp a b"
  using memcmp_trans [of b c a] by (simp add: memcmp_flip)

end
