(* ===== verification/Util.thy ===== *)
theory Util
  imports Base
begin

text \<open>
  \<open>src/util.c\<close>: parsing and printing of sizes, and the policy on which bytes of a file name
  may reach a terminal. Buffers are modelled by their size: a \<open>snprintf\<close>-style function returns
  the text it leaves in a buffer of \<open>str_bytes\<close> bytes, \<open>None\<close> when the size is 0 and the
  buffer is not touched. The terminating NUL is not part of the text.
\<close>

subsection \<open>parse_size\<close>

datatype size_error = Size_Needs_Number | Size_Unknown_Suffix char | Size_Extra_Text | Size_Does_Not_Fit

definition to_lower :: "char \<Rightarrow> char" where
  "to_lower c = (if (65::nat) \<le> of_char c \<and> of_char c \<le> (90::nat) then char_of (of_char c + 32 :: nat) else c)"

text \<open>The \<open>switch\<close>, whose cases fall through from \<open>e\<close> down to \<open>b\<close>.\<close>

definition suffix_mult :: "char \<Rightarrow> u64 option" where
  "suffix_mult ch = (let c = to_lower ch in
     if c = CHR ''e'' then Some (1 * 1024 * 1024 * 1024 * 1024 * 1024 * 1024)
     else if c = CHR ''p'' then Some (1 * 1024 * 1024 * 1024 * 1024 * 1024)
     else if c = CHR ''t'' then Some (1 * 1024 * 1024 * 1024 * 1024)
     else if c = CHR ''g'' then Some (1 * 1024 * 1024 * 1024)
     else if c = CHR ''m'' then Some (1 * 1024 * 1024)
     else if c = CHR ''k'' then Some (1 * 1024)
     else if c = CHR ''b'' then Some 1
     else None)"

text \<open>The argument may be the null pointer, here \<open>None\<close>.\<close>

definition parse_size :: "string option \<Rightarrow> size_error + u64" where
  "parse_size so =
    (let s = (case so of None \<Rightarrow> [] | Some t \<Rightarrow> t);
         i = length (takeWhile is_digit s);
         rest = drop i s
     in if i = 0 then Inl Size_Needs_Number
        else case (case rest of [] \<Rightarrow> Some 1 | c # _ \<Rightarrow> suffix_mult c) of
          None \<Rightarrow> Inl (Size_Unknown_Suffix (hd rest))
        | Some fac \<Rightarrow>
            if 1 < length rest then Inl Size_Extra_Text
            else let v = dec_val (take i s) in
              if 2 ^ 64 \<le> v \<or> u64_max div fac < of_nat v then Inl Size_Does_Not_Fit
              else Inr (of_nat v * fac))"

subsection \<open>Printing numbers\<close>

function group_loop :: "string \<Rightarrow> nat \<Rightarrow> nat \<Rightarrow> string \<Rightarrow> string" where
  "group_loop tmp i str_bytes out =
    (if i < length tmp \<and> length out < str_bytes - 1 then
       let out1 = (if 0 < i \<and> (length tmp - i) mod 3 = 0 \<and> length out < str_bytes - 1
                   then out @ [CHR '','' ] else out);
           out2 = (if length out1 < str_bytes - 1 then out1 @ [tmp ! i] else out1)
       in group_loop tmp (i + 1) str_bytes out2
     else out)"
  by pat_completeness auto
termination
  by (relation "measure (\<lambda>(tmp, i, _, _). length tmp - i)") auto

declare group_loop.simps [simp del]

definition group_u64_snprintf :: "u64 \<Rightarrow> nat \<Rightarrow> string option" where
  "group_u64_snprintf n str_bytes =
    (if str_bytes = 0 then None
     else Some (group_loop (take 20 (dec (unat n))) 0 str_bytes []))"

definition pad2 :: "string \<Rightarrow> string" where
  "pad2 s = replicate (2 - length s) (CHR ''0'') @ s"

text \<open>The whole seconds are the argument: the rounding of the \<open>double\<close> is not modelled.\<close>

definition human_duration_snprintf :: "u64 \<Rightarrow> nat \<Rightarrow> string option" where
  "human_duration_snprintf s str_bytes =
    (let n = unat s;
         text = (if n < 60 then dec n @ ''s''
                 else if n < 3600 then dec (n div 60) @ ''m'' @ pad2 (dec (n mod 60)) @ ''s''
                 else dec (n div 3600) @ ''h'' @ pad2 (dec ((n mod 3600) div 60)) @ ''m'')
     in if str_bytes = 0 then None else Some (take (str_bytes - 1) text))"

definition pretty_size_snprintf :: "u64 \<Rightarrow> nat \<Rightarrow> string" where
  "pretty_size_snprintf sz str_bytes = take (str_bytes - 1) (dec (unat sz))"

function num_digits :: "u64 \<Rightarrow> u32" where
  "num_digits num = (if num = 0 then 0 else num_digits (num div 10) + 1)"
  by pat_completeness auto
termination
proof (relation "measure unat")
  fix num :: u64
  assume "num \<noteq> 0"
  then have "unat num div 10 < unat num" by (simp add: unat_gt_0)
  then show "(num div 10, num) \<in> measure unat" by (simp add: unat_div)
qed simp

declare num_digits.simps [simp del]

subsection \<open>Bytes that must not reach a terminal\<close>

text \<open>
  \<open>ctrl_seq_len\<close>: how many bytes of the dangerous sequence start here, and its code point;
  \<open>(0, None)\<close> when the byte is safe and \<open>*cp\<close> is left alone.
\<close>

definition ctrl_seq_len :: "byte list \<Rightarrow> nat \<times> byte option" where
  "ctrl_seq_len p =
    (if at0 p 0 < 0x20 \<or> at0 p 0 = 0x7f then (1, Some (at0 p 0))
     else if at0 p 0 = 0xc2 \<and> 0x80 \<le> at0 p 1 \<and> at0 p 1 \<le> 0x9f then (2, Some (at0 p 1))
     else (0, None))"

fun has_ctrl :: "byte list \<Rightarrow> bool" where
  "has_ctrl [] = False"
| "has_ctrl (c # cs) = (if fst (ctrl_seq_len (c # cs)) \<noteq> 0 then True else has_ctrl cs)"

definition hex_digit :: "byte \<Rightarrow> byte" where
  "hex_digit n = map (\<lambda>c. of_char c) ''0123456789abcdef'' ! unat n"

definition escape_ctrl_byte :: "byte \<Rightarrow> byte list" where
  "escape_ctrl_byte c =
    (if c = 9 then [0x5c, 0x74]
     else if c = 10 then [0x5c, 0x6e]
     else if c = 13 then [0x5c, 0x72]
     else [0x5c, 0x78, hex_digit (drop_bit 4 c), hex_digit (c AND 0xf)])"

text \<open>The \<open>do ... while\<close>: the rest of the run of safe bytes after its first byte.\<close>

fun safe_run :: "byte list \<Rightarrow> byte list \<times> byte list" where
  "safe_run [] = ([], [])"
| "safe_run (c # cs) =
    (if fst (ctrl_seq_len (c # cs)) = 0
     then (let (r, t) = safe_run cs in (c # r, t)) else ([], c # cs))"

lemma safe_run_split: "fst (safe_run p) @ snd (safe_run p) = p"
  by (induction p) (auto simp: case_prod_unfold Let_def)

lemma safe_run_length: "length (snd (safe_run p)) \<le> length p"
  by (induction p) (auto simp: case_prod_unfold Let_def)

function sanitize_loop :: "byte list \<Rightarrow> nat \<Rightarrow> byte list \<Rightarrow> byte list" where
  "sanitize_loop [] out_sz out = out"
| "sanitize_loop (c # cs) out_sz out =
    (case ctrl_seq_len (c # cs) of
       (n, cp) \<Rightarrow>
         if n = 0 then
           let run = c # fst (safe_run cs);
               len = (if out_sz - length out - 1 < length run then out_sz - length out - 1
                      else length run);
               out' = out @ take len run
           in if length out' + 1 = out_sz then out'
              else sanitize_loop (snd (safe_run cs)) out_sz out'
         else
           let esc = escape_ctrl_byte (the cp)
           in if out_sz < length out + length esc + 1 then out
              else sanitize_loop (drop n (c # cs)) out_sz (out @ esc))"
  by pat_completeness auto
termination
  by (relation "measure (\<lambda>(p, _, _). length p)") (auto simp: less_Suc_eq_le safe_run_length)

declare sanitize_loop.simps [simp del]

definition sanitize_ctrl :: "byte list \<Rightarrow> nat \<Rightarrow> byte list option" where
  "sanitize_ctrl inp out_sz = (if out_sz = 0 then None else Some (sanitize_loop inp out_sz []))"

text \<open>With the allocation succeeding; the buffer is four bytes per input byte and the NUL.\<close>

definition path_for_display :: "byte list \<Rightarrow> byte list" where
  "path_for_display path =
    (if \<not> has_ctrl path then path else the (sanitize_ctrl path (4 * length path + 1)))"

subsection \<open>UTF-8\<close>

definition utf8_seq_len :: "byte list \<Rightarrow> nat" where
  "utf8_seq_len p =
    (let b = at0 p 0;
         n = (if 0xc2 \<le> b \<and> b \<le> 0xdf then 2
              else if 0xe0 \<le> b \<and> b \<le> 0xef then 3
              else if 0xf0 \<le> b \<and> b \<le> 0xf4 then 4 else 0);
         lo = (if b = 0xe0 then 0xa0 else if b = 0xf0 then 0x90 else 0x80);
         hi = (if b = 0xed then 0x9f else if b = 0xf4 then 0x8f else 0xbf)
     in if b < 0x80 then 1
        else if n = 0 then 0
        else if at0 p 1 < lo \<or> hi < at0 p 1 then 0
        else if list_all (\<lambda>i. 0x80 \<le> at0 p i \<and> at0 p i \<le> 0xbf) [2..<n] then n else 0)"

subsection \<open>Grouping digits\<close>

text \<open>The specification: commas every three digits from the right, by recursion on the text.\<close>

function group3 :: "string \<Rightarrow> string" where
  "group3 s = (if length s \<le> 3 then s
     else group3 (take (length s - 3) s) @ [CHR '',''] @ drop (length s - 3) s)"
  by pat_completeness auto
termination by (relation "measure length") auto

declare group3.simps [simp del]

definition group_emit :: "string \<Rightarrow> nat \<Rightarrow> string" where
  "group_emit tmp i = (if 0 < i \<and> (length tmp - i) mod 3 = 0 then [CHR '','', tmp ! i] else [tmp ! i])"

lemma group_emit_take:
  assumes l: "length s = k + 3" and i: "i < k"
  shows "group_emit (take k s) i = group_emit s i"
proof -
  have "length s - i = (k - i) + 3" using assms by simp
  then have m: "(length s - i) mod 3 = (k - i) mod 3" by (simp only: mod_add_self2)
  have t: "length (take k s) = k" using l by simp
  have n: "take k s ! i = s ! i" using i by (rule nth_take)
  show ?thesis unfolding group_emit_def t m n ..
qed

lemma concat_single: "concat (map (\<lambda>i. [f i]) xs) = map f xs"
  by (induction xs) simp_all

lemma group_emit_small:
  assumes "length s \<le> 3"
  shows "concat (map (group_emit s) [0..<length s]) = s"
proof -
  have "group_emit s i = [s ! i]" if "i < length s" for i
  proof (cases "0 < i")
    case True
    then have "0 < length s - i" "length s - i < 3" using that assms by auto
    then have "(length s - i) mod 3 \<noteq> 0" by simp
    then show ?thesis by (simp add: group_emit_def)
  qed (simp add: group_emit_def)
  then have "map (group_emit s) [0..<length s] = map (\<lambda>i. [s ! i]) [0..<length s]"
    by (intro map_cong refl) simp
  then show ?thesis by (simp only: concat_single map_nth)
qed

lemma group_emit_tail:
  assumes l: "length s = k + 3" and k: "0 < k"
  shows "concat (map (group_emit s) [k..<k + 3]) = CHR '','' # drop k s"
proof -
  have up: "[k..<k + 3] = [k, Suc k, Suc (Suc k)]"
    by (simp add: upt_rec)
  have step: "drop j s = s ! j # drop (Suc j) s" if "j < length s" for j
    using that by (rule Cons_nth_drop_Suc [symmetric])
  have "drop (Suc (Suc (Suc k))) s = []" using l by simp
  moreover have "k < length s" "Suc k < length s" "Suc (Suc k) < length s" using l by simp_all
  ultimately have "drop k s = [s ! k, s ! Suc k, s ! Suc (Suc k)]"
    by (metis step)
  then show ?thesis
    using k by (simp add: l up group_emit_def)
qed

lemma group3_emit: "group3 s = concat (map (group_emit s) [0..<length s])"
proof (induction s rule: group3.induct)
  case (1 s)
  show ?case
  proof (cases "length s \<le> 3")
    case True
    then show ?thesis by (simp add: group3.simps [of s] group_emit_small)
  next
    case False
    then obtain k where l: "length s = k + 3" and k: "0 < k"
      by (metis add.commute less_imp_add_positive not_le)
    have up: "[0..<length s] = [0..<k] @ [k..<k + 3]"
      unfolding l using upt_add_eq_append [of 0 k 3] by simp
    have tk: "concat (map (group_emit s) [0..<k]) = group3 (take k s)"
    proof -
      have "map (group_emit (take k s)) [0..<k] = map (group_emit s) [0..<k]"
        using l by (intro map_cong refl group_emit_take) simp_all
      with 1 [OF False] l show ?thesis by simp
    qed
    have "group3 s = group3 (take k s) @ CHR '','' # drop k s"
      using False l by (simp add: group3.simps [of s])
    then show ?thesis
      unfolding up by (simp add: tk group_emit_tail [OF l k])
  qed
qed

text \<open>The loop emits the same text, cut where the buffer is full.\<close>

lemma group_loop_emit:
  "length out \<le> sb - 1 \<Longrightarrow>
   group_loop tmp i sb out = take (sb - 1) (out @ concat (map (group_emit tmp) [i..<length tmp]))"
proof (induction tmp i sb out rule: group_loop.induct)
  case (1 tmp i sb out)
  show ?case
  proof (cases "i < length tmp \<and> length out < sb - 1")
    case False
    with 1 show ?thesis by (auto simp: group_loop.simps [of tmp i sb out])
  next
    case True
    then have up: "[i..<length tmp] = i # [Suc i..<length tmp]" by (simp add: upt_rec)
    let ?out1 = "if 0 < i \<and> (length tmp - i) mod 3 = 0 \<and> length out < sb - 1
                 then out @ [CHR '','' ] else out"
    let ?out2 = "if length ?out1 < sb - 1 then ?out1 @ [tmp ! i] else ?out1"
    have le: "length ?out2 \<le> sb - 1" using True by auto
    have cut: "take n (take n xs @ ys) = take n (xs @ ys)" for n and xs ys :: string
      by (cases "length xs \<le> n") simp_all
    have out2: "?out2 = take (sb - 1) (out @ group_emit tmp i)"
      using True by (auto simp: group_emit_def take_Cons')
    have IH: "group_loop tmp (i + 1) sb ?out2 =
        take (sb - 1) (?out2 @ concat (map (group_emit tmp) [i + 1..<length tmp]))"
      using 1(1) [OF True refl refl le] .
    have "group_loop tmp i sb out = group_loop tmp (i + 1) sb ?out2"
      using True by (subst group_loop.simps) (simp only: Let_def simp_thms if_True)
    then show ?thesis
      unfolding IH unfolding out2 cut by (simp add: up)
  qed
qed

lemma group3_no_comma: "filter (\<lambda>c. c \<noteq> CHR '','') (group3 s) = filter (\<lambda>c. c \<noteq> CHR '','') s"
proof (induction s rule: group3.induct)
  case (1 s)
  show ?case
  proof (cases "length s \<le> 3")
    case True
    then show ?thesis by (simp add: group3.simps [of s])
  next
    case False
    have "filter P s = filter P (take k s) @ filter P (drop k s)" for P k
      by (simp flip: filter_append)
    with False 1 show ?thesis by (simp add: group3.simps [of s])
  qed
qed

lemma length_group3: "length (group3 s) \<le> length s + length s div 3"
proof (induction s rule: group3.induct)
  case (1 s)
  show ?case
  proof (cases "length s \<le> 3")
    case True
    then show ?thesis by (simp add: group3.simps [of s])
  next
    case False
    then have "length s = (length s - 3) + 3" by simp
    then have d: "length s div 3 = Suc ((length s - 3) div 3)"
      by (metis div_add_self2 Suc_eq_plus1 zero_neq_numeral)
    have "length (group3 (take (length s - 3) s)) \<le> (length s - 3) + (length s - 3) div 3"
      using 1 [OF False] by simp
    moreover have "length (group3 s) = length (group3 (take (length s - 3) s)) + 4"
      using False by (simp add: group3.simps [of s])
    ultimately show ?thesis using False d by linarith
  qed
qed

subsection \<open>What an escaped name holds\<close>

text \<open>The escape of a whole name, with no buffer to fill.\<close>

function escape_all :: "byte list \<Rightarrow> byte list" where
  "escape_all [] = []"
| "escape_all (c # cs) =
    (case ctrl_seq_len (c # cs) of
       (n, cp) \<Rightarrow> if n = 0 then c # escape_all cs
                  else escape_ctrl_byte (the cp) @ escape_all (drop n (c # cs)))"
  by pat_completeness auto
termination by (relation "measure length") auto

declare escape_all.simps [simp del]

lemma ctrl_seq_len_local:
  "at0 cs 0 = at0 ds 0 \<Longrightarrow> ctrl_seq_len (c # cs) = ctrl_seq_len (c # ds)"
  by (simp add: ctrl_seq_len_def)

lemma ctrl_seq_len_cut:
  "fst (ctrl_seq_len (c # cs)) = 0 \<Longrightarrow> at0 ds 0 = at0 cs 0 \<or> ds = [] \<Longrightarrow> fst (ctrl_seq_len (c # ds)) = 0"
  by (auto simp: ctrl_seq_len_def split: if_splits)

lemma at0_take: "at0 (take n xs) 0 = at0 xs 0 \<or> take n xs = []"
  by (cases n; cases xs) simp_all

lemma has_ctrl_take: "\<not> has_ctrl xs \<Longrightarrow> \<not> has_ctrl (take n xs)"
proof (induction xs arbitrary: n)
  case (Cons c cs)
  then have c: "fst (ctrl_seq_len (c # cs)) = 0" and cs: "\<not> has_ctrl cs" by (auto split: if_splits)
  show ?case
  proof (cases n)
    case (Suc m)
    have "fst (ctrl_seq_len (c # take m cs)) = 0" using c at0_take [of m cs] by (rule ctrl_seq_len_cut)
    with Suc Cons.IH [OF cs] show ?thesis by simp
  qed simp
qed simp

lemma has_ctrl_append:
  assumes "\<not> has_ctrl xs" and "\<not> has_ctrl ys"
    and "xs = [] \<or> last xs \<noteq> 0xc2 \<or> ys = [] \<or> \<not> (0x80 \<le> hd ys \<and> hd ys \<le> 0x9f)"
  shows "\<not> has_ctrl (xs @ ys)"
  using assms
proof (induction xs)
  case (Cons c cs)
  then have c: "fst (ctrl_seq_len (c # cs)) = 0" and cs: "\<not> has_ctrl cs" by (auto split: if_splits)
  have "fst (ctrl_seq_len (c # cs @ ys)) = 0"
  proof (cases cs)
    case Nil
    with c Cons.prems(3) show ?thesis
      by (cases ys) (auto simp: ctrl_seq_len_def split: if_splits)
  next
    case (Cons a list)
    with c ctrl_seq_len_local [of cs "cs @ ys" c] show ?thesis by simp
  qed
  with cs Cons.IH Cons.prems show ?case by (auto split: if_splits)
qed simp

lemma safe_run_no_ctrl: "\<not> has_ctrl (fst (safe_run p))"
proof (induction p)
  case (Cons c cs)
  have "at0 (fst (safe_run cs)) 0 = at0 cs 0 \<or> fst (safe_run cs) = []"
    by (cases cs) (auto simp: case_prod_unfold Let_def)
  with Cons show ?case
    using ctrl_seq_len_cut [of c cs "fst (safe_run cs)"]
    by (auto simp: case_prod_unfold Let_def)
qed simp

lemma safe_run_rest: "snd (safe_run p) = [] \<or> fst (ctrl_seq_len (snd (safe_run p))) \<noteq> 0"
  by (induction p) (auto simp: case_prod_unfold Let_def)

lemma escape_all_run: "escape_all p = fst (safe_run p) @ escape_all (snd (safe_run p))"
  by (induction p) (auto simp: case_prod_unfold Let_def escape_all.simps)

lemma ctrl_seq_len_Some: "fst (ctrl_seq_len p) \<noteq> 0 \<Longrightarrow> \<exists>c. ctrl_seq_len p = (fst (ctrl_seq_len p), Some c)"
  by (auto simp: ctrl_seq_len_def split: if_splits)

text \<open>An escape is printable.\<close>

lemma hex_digit_range:
  assumes "unat n < 16"
  shows "0x30 \<le> hex_digit n \<and> hex_digit n \<le> 0x7e"
proof -
  have "\<forall>k\<in>{..<16}. (0x30::byte) \<le> map of_char ''0123456789abcdef'' ! k \<and>
      map of_char ''0123456789abcdef'' ! k \<le> (0x7e::byte)"
    by code_simp
  with assms show ?thesis by (simp add: hex_digit_def)
qed

lemma unat_drop_bit_4: "unat (drop_bit 4 (c :: byte)) < 16"
proof -
  have "unat c < 256" by (rule order.strict_trans2 [OF unsigned_less]) simp
  then have "unat c div 16 < 16" by simp
  then show ?thesis by (simp add: unsigned_drop_bit_eq drop_bit_eq_div unat_div)
qed

lemma unat_and_0xf: "unat ((c :: byte) AND 0xf) < 16"
proof -
  have "c AND 0xf \<le> (0xf :: byte)" by (rule word_and_le1)
  then have "unat (c AND 0xf) \<le> unat (0xf :: byte)" by (simp add: word_le_nat_alt)
  then show ?thesis by simp
qed

lemma escape_ctrl_byte_printable:
  "list_all (\<lambda>b. 0x30 \<le> b \<and> b \<le> 0x7e) (escape_ctrl_byte c)"
  using hex_digit_range [OF unat_drop_bit_4 [of c]] hex_digit_range [OF unat_and_0xf [of c]]
  by (auto simp: escape_ctrl_byte_def)

lemma printable_no_ctrl: "list_all (\<lambda>b. 0x30 \<le> b \<and> b \<le> 0x7e) xs \<Longrightarrow> \<not> has_ctrl xs"
proof (induction xs)
  case (Cons b bs)
  then have "0x30 \<le> b" "b \<le> 0x7e" by simp_all
  then have "fst (ctrl_seq_len (b # bs)) = 0"
    by (auto simp: ctrl_seq_len_def word_le_nat_alt word_less_nat_alt)
  with Cons show ?case by simp
qed simp

lemma escape_ctrl_byte_ends:
  "escape_ctrl_byte c \<noteq> []" "hd (escape_ctrl_byte c) = 0x5c" "last (escape_ctrl_byte c) \<noteq> 0xc2"
  "length (escape_ctrl_byte c) \<le> 4"
proof -
  show ne: "escape_ctrl_byte c \<noteq> []" by (simp add: escape_ctrl_byte_def)
  show "hd (escape_ctrl_byte c) = 0x5c" by (simp add: escape_ctrl_byte_def)
  show "length (escape_ctrl_byte c) \<le> 4" by (simp add: escape_ctrl_byte_def)
  have "last (escape_ctrl_byte c) \<le> 0x7e"
    using escape_ctrl_byte_printable [of c] ne by (auto simp: list_all_iff)
  then show "last (escape_ctrl_byte c) \<noteq> 0xc2" by auto
qed


lemma sanitize_loop_step:
  "fst (ctrl_seq_len (c # cs)) = 0 \<Longrightarrow>
   sanitize_loop (c # cs) sz out =
     (let run = fst (safe_run (c # cs));
          out' = out @ take (sz - length out - 1) run
      in if length out' + 1 = sz then out' else sanitize_loop (snd (safe_run (c # cs))) sz out')"
  by (auto simp: sanitize_loop.simps case_prod_unfold Let_def take_Cons' min_def)

lemma sanitize_loop_escape:
  "fst (ctrl_seq_len (c # cs)) \<noteq> 0 \<Longrightarrow>
   sanitize_loop (c # cs) sz out =
     (let esc = escape_ctrl_byte (the (snd (ctrl_seq_len (c # cs))))
      in if sz < length out + length esc + 1 then out
         else sanitize_loop (drop (fst (ctrl_seq_len (c # cs))) (c # cs)) sz (out @ esc))"
  by (auto simp: sanitize_loop.simps case_prod_unfold Let_def)

lemma escape_all_escape:
  "fst (ctrl_seq_len (c # cs)) \<noteq> 0 \<Longrightarrow>
   escape_all (c # cs) = escape_ctrl_byte (the (snd (ctrl_seq_len (c # cs)))) @
     escape_all (drop (fst (ctrl_seq_len (c # cs))) (c # cs))"
  by (simp add: escape_all.simps case_prod_unfold)

lemma safe_run_length_less: "fst (ctrl_seq_len (c # cs)) = 0 \<Longrightarrow> length (snd (safe_run (c # cs))) < length (c # cs)"
  using safe_run_length [of cs] by (simp add: case_prod_unfold Let_def)

lemma escape_drop_less: "fst (ctrl_seq_len (c # cs)) \<noteq> 0 \<Longrightarrow>
  length (drop (fst (ctrl_seq_len (c # cs))) (c # cs)) < length (c # cs)"
  by simp

text \<open>The output never outgrows the buffer, and is a prefix of the whole escape.\<close>

lemma sanitize_loop_prefix:
  "length out < sz \<Longrightarrow>
   length (sanitize_loop p sz out) < sz \<and> prefix (sanitize_loop p sz out) (out @ escape_all p)"
proof (induction p arbitrary: out rule: measure_induct_rule [of length])
  case (less p)
  show ?case
  proof (cases p)
    case Nil
    with less.prems show ?thesis by (simp add: sanitize_loop.simps escape_all.simps)
  next
    case p: (Cons c cs)
    show ?thesis
    proof (cases "fst (ctrl_seq_len (c # cs)) = 0")
      case True
      let ?run = "fst (safe_run (c # cs))" and ?rest = "snd (safe_run (c # cs))"
      let ?out = "out @ take (sz - length out - 1) ?run"
      have le: "length ?out < sz" using less.prems by simp
      have esc: "escape_all (c # cs) = ?run @ escape_all ?rest" by (rule escape_all_run)
      have pre: "prefix ?out (out @ escape_all (c # cs))"
        unfolding esc by (metis append_assoc append_take_drop_id prefixI same_prefix_prefix)
      show ?thesis
      proof (cases "length ?out + 1 = sz")
        case True
        with le pre \<open>fst (ctrl_seq_len (c # cs)) = 0\<close> p show ?thesis
          by (simp only: sanitize_loop_step Let_def if_True simp_thms)
      next
        case False
        then have all: "take (sz - length out - 1) ?run = ?run" using le by simp
        have "length (sanitize_loop ?rest sz ?out) < sz \<and>
            prefix (sanitize_loop ?rest sz ?out) (?out @ escape_all ?rest)"
          using less.IH [of ?rest ?out] le safe_run_length_less [OF \<open>fst (ctrl_seq_len (c # cs)) = 0\<close>] p
          by (simp only:)
        with \<open>fst (ctrl_seq_len (c # cs)) = 0\<close> False p show ?thesis
          by (simp only: sanitize_loop_step Let_def if_False simp_thms esc all append_assoc)
      qed
    next
      case False
      let ?esc = "escape_ctrl_byte (the (snd (ctrl_seq_len (c # cs))))"
      let ?rest = "drop (fst (ctrl_seq_len (c # cs))) (c # cs)"
      show ?thesis
      proof (cases "sz < length out + length ?esc + 1")
        case True
        with False less.prems p show ?thesis by (simp add: sanitize_loop_escape Let_def)
      next
        case fits: False
        have "length (sanitize_loop ?rest sz (out @ ?esc)) < sz \<and>
            prefix (sanitize_loop ?rest sz (out @ ?esc)) ((out @ ?esc) @ escape_all ?rest)"
          using less.IH [of ?rest "out @ ?esc"] fits escape_drop_less [OF False] p by simp
        with False fits p show ?thesis
          by (simp add: sanitize_loop_escape escape_all_escape Let_def)
      qed
    qed
  qed
qed

text \<open>A buffer with four bytes for every byte left takes the whole escape.\<close>

lemma escape_all_length: "length (escape_all p) \<le> 4 * length p"
proof (induction p rule: measure_induct_rule [of length])
  case (less p)
  show ?case
  proof (cases p)
    case Nil
    then show ?thesis by (simp add: escape_all.simps)
  next
    case p: (Cons c cs)
    show ?thesis
    proof (cases "fst (ctrl_seq_len (c # cs)) = 0")
      case True
      with p less [of cs] show ?thesis by (simp add: escape_all.simps case_prod_unfold)
    next
      case False
      let ?rest = "drop (fst (ctrl_seq_len (c # cs))) (c # cs)"
      have "length (escape_all ?rest) \<le> 4 * length ?rest"
        using less [of ?rest] escape_drop_less [OF False] unfolding p by blast
      moreover have "length (escape_ctrl_byte (the (snd (ctrl_seq_len (c # cs))))) \<le> 4"
        by (rule escape_ctrl_byte_ends)
      moreover have "length ?rest < length p" using escape_drop_less [OF False] p by simp
      ultimately show ?thesis unfolding p escape_all_escape [OF False] by simp
    qed
  qed
qed

lemma sanitize_loop_complete:
  "length out + length (escape_all p) < sz \<Longrightarrow> sanitize_loop p sz out = out @ escape_all p"
proof (induction p arbitrary: out rule: measure_induct_rule [of length])
  case (less p)
  show ?case
  proof (cases p)
    case Nil
    then show ?thesis by (simp add: sanitize_loop.simps escape_all.simps)
  next
    case p: (Cons c cs)
    show ?thesis
    proof (cases "fst (ctrl_seq_len (c # cs)) = 0")
      case True
      let ?run = "fst (safe_run (c # cs))" and ?rest = "snd (safe_run (c # cs))"
      have esc: "escape_all (c # cs) = ?run @ escape_all ?rest" by (rule escape_all_run)
      have len: "length out + length ?run + length (escape_all ?rest) < sz"
        using less.prems p esc by simp
      have all: "take (sz - length out - 1) ?run = ?run" using len by simp
      show ?thesis
      proof (cases "length (out @ ?run) + 1 = sz")
        case full: True
        then have "length (escape_all ?rest) = 0" using len unfolding length_append by linarith
        then have "escape_all ?rest = []" by (simp only: length_0_conv)
        with full True p esc show ?thesis
          by (simp only: sanitize_loop_step all Let_def if_True append_Nil2 simp_thms)
      next
        case False
        have "sanitize_loop ?rest sz (out @ ?run) = (out @ ?run) @ escape_all ?rest"
          using less.IH [of ?rest "out @ ?run"] len safe_run_length_less [OF True] p by simp
        with True False p show ?thesis
          by (simp only: sanitize_loop_step Let_def if_False simp_thms esc all append_assoc)
      qed
    next
      case False
      let ?esc = "escape_ctrl_byte (the (snd (ctrl_seq_len (c # cs))))"
      let ?rest = "drop (fst (ctrl_seq_len (c # cs))) (c # cs)"
      have len: "length out + length ?esc + length (escape_all ?rest) < sz"
        using less.prems p escape_all_escape [OF False] by simp
      have "sanitize_loop ?rest sz (out @ ?esc) = (out @ ?esc) @ escape_all ?rest"
        using less.IH [of ?rest "out @ ?esc"] len escape_drop_less [OF False] p by simp
      with False len p show ?thesis
        by (simp add: sanitize_loop_escape escape_all_escape Let_def)
    qed
  qed
qed

lemma escape_all_id: "\<not> has_ctrl p \<Longrightarrow> escape_all p = p"
  by (induction p) (auto simp: escape_all.simps case_prod_unfold split: if_splits)

lemma escape_all_no_ctrl: "\<not> has_ctrl (escape_all p)"
proof (induction p rule: measure_induct_rule [of length])
  case (less p)
  let ?run = "fst (safe_run p)" and ?rest = "snd (safe_run p)"
  have esc: "escape_all p = ?run @ escape_all ?rest" by (rule escape_all_run)
  show ?case
  proof (cases ?rest)
    case Nil
    with esc safe_run_no_ctrl [of p] show ?thesis by (simp add: escape_all.simps)
  next
    case (Cons c cs)
    let ?esc = "escape_ctrl_byte (the (snd (ctrl_seq_len (c # cs))))"
    let ?tail = "drop (fst (ctrl_seq_len (c # cs))) (c # cs)"
    have ne: "fst (ctrl_seq_len (c # cs)) \<noteq> 0" using safe_run_rest [of p] Cons by simp
    have "length ?tail < length p"
      using escape_drop_less [OF ne] safe_run_length [of p] Cons by simp
    then have "\<not> has_ctrl (escape_all ?tail)" by (rule less)
    then have "\<not> has_ctrl (?esc @ escape_all ?tail)"
      using has_ctrl_append [OF printable_no_ctrl [OF escape_ctrl_byte_printable]]
        escape_ctrl_byte_ends by blast
    then have "\<not> has_ctrl (?run @ ?esc @ escape_all ?tail)"
      using escape_ctrl_byte_ends [of "the (snd (ctrl_seq_len (c # cs)))"]
      by (intro has_ctrl_append [OF safe_run_no_ctrl]) (simp_all add: hd_append)
    then show ?thesis using esc Cons escape_all_escape [OF ne] by simp
  qed
qed

lemma has_ctrl_prefix: "prefix xs ys \<Longrightarrow> \<not> has_ctrl ys \<Longrightarrow> \<not> has_ctrl xs"
  by (metis append_eq_conv_conj has_ctrl_take prefixE)

subsection \<open>Sizes\<close>

text \<open>What a suffix means: none is bytes, else the place of the letter in \<open>bkmgtpe\<close> is the
  power of 1024, in either case.\<close>

fun suffix_power :: "string \<Rightarrow> nat option" where
  "suffix_power [] = Some 0"
| "suffix_power [c] = (if c \<in> set ''bB'' then Some 0 else if c \<in> set ''kK'' then Some 1
     else if c \<in> set ''mM'' then Some 2 else if c \<in> set ''gG'' then Some 3
     else if c \<in> set ''tT'' then Some 4 else if c \<in> set ''pP'' then Some 5
     else if c \<in> set ''eE'' then Some 6 else None)"
| "suffix_power (_ # _ # _) = None"

lemma char_code_eq: "c = x \<longleftrightarrow> of_char c = (of_char x :: nat)"
  by simp

lemma of_char_to_lower:
  "of_char (to_lower c) = (let n = of_char c in if 65 \<le> n \<and> n \<le> 90 then n + 32 else n :: nat)"
  by (simp add: to_lower_def Let_def)

lemma to_lower_iff:
  "to_lower c = CHR ''e'' \<longleftrightarrow> c \<in> {CHR ''e'', CHR ''E''}"
  "to_lower c = CHR ''p'' \<longleftrightarrow> c \<in> {CHR ''p'', CHR ''P''}"
  "to_lower c = CHR ''t'' \<longleftrightarrow> c \<in> {CHR ''t'', CHR ''T''}"
  "to_lower c = CHR ''g'' \<longleftrightarrow> c \<in> {CHR ''g'', CHR ''G''}"
  "to_lower c = CHR ''m'' \<longleftrightarrow> c \<in> {CHR ''m'', CHR ''M''}"
  "to_lower c = CHR ''k'' \<longleftrightarrow> c \<in> {CHR ''k'', CHR ''K''}"
  "to_lower c = CHR ''b'' \<longleftrightarrow> c \<in> {CHR ''b'', CHR ''B''}"
  unfolding char_code_eq of_char_to_lower insert_iff empty_iff by (simp_all add: Let_def) presburger+

lemma suffix_mult_power:
  "suffix_mult c = map_option (\<lambda>k. 2 ^ (10 * k)) (suffix_power [c])"
  by (simp add: suffix_mult_def Let_def to_lower_iff)

lemma suffix_power_le: "suffix_power s = Some k \<Longrightarrow> k \<le> 6"
  by (cases s rule: suffix_power.cases) (auto split: if_splits)

lemma unat_pow2_suffix: "k \<le> 6 \<Longrightarrow> unat ((2 :: u64) ^ (10 * k)) = 2 ^ (10 * k)"
proof -
  assume "k \<le> 6"
  then have "k = 0 \<or> k = 1 \<or> k = 2 \<or> k = 3 \<or> k = 4 \<or> k = 5 \<or> k = 6" by arith
  then show ?thesis by (elim disjE) simp_all
qed

text \<open>The overflow test is exact.\<close>

lemma mult_fits_iff:
  assumes k: "k \<le> 6" and v: "v < 2 ^ 64"
  shows "(of_nat v :: u64) \<le> u64_max div 2 ^ (10 * k) \<longleftrightarrow> v * 2 ^ (10 * k) < 2 ^ 64"
proof -
  let ?m = "(2 :: nat) ^ (10 * k)"
  have "(of_nat v :: u64) \<le> u64_max div 2 ^ (10 * k) \<longleftrightarrow> v \<le> (2 ^ 64 - 1) div ?m"
    using v by (simp add: word_le_nat_alt unat_div unat_pow2_suffix [OF k] unat_of_nat)
  also have "\<dots> \<longleftrightarrow> v * ?m \<le> 2 ^ 64 - 1"
    by (simp add: less_eq_div_iff_mult_less_eq)
  also have "\<dots> \<longleftrightarrow> v * ?m < 2 ^ 64"
    by (simp add: le_eq_less_or_eq) linarith
  finally show ?thesis .
qed

lemma unat_mult_fits:
  assumes "k \<le> 6" and "v * 2 ^ (10 * k) < 2 ^ 64"
  shows "unat (of_nat v * 2 ^ (10 * k) :: u64) = v * 2 ^ (10 * k)"
proof -
  have "of_nat v * 2 ^ (10 * k) = (of_nat (v * 2 ^ (10 * k)) :: u64)" by simp
  then show ?thesis using assms(2) by (simp only: unat_of_nat) simp
qed

lemma parse_size_eq:
  "parse_size (Some s) =
    (let ds = takeWhile is_digit s; suf = dropWhile is_digit s
     in if ds = [] then Inl Size_Needs_Number
        else case suffix_power (take 1 suf) of
          None \<Rightarrow> Inl (Size_Unknown_Suffix (hd suf))
        | Some k \<Rightarrow> if 1 < length suf then Inl Size_Extra_Text
            else if dec_val ds * 2 ^ (10 * k) < 2 ^ 64 then Inr (of_nat (dec_val ds * 2 ^ (10 * k)))
            else Inl Size_Does_Not_Fit)"
proof -
  let ?ds = "takeWhile is_digit s" and ?suf = "dropWhile is_digit s"
  have tk: "take (length ?ds) s = ?ds" by (metis append_eq_conv_conj takeWhile_dropWhile_id)
  have dr: "drop (length ?ds) s = ?suf" by (metis append_eq_conv_conj takeWhile_dropWhile_id)
  have mult: "(case ?suf of [] \<Rightarrow> Some 1 | c # _ \<Rightarrow> suffix_mult c) =
      map_option (\<lambda>k. 2 ^ (10 * k)) (suffix_power (take 1 ?suf))"
  proof -
    have "(case r of [] \<Rightarrow> Some 1 | c # _ \<Rightarrow> suffix_mult c) =
        map_option (\<lambda>k. 2 ^ (10 * k)) (suffix_power (take 1 r))" for r
      by (cases r) (simp_all add: suffix_mult_power)
    then show ?thesis .
  qed
  have fits: "2 ^ 64 \<le> v \<or> u64_max div 2 ^ (10 * k) < (of_nat v :: u64) \<longleftrightarrow> \<not> v * 2 ^ (10 * k) < 2 ^ 64"
    if "suffix_power (take 1 ?suf) = Some k" for v k
  proof (cases "v < 2 ^ 64")
    case True
    then show ?thesis using mult_fits_iff [OF suffix_power_le [OF that] True] by (auto simp: not_le)
  next
    case False
    then have "2 ^ 64 * 1 \<le> v * 2 ^ (10 * k)" by (intro mult_le_mono) simp_all
    with False show ?thesis by simp
  qed
  show ?thesis
  proof (cases "suffix_power (take 1 ?suf)")
    case None
    show ?thesis
      unfolding parse_size_def Let_def option.case tk dr mult None length_0_conv by simp
  next
    case (Some k)
    show ?thesis
      unfolding parse_size_def Let_def option.case tk dr mult Some option.map length_0_conv
        fits [OF Some]
      by (cases "dec_val ?ds * 2 ^ (10 * k) < 2 ^ 64") (simp_all only: if_True if_False not_True_eq_False
        not_False_eq_True of_nat_mult of_nat_power of_nat_numeral)
  qed
qed

lemma suffix_letter: "c \<notin> set ''bBkKmMgGtTpPeE'' \<Longrightarrow> suffix_power (c # cs) = None"
  by (cases cs) simp_all

lemma suffix_not_digit:
  assumes "suffix_power (c # cs) = Some k"
  shows "\<not> is_digit c"
proof -
  have c: "c \<in> set ''bBkKmMgGtTpPeE''" using assms suffix_letter [of c cs] by fastforce
  have "list_all (\<lambda>x. \<not> is_digit x) ''bBkKmMgGtTpPeE''" by code_simp
  with c show ?thesis unfolding list_all_iff by blast
qed

lemma digits_suffix_split:
  assumes "list_all is_digit ds" and "suffix_power suf = Some k"
  shows "takeWhile is_digit (ds @ suf) = ds" "dropWhile is_digit (ds @ suf) = suf"
proof -
  have d: "is_digit x" if "x \<in> set ds" for x using assms(1) that by (auto simp: list_all_iff)
  have e: "takeWhile is_digit suf = [] \<and> dropWhile is_digit suf = suf"
  proof (cases suf)
    case (Cons c cs)
    with assms(2) have "suffix_power (c # cs) = Some k" by (simp only:)
    then have "\<not> is_digit c" by (rule suffix_not_digit)
    with Cons show ?thesis by simp
  qed simp
  show "takeWhile is_digit (ds @ suf) = ds" using takeWhile_append2 [of ds is_digit suf, OF d] e by simp
  show "dropWhile is_digit (ds @ suf) = suf" using dropWhile_append2 [of ds is_digit suf, OF d] e by simp
qed

text \<open>C39: a size is accepted exactly when it is a run of decimal digits and at most one
  suffix letter whose product fits in 64 bits, and then the result is that product: nothing wraps.\<close>

theorem parse_size_accepts:
  "parse_size (Some s) = Inr v \<longleftrightarrow>
    (\<exists>ds suf k. s = ds @ suf \<and> ds \<noteq> [] \<and> list_all is_digit ds \<and> suffix_power suf = Some k \<and>
       dec_val ds * 1024 ^ k < 2 ^ 64 \<and> unat v = dec_val ds * 1024 ^ k)"
  (is "_ \<longleftrightarrow> ?R")
proof
  have pow: "1024 ^ k = (2 :: nat) ^ (10 * k)" for k by (simp add: power_mult)
  {
    assume "parse_size (Some s) = Inr v"
    then obtain k where ds: "takeWhile is_digit s \<noteq> []"
      and k: "suffix_power (take 1 (dropWhile is_digit s)) = Some k"
      and len: "length (dropWhile is_digit s) \<le> 1"
      and fit: "dec_val (takeWhile is_digit s) * 2 ^ (10 * k) < 2 ^ 64"
      and v: "v = of_nat (dec_val (takeWhile is_digit s) * 2 ^ (10 * k))"
      by (auto simp: parse_size_eq Let_def not_less split: if_splits option.splits)
    have "unat v = dec_val (takeWhile is_digit s) * 2 ^ (10 * k)"
      unfolding v using fit by (simp only: unat_of_nat) simp
    moreover have "suffix_power (dropWhile is_digit s) = Some k" using k len by simp
    moreover have "list_all is_digit (takeWhile is_digit s)"
      by (auto simp: list_all_iff dest: set_takeWhileD)
    moreover have "s = takeWhile is_digit s @ dropWhile is_digit s" by simp
    ultimately show ?R using ds fit unfolding pow by blast
  }
  {
    assume ?R
    then obtain ds suf k where s: "s = ds @ suf" and ds: "ds \<noteq> []" "list_all is_digit ds"
      and k: "suffix_power suf = Some k" and fit: "dec_val ds * 2 ^ (10 * k) < 2 ^ 64"
      and v: "unat v = dec_val ds * 2 ^ (10 * k)"
      unfolding pow by blast
    have len: "length suf \<le> 1" using k by (cases suf rule: suffix_power.cases) auto
    have "v = of_nat (dec_val ds * 2 ^ (10 * k))"
      unfolding word_unat_eq_iff using v fit by (simp only: unat_of_nat) simp
    with s ds k fit len show "parse_size (Some s) = Inr v"
      by (simp add: parse_size_eq digits_suffix_split [OF ds(2) k] Let_def)
  }
qed

text \<open>What \<open>pretty_size\<close> prints reads back as the same size.\<close>

theorem parse_size_pretty_size:
  "parse_size (Some (pretty_size_snprintf n 32)) = Inr n"
proof -
  have "pretty_size_snprintf n 32 = dec (unat n)"
    using length_dec_u64 [of n] by (simp add: pretty_size_snprintf_def)
  moreover have "parse_size (Some (dec (unat n))) = Inr n"
    using dec_digits [of "unat n"] unat_u64_lt [of n]
    by (simp add: parse_size_eq takeWhile_eq_all_conv [THEN iffD2] list_all_iff Let_def
        dropWhile_eq_Nil_conv [THEN iffD2])
  ultimately show ?thesis by simp
qed

text \<open>A \<open>group_u64\<close> buffer of 28 bytes holds the whole number with a comma before every
  third digit from the right; a smaller one holds as much of that text as fits.\<close>

theorem group_u64_groups:
  "group_u64_snprintf n sb = (if sb = 0 then None else Some (take (sb - 1) (group3 (dec (unat n))))) \<and>
   group_u64_snprintf n 28 = Some (group3 (dec (unat n))) \<and>
   filter (\<lambda>c. c \<noteq> CHR '','') (group3 (dec (unat n))) = dec (unat n)"
proof -
  have t: "take 20 (dec (unat n)) = dec (unat n)" using length_dec_u64 [of n] by simp
  have g: "group_u64_snprintf n sb =
      (if sb = 0 then None else Some (take (sb - 1) (group3 (dec (unat n)))))" for sb
    by (simp add: group_u64_snprintf_def t group_loop_emit group3_emit)
  have "length (group3 (dec (unat n))) \<le> 27"
    using length_group3 [of "dec (unat n)"] length_dec_u64 [of n] by presburger
  then have "group_u64_snprintf n 28 = Some (group3 (dec (unat n)))" by (simp add: g)
  moreover have "filter (\<lambda>c. c \<noteq> CHR '','') (dec (unat n)) = dec (unat n)"
    using dec_digits [of "unat n"]
    by (intro filter_True) (auto simp: list_all_iff dest: is_digit_not_comma)
  ultimately show ?thesis using g group3_no_comma by simp
qed

lemma num_digits_dec: "n \<noteq> 0 \<Longrightarrow> unat (num_digits n) = length (dec (unat n))"
proof (induction n rule: num_digits.induct)
  case (1 n)
  have d: "unat (n div 10) = unat n div 10" by (simp add: unat_div)
  show ?case
  proof (cases "n div 10 = 0")
    case True
    then have "unat n div 10 = 0" using d by simp
    then have "unat n < 10" by simp
    with 1 True show ?thesis
      by (simp add: num_digits.simps [of n] num_digits.simps [of 0] dec.simps [of "unat n"])
  next
    case False
    have IH: "unat (num_digits (n div 10)) = length (dec (unat n div 10))"
      using 1(1) [OF 1(2) False] by (simp only: d)
    have "unat n div 10 \<noteq> 0" using False d by (metis unat_eq_zero)
    then have ge: "\<not> unat n < 10" by simp
    have "length (dec (unat n div 10)) \<le> 20" using length_dec_u64 [of "n div 10"] d by simp
    then have "unat (num_digits (n div 10) + 1) = length (dec (unat n div 10)) + 1"
      using IH by (simp add: unat_word_ariths)
    with ge 1(2) show ?thesis by (simp add: num_digits.simps [of n] dec.simps [of "unat n"])
  qed
qed

text \<open>C38: whatever bytes a name holds, no byte a terminal acts on is left in what
  \<open>sanitize_ctrl\<close> puts in the buffer, the text and its NUL fit in the buffer, and it is a prefix of
  the whole escape.\<close>

theorem sanitize_ctrl_safe:
  "case sanitize_ctrl inp out_sz of
     None \<Rightarrow> out_sz = 0
   | Some out \<Rightarrow> \<not> has_ctrl out \<and> length out < out_sz \<and> prefix out (escape_all inp)"
proof (cases "out_sz = 0")
  case False
  then have "length (sanitize_loop inp out_sz []) < out_sz \<and>
      prefix (sanitize_loop inp out_sz []) (escape_all inp)"
    using sanitize_loop_prefix [of "[]" out_sz inp] by simp
  with False has_ctrl_prefix escape_all_no_ctrl show ?thesis
    by (auto simp: sanitize_ctrl_def)
qed (simp add: sanitize_ctrl_def)

text \<open>\<open>path_for_display\<close> never truncates: it is the whole escape of the path, free of
  control bytes, and the path itself when there is nothing to escape.\<close>

theorem path_for_display_whole:
  "path_for_display path = escape_all path \<and> \<not> has_ctrl (path_for_display path) \<and>
   (\<not> has_ctrl path \<longleftrightarrow> path_for_display path = path)"
proof -
  have e: "path_for_display path = escape_all path"
  proof (cases "has_ctrl path")
    case True
    have "sanitize_loop path (4 * length path + 1) [] = escape_all path"
      using sanitize_loop_complete [of "[]" path "4 * length path + 1"] escape_all_length [of path] by simp
    with True show ?thesis by (simp add: path_for_display_def sanitize_ctrl_def)
  qed (simp add: path_for_display_def escape_all_id)
  moreover have "\<not> has_ctrl path" if "escape_all path = path"
    using escape_all_no_ctrl [of path] that by simp
  ultimately show ?thesis using escape_all_no_ctrl [of path] escape_all_id [of path] by auto
qed

subsection \<open>UTF-8 against RFC 3629\<close>

text \<open>The scalar values of the standard, and its table of byte forms read as numbers: a
  sequence stands for a value only in its shortest form.\<close>

definition utf8_scalar :: "nat \<Rightarrow> bool" where
  "utf8_scalar u \<longleftrightarrow> u < 0x110000 \<and> \<not> (0xd800 \<le> u \<and> u < 0xe000)"

lemma unat_byte_lt: "unat (b :: byte) < 256"
  by (rule order.strict_trans2 [OF unsigned_less]) simp

text \<open>The classifier, with the bytes read as numbers.\<close>

definition utf8_len_nat :: "nat \<Rightarrow> nat \<Rightarrow> nat \<Rightarrow> nat \<Rightarrow> nat" where
  "utf8_len_nat a b c d =
    (let cont = (\<lambda>x. 0x80 \<le> x \<and> x \<le> 0xbf)
     in if a < 0x80 then 1
        else if 0xc2 \<le> a \<and> a \<le> 0xdf then (if cont b then 2 else 0)
        else if 0xe0 \<le> a \<and> a \<le> 0xef then
          (if (if a = 0xe0 then 0xa0 else 0x80) \<le> b \<and> b \<le> (if a = 0xed then 0x9f else 0xbf) \<and> cont c
           then 3 else 0)
        else if 0xf0 \<le> a \<and> a \<le> 0xf4 then
          (if (if a = 0xf0 then 0x90 else 0x80) \<le> b \<and> b \<le> (if a = 0xf4 then 0x8f else 0xbf) \<and>
             cont c \<and> cont d then 4 else 0)
        else 0)"

lemma utf8_seq_len_nat:
  "utf8_seq_len p = utf8_len_nat (unat (at0 p 0)) (unat (at0 p 1)) (unat (at0 p 2)) (unat (at0 p 3))"
proof -
  have l3: "list_all P [2..<3] \<longleftrightarrow> P 2" for P :: "nat \<Rightarrow> bool" by (simp add: upt_rec)
  have l4: "list_all P [2..<4] \<longleftrightarrow> P 2 \<and> P 3" for P :: "nat \<Rightarrow> bool" by (simp add: upt_rec numeral_3_eq_3)
  have l2: "list_all P [2..<2]" for P :: "nat \<Rightarrow> bool" by simp
  show ?thesis
    unfolding utf8_seq_len_def utf8_len_nat_def Let_def
    by (simp add: l3 l4 word_le_nat_alt word_less_nat_alt word_unat_eq_iff not_less not_le)
qed


definition utf8_cont :: "nat \<Rightarrow> bool" where
  "utf8_cont b \<longleftrightarrow> 0x80 \<le> b \<and> b < 0xc0"

fun utf8_decode :: "nat list \<Rightarrow> nat option" where
  "utf8_decode [a] = (if a < 0x80 then Some a else None)"
| "utf8_decode [a, b] =
    (let u = (a - 0xc0) * 64 + (b - 0x80)
     in if 0xc0 \<le> a \<and> a < 0xe0 \<and> utf8_cont b \<and> 0x80 \<le> u then Some u else None)"
| "utf8_decode [a, b, c] =
    (let u = (a - 0xe0) * 4096 + (b - 0x80) * 64 + (c - 0x80)
     in if 0xe0 \<le> a \<and> a < 0xf0 \<and> utf8_cont b \<and> utf8_cont c \<and> 0x800 \<le> u then Some u else None)"
| "utf8_decode [a, b, c, d] =
    (let u = (a - 0xf0) * 262144 + (b - 0x80) * 4096 + (c - 0x80) * 64 + (d - 0x80)
     in if 0xf0 \<le> a \<and> a < 0xf8 \<and> utf8_cont b \<and> utf8_cont c \<and> utf8_cont d \<and> 0x10000 \<le> u
        then Some u else None)"
| "utf8_decode _ = None"

definition utf8_valid :: "nat list \<Rightarrow> bool" where
  "utf8_valid bs \<longleftrightarrow> (case utf8_decode bs of None \<Rightarrow> False | Some u \<Rightarrow> utf8_scalar u)"

lemma utf8_len_nat_range: "utf8_len_nat a b c d \<in> {0, 1, 2, 3, 4}"
  by (simp add: utf8_len_nat_def Let_def)

lemma utf8_len_nat_1: "utf8_len_nat a b c d = 1 \<longleftrightarrow> utf8_valid [a]"
  by (auto simp: utf8_len_nat_def Let_def utf8_valid_def utf8_scalar_def)

lemma utf8_offset: "k \<le> a \<Longrightarrow> a < k + m \<Longrightarrow> \<exists>x<m. a = k + (x :: nat)"
  by (metis le_Suc_ex nat_add_left_cancel_less)

lemma utf8_cont_offset: "utf8_cont b \<Longrightarrow> \<exists>y<64. b = 0x80 + y"
  using utf8_offset [of "0x80" b 64] by (simp add: utf8_cont_def)

lemma utf8_valid_2: "x < 32 \<Longrightarrow> y < 64 \<Longrightarrow> utf8_valid [0xc0 + x, 0x80 + y] \<longleftrightarrow> 2 \<le> x"
  by (simp add: utf8_valid_def utf8_cont_def utf8_scalar_def Let_def)

lemma utf8_len_nat_2: "utf8_len_nat a b c d = 2 \<longleftrightarrow> utf8_valid [a, b]"
proof (cases "0xc0 \<le> a \<and> a < 0xe0 \<and> utf8_cont b")
  case True
  then obtain x y where xy: "a = 0xc0 + x" "b = 0x80 + y" and lt: "x < 32" "y < 64"
    using utf8_offset [of "0xc0" a 32] utf8_cont_offset [of b] by auto
  show ?thesis unfolding xy utf8_valid_2 [OF lt]
    using lt by (simp add: utf8_len_nat_def Let_def)
next
  case False
  then have "\<not> utf8_valid [a, b]" by (auto simp: utf8_valid_def Let_def)
  moreover have "utf8_len_nat a b c d \<noteq> 2"
  proof
    assume "utf8_len_nat a b c d = 2"
    with False show False
      unfolding utf8_len_nat_def utf8_cont_def Let_def by (simp split: if_split_asm)
  qed
  ultimately show ?thesis by simp
qed

lemma utf8_valid_3:
  assumes "x < 16" "y < 64" "z < 64"
  shows "utf8_valid [0xe0 + x, 0x80 + y, 0x80 + z] \<longleftrightarrow> (x = 0 \<longrightarrow> 32 \<le> y) \<and> (x = 13 \<longrightarrow> y < 32)"
proof -
  let ?u = "x * 4096 + y * 64 + z"
  have v: "utf8_valid [0xe0 + x, 0x80 + y, 0x80 + z] \<longleftrightarrow> 0x800 \<le> ?u \<and> utf8_scalar ?u"
    using assms by (simp add: utf8_valid_def utf8_cont_def Let_def)
  consider "x = 0" | "1 \<le> x" "x \<le> 12" | "x = 13" | "14 \<le> x" using assms by linarith
  then show ?thesis
    unfolding v utf8_scalar_def using assms by cases (simp_all, linarith+)
qed

lemma utf8_len_nat_3: "utf8_len_nat a b c d = 3 \<longleftrightarrow> utf8_valid [a, b, c]"
proof (cases "0xe0 \<le> a \<and> a < 0xf0 \<and> utf8_cont b \<and> utf8_cont c")
  case True
  then obtain x y z where xy: "a = 0xe0 + x" "b = 0x80 + y" "c = 0x80 + z"
    and lt: "x < 16" "y < 64" "z < 64"
    using utf8_offset [of "0xe0" a 16] utf8_cont_offset [of b] utf8_cont_offset [of c] by auto
  show ?thesis unfolding xy utf8_valid_3 [OF lt]
    using lt by (auto simp: utf8_len_nat_def Let_def)
next
  case False
  then have "\<not> utf8_valid [a, b, c]" by (auto simp add: utf8_valid_def Let_def)
  moreover have "utf8_len_nat a b c d \<noteq> 3"
  proof
    assume "utf8_len_nat a b c d = 3"
    with False show False
      unfolding utf8_len_nat_def utf8_cont_def Let_def by (simp split: if_split_asm)
  qed
  ultimately show ?thesis by simp
qed

lemma utf8_valid_4:
  assumes "x < 8" "y < 64" "z < 64" "w < 64"
  shows "utf8_valid [0xf0 + x, 0x80 + y, 0x80 + z, 0x80 + w] \<longleftrightarrow>
    (x = 0 \<longrightarrow> 16 \<le> y) \<and> x \<le> 4 \<and> (x = 4 \<longrightarrow> y < 16)"
proof -
  let ?u = "x * 262144 + y * 4096 + z * 64 + w"
  have v: "utf8_valid [0xf0 + x, 0x80 + y, 0x80 + z, 0x80 + w] \<longleftrightarrow> 0x10000 \<le> ?u \<and> utf8_scalar ?u"
    using assms by (simp add: utf8_valid_def utf8_cont_def Let_def)
  consider "x = 0" | "1 \<le> x" "x \<le> 3" | "x = 4" | "5 \<le> x" using assms by linarith
  then show ?thesis
    unfolding v utf8_scalar_def using assms by cases (simp_all, linarith+)
qed

lemma utf8_len_nat_4: "utf8_len_nat a b c d = 4 \<longleftrightarrow> utf8_valid [a, b, c, d]"
proof (cases "0xf0 \<le> a \<and> a < 0xf8 \<and> utf8_cont b \<and> utf8_cont c \<and> utf8_cont d")
  case True
  then obtain x y z w where xy: "a = 0xf0 + x" "b = 0x80 + y" "c = 0x80 + z" "d = 0x80 + w"
    and lt: "x < 8" "y < 64" "z < 64" "w < 64"
    using utf8_offset [of "0xf0" a 8] utf8_cont_offset [of b] utf8_cont_offset [of c]
      utf8_cont_offset [of d] by auto
  show ?thesis unfolding xy utf8_valid_4 [OF lt]
    using lt by (auto simp: utf8_len_nat_def Let_def)
next
  case False
  then have "\<not> utf8_valid [a, b, c, d]" by (auto simp add: utf8_valid_def Let_def)
  moreover have "utf8_len_nat a b c d \<noteq> 4"
  proof
    assume "utf8_len_nat a b c d = 4"
    with False show False
      unfolding utf8_len_nat_def utf8_cont_def Let_def by (simp split: if_split_asm)
  qed
  ultimately show ?thesis by simp
qed

lemma utf8_valid_long: "4 < length bs \<Longrightarrow> \<not> utf8_valid bs" "\<not> utf8_valid []"
  by (cases bs rule: utf8_decode.cases; simp add: utf8_valid_def)+

lemma utf8_valid_zero_tail:
  "\<not> utf8_valid [a, 0]" "\<not> utf8_valid [a, b, 0]" "\<not> utf8_valid [a, b, c, 0]"
  by (simp_all add: utf8_valid_def utf8_cont_def Let_def)

lemma utf8_valid_zero_mid:
  "\<not> utf8_valid [a, 0, c]" "\<not> utf8_valid [a, 0, c, d]" "\<not> utf8_valid [a, b, 0, d]"
  by (simp_all add: utf8_valid_def utf8_cont_def Let_def)

text \<open>C40: at a byte of a name, \<open>utf8_seq_len\<close> answers \<open>n > 0\<close> exactly when the next \<open>n\<close> bytes are
  all there and are the shortest encoding of a Unicode scalar value; 0 means no such \<open>n\<close> exists.\<close>

theorem utf8_seq_len_rfc3629:
  "(utf8_seq_len (x # xs) = n \<and> n \<noteq> 0) \<longleftrightarrow>
   (n \<le> length (x # xs) \<and> utf8_valid (map unat (take n (x # xs))))"
proof -
  let ?p = "x # xs"
  let ?a = "unat x" and ?b = "unat (at0 ?p 1)" and ?c = "unat (at0 ?p 2)" and ?d = "unat (at0 ?p 3)"
  have len: "utf8_seq_len ?p = utf8_len_nat ?a ?b ?c ?d" by (simp add: utf8_seq_len_nat)
  consider "n = 0" | "n = 1" | "n = 2" | "n = 3" | "n = 4" | "4 < n" by linarith
  then show ?thesis
  proof cases
    case 1
    then show ?thesis by (simp add: utf8_valid_long)
  next
    case 2
    then show ?thesis by (simp add: len utf8_len_nat_1 [simplified])
  next
    case 3
    then show ?thesis
      unfolding len by (cases xs) (simp_all add: utf8_len_nat_2 utf8_valid_zero_tail)
  next
    case 4
    then show ?thesis
      unfolding len 4 utf8_len_nat_3 by (cases xs; cases "tl xs")
        (simp_all add: utf8_valid_zero_tail utf8_valid_zero_mid numeral_2_eq_2 numeral_3_eq_3)
  next
    case 5
    then show ?thesis
      unfolding len 5 utf8_len_nat_4 by (cases xs; cases "tl xs"; cases "tl (tl xs)")
        (simp_all add: utf8_valid_zero_tail utf8_valid_zero_mid
          numeral_2_eq_2 numeral_3_eq_3 eval_nat_numeral(2) [of "num.Bit0 num.One"])
  next
    case 6
    have "utf8_len_nat ?a ?b ?c ?d \<noteq> n" using utf8_len_nat_range [of ?a ?b ?c ?d] 6 by auto
    moreover have "\<not> utf8_valid (map unat (take n ?p))" if "n \<le> length ?p"
      using that 6 by (intro utf8_valid_long) simp
    ultimately show ?thesis unfolding len by blast
  qed
qed

end
