(* ===== verification/Fiemap.thy ===== *)
theory Fiemap
  imports Base
begin

text \<open>
  \<open>src/fiemap.c\<close>: the extent maps of files. A \<open>struct fiemap\<close> is a record whose array holds the
  records the kernel copied; \<open>fm_mapped_extents\<close> is what the kernel reported, which may be more
  than the array holds when it was given no slots. A pointer into the array is its index, \<open>None\<close>
  for the null pointer. Offsets, lengths and flags keep their C width; the counts, which are
  \<open>unsigned int\<close>, are natural numbers with the wrap written out where one is doubled.
  Allocations succeed. The kernel is a parameter: \<open>ioctl\<close> answers a request (start, length, flags,
  slots) with an errno or a filled map, and a new kernel state.
\<close>

record fiemap_extent =
  fe_logical :: u64
  fe_physical :: u64
  fe_length :: u64
  fe_flags :: u32

record fiemap =
  fm_mapped_extents :: nat
  fm_extents :: "fiemap_extent list"

record fiemap_request =
  fm_start :: u64
  fm_length :: u64
  fm_flags :: u32
  fm_extent_count :: nat

type_synonym 'k fiemap_ioctl = "'k \<Rightarrow> fiemap_request \<Rightarrow> (int + fiemap) \<times> 'k"

text \<open>The flags, from \<open>linux/fiemap.h\<close>.\<close>

abbreviation "FIEMAP_FLAG_SYNC \<equiv> (0x1 :: u32)"
abbreviation "FIEMAP_EXTENT_LAST \<equiv> (0x1 :: u32)"
abbreviation "FIEMAP_EXTENT_UNKNOWN \<equiv> (0x2 :: u32)"
abbreviation "FIEMAP_EXTENT_DELALLOC \<equiv> (0x4 :: u32)"
abbreviation "FIEMAP_EXTENT_ENCODED \<equiv> (0x8 :: u32)"
abbreviation "FIEMAP_EXTENT_DATA_ENCRYPTED \<equiv> (0x80 :: u32)"
abbreviation "FIEMAP_EXTENT_DATA_INLINE \<equiv> (0x200 :: u32)"
abbreviation "FIEMAP_EXTENT_UNWRITTEN \<equiv> (0x800 :: u32)"
abbreviation "FIEMAP_EXTENT_SHARED \<equiv> (0x2000 :: u32)"

abbreviation fe_end :: "fiemap_extent \<Rightarrow> u64" where
  "fe_end e \<equiv> fe_logical e + fe_length e"

abbreviation ext_at :: "fiemap \<Rightarrow> nat \<Rightarrow> fiemap_extent" where
  "ext_at fm i \<equiv> fm_extents fm ! i"

subsection \<open>Counting and mapping\<close>

definition count_extents :: "'k fiemap_ioctl \<Rightarrow> 'k \<Rightarrow> u64 \<Rightarrow> u64 \<Rightarrow> u32 \<Rightarrow> nat \<times> 'k" where
  "count_extents ioctl k start len flags =
    (case ioctl k \<lparr>fm_start = start, fm_length = len, fm_flags = flags, fm_extent_count = 0\<rparr> of
       (Inl err, k') \<Rightarrow> (0, k')
     | (Inr fm, k') \<Rightarrow> (fm_mapped_extents fm, k'))"

definition fiemap_count_extents :: "'k fiemap_ioctl \<Rightarrow> 'k \<Rightarrow> u64 \<Rightarrow> u64 \<Rightarrow> nat \<times> 'k" where
  "fiemap_count_extents ioctl k start len = count_extents ioctl k start len 0"

definition range_end :: "u64 \<Rightarrow> u64 \<Rightarrow> u64" where
  "range_end start len = (if u64_max - start < len then u64_max else start + len)"

definition fiemap_map_complete :: "fiemap \<Rightarrow> nat \<Rightarrow> u64 \<Rightarrow> u64 \<Rightarrow> bool" where
  "fiemap_map_complete fm cnt start len =
    (if cnt < fm_mapped_extents fm then False
     else if fm_mapped_extents fm < cnt \<or> cnt = 0 then True
     else fe_flags (ext_at fm (cnt - 1)) AND FIEMAP_EXTENT_LAST \<noteq> 0 \<or>
          range_end start len \<le> fe_end (ext_at fm (cnt - 1)))"

definition fiemap_map_truncated ::
  "'k fiemap_ioctl \<Rightarrow> 'k \<Rightarrow> fiemap \<Rightarrow> nat \<Rightarrow> u64 \<Rightarrow> u64 \<Rightarrow> bool \<times> 'k" where
  "fiemap_map_truncated ioctl k fm cnt start len =
    (if fiemap_map_complete fm cnt start len then (False, k)
     else if cnt < fm_mapped_extents fm then (True, k)
     else let from = fe_end (ext_at fm (cnt - 1));
              (n, k') = fiemap_count_extents ioctl k from (range_end start len - from)
          in (0 < n, k'))"

text \<open>The retry loop, \<open>tries\<close> attempts left. \<open>unstable\<close> is the test hook.\<close>

fun fiemap_map_loop ::
  "nat \<Rightarrow> 'k fiemap_ioctl \<Rightarrow> bool \<Rightarrow> 'k \<Rightarrow> u64 \<Rightarrow> u64 \<Rightarrow> nat \<Rightarrow> (int + fiemap) \<times> 'k" where
  "fiemap_map_loop 0 ioctl unstable k start len cnt = (Inl EAGAIN, k)"
| "fiemap_map_loop (Suc tries) ioctl unstable k start len cnt =
    (case ioctl k \<lparr>fm_start = start, fm_length = len, fm_flags = 0, fm_extent_count = cnt\<rparr> of
       (Inl err, k1) \<Rightarrow> (Inl err, k1)
     | (Inr fm, k1) \<Rightarrow>
         (case fiemap_map_truncated ioctl k1 fm cnt start len of
            (truncated, k2) \<Rightarrow>
              if \<not> truncated \<and> \<not> unstable then (Inr fm, k2)
              else let more = (if cnt < fm_mapped_extents fm then fm_mapped_extents fm else cnt)
                   in fiemap_map_loop tries ioctl unstable k2 start len (2 * more mod 2 ^ 32)))"

definition fiemap_map ::
  "'k fiemap_ioctl \<Rightarrow> bool \<Rightarrow> 'k \<Rightarrow> u64 \<Rightarrow> u64 \<Rightarrow> nat \<Rightarrow> (int + fiemap) \<times> 'k" where
  "fiemap_map ioctl unstable k start len cnt = fiemap_map_loop 4 ioctl unstable k start len cnt"

definition do_fiemap :: "'k fiemap_ioctl \<Rightarrow> bool \<Rightarrow> 'k \<Rightarrow> (int + fiemap) \<times> 'k" where
  "do_fiemap ioctl unstable k =
    (case count_extents ioctl k 0 u64_max FIEMAP_FLAG_SYNC of
       (n, k') \<Rightarrow> fiemap_map ioctl unstable k' 0 u64_max n)"

text \<open>Null, here \<open>None\<close>, both for a hole and on an error.\<close>

definition do_fiemap_range ::
  "'k fiemap_ioctl \<Rightarrow> bool \<Rightarrow> 'k \<Rightarrow> u64 \<Rightarrow> u64 \<Rightarrow> fiemap option \<times> 'k" where
  "do_fiemap_range ioctl unstable k start len =
    (case fiemap_count_extents ioctl k start len of
       (n, k') \<Rightarrow>
         if n = 0 then (None, k')
         else (case fiemap_map ioctl unstable k' start len n of
                 (Inl _, k'') \<Rightarrow> (None, k'')
               | (Inr fm, k'') \<Rightarrow> (Some fm, k'')))"

definition fiemap_first_extent_poff ::
  "'k fiemap_ioctl \<Rightarrow> 'k \<Rightarrow> u64 \<Rightarrow> u64 \<Rightarrow> u64 option \<times> 'k" where
  "fiemap_first_extent_poff ioctl k start len =
    (case ioctl k \<lparr>fm_start = start, fm_length = len, fm_flags = 0, fm_extent_count = 1\<rparr> of
       (Inl _, k') \<Rightarrow> (None, k')
     | (Inr fm, k') \<Rightarrow>
         if fm_mapped_extents fm = 0 then (None, k') else (Some (fe_physical (ext_at fm 0)), k'))"

subsection \<open>Looking up an offset\<close>

function get_extent_loop :: "fiemap \<Rightarrow> u64 \<Rightarrow> nat \<Rightarrow> nat option" where
  "get_extent_loop fm loff i =
    (if i < fm_mapped_extents fm then
       if fe_end (ext_at fm i) - 1 < loff then get_extent_loop fm loff (i + 1) else Some i
     else None)"
  by pat_completeness auto
termination by (relation "measure (\<lambda>(fm, _, i). fm_mapped_extents fm - i)") auto

declare get_extent_loop.simps [simp del]

text \<open>\<open>index\<close> is the optional resume cursor; its new value is the second result.\<close>

definition get_extent :: "fiemap \<Rightarrow> u64 \<Rightarrow> nat option \<Rightarrow> nat option \<times> nat option" where
  "get_extent fm loff index =
    (let start = (case index of
           None \<Rightarrow> 0
         | Some c \<Rightarrow> if c < fm_mapped_extents fm \<and> (c = 0 \<or> fe_end (ext_at fm (c - 1)) \<le> loff)
                     then c else 0)
     in case get_extent_loop fm loff start of
          None \<Rightarrow> (None, index)
        | Some i \<Rightarrow> (Some i, (case index of None \<Rightarrow> None | Some _ \<Rightarrow> Some i)))"

subsection \<open>Shared bytes of a range\<close>

fun count_shared_loop :: "fiemap_extent list \<Rightarrow> u64 \<Rightarrow> u64 \<Rightarrow> u64 \<Rightarrow> u64" where
  "count_shared_loop [] start_off end_off shared = shared"
| "count_shared_loop (e # es) start_off end_off shared =
    (let extent_end = fe_end e; extent_loff = fe_logical e
     in if start_off \<le> extent_end \<and> extent_loff \<le> end_off \<and>
           fe_flags e AND FIEMAP_EXTENT_DELALLOC = 0 \<and> fe_flags e AND FIEMAP_EXTENT_SHARED \<noteq> 0
        then let extent_loff = (if extent_loff < start_off then start_off else extent_loff);
                 extent_end = (if end_off < extent_end then end_off else extent_end)
             in count_shared_loop es start_off end_off (shared + (extent_end - extent_loff))
        else count_shared_loop es start_off end_off shared)"

text \<open>\<open>None\<close> is the abort of \<open>start_off >= end_off\<close>.\<close>

definition fiemap_count_shared ::
  "'k fiemap_ioctl \<Rightarrow> bool \<Rightarrow> 'k \<Rightarrow> u64 \<Rightarrow> u64 \<Rightarrow> (u64 \<times> 'k) option" where
  "fiemap_count_shared ioctl unstable k start_off end_off =
    (if end_off \<le> start_off then None
     else case do_fiemap_range ioctl unstable k start_off (end_off - start_off) of
            (None, k') \<Rightarrow> Some (0, k')
          | (Some fm, k') \<Rightarrow>
              Some (count_shared_loop (take (fm_mapped_extents fm) (fm_extents fm)) start_off end_off 0, k'))"

subsection \<open>Do two ranges share their storage?\<close>

abbreviation "FIEMAP_NO_PHYS \<equiv>
  FIEMAP_EXTENT_UNKNOWN OR FIEMAP_EXTENT_DELALLOC OR FIEMAP_EXTENT_DATA_INLINE"

definition gap_at :: "fiemap_extent option \<Rightarrow> u64 \<Rightarrow> u64 \<Rightarrow> u64" where
  "gap_at e off rest =
    (case e of None \<Rightarrow> rest | Some x \<Rightarrow> if off < fe_logical x then fe_logical x - off else 0)"

definition ext_opt :: "fiemap \<Rightarrow> nat \<Rightarrow> fiemap_extent option" where
  "ext_opt fm i = (if i < fm_mapped_extents fm then Some (ext_at fm i) else None)"

text \<open>
  A hole step leaves both positions on their record, or past the range when a map has run out, so
  the next step is a data step or the end; a data step consumes an index.
\<close>

definition share_measure :: "fiemap \<Rightarrow> u64 \<Rightarrow> fiemap \<Rightarrow> u64 \<Rightarrow> u64 \<Rightarrow> nat \<Rightarrow> u64 \<Rightarrow> nat" where
  "share_measure tgt tgt_off dm dest_off len i pos =
    (if pos < len then
       1 + 2 * (max (fm_mapped_extents tgt) (fm_mapped_extents dm) - i) +
       (if gap_at (ext_opt tgt i) (tgt_off + pos) (len - pos) = 0 then 0 else 1)
     else 0)"

lemma gap_at_self: "gap_at (Some e) (off + gap_at (Some e) off r) r' = 0"
  by (simp add: gap_at_def)

lemma gap_after_hole:
  assumes "pos < len" and "gap_at e (off + pos) (len - pos) = h"
    and "pos + h < len"
  shows "gap_at e (off + (pos + h)) r = 0"
proof (cases e)
  case None
  then have "h = len - pos" using assms(2) by (simp add: gap_at_def)
  then have "pos + h = len" by simp
  with assms(3) show ?thesis by simp
next
  case (Some x)
  with assms(2) have h: "h = gap_at (Some x) (off + pos) (len - pos)" by simp
  show ?thesis using gap_at_self [of x "off + pos" "len - pos" r] unfolding Some h
    by (simp add: add.assoc)
qed

function maps_share_loop ::
  "fiemap \<Rightarrow> u64 \<Rightarrow> fiemap \<Rightarrow> u64 \<Rightarrow> u64 \<Rightarrow> nat \<Rightarrow> u64 \<Rightarrow> bool" where
  "maps_share_loop tgt tgt_off dm dest_off len i pos =
    (if \<not> pos < len then True
     else let ea = ext_opt tgt i; eb = ext_opt dm i;
              ha = gap_at ea (tgt_off + pos) (len - pos);
              hb = gap_at eb (dest_off + pos) (len - pos)
          in if ha \<noteq> 0 \<or> hb \<noteq> 0 then
               (if ha \<noteq> hb then False else maps_share_loop tgt tgt_off dm dest_off len i (pos + ha))
             else (case (ea, eb) of
                (Some a, Some b) \<Rightarrow>
                  if (fe_flags a OR fe_flags b) AND FIEMAP_NO_PHYS \<noteq> 0 then False
                  else let pa = tgt_off + pos - fe_logical a; pb = dest_off + pos - fe_logical b
                       in if pa \<noteq> pb \<or> fe_physical a \<noteq> fe_physical b then False
                          else let ra = fe_length a - pa; rb = fe_length b - pb;
                                   pos' = pos + (if ra < rb then ra else rb)
                               in if ra \<noteq> rb \<and> pos' < len then False
                                  else maps_share_loop tgt tgt_off dm dest_off len (i + 1) pos'
              | _ \<Rightarrow> False))"
  by pat_completeness auto

termination
proof (relation "measure (\<lambda>(tgt, tgt_off, dm, dest_off, len, i, pos).
    share_measure tgt tgt_off dm dest_off len i pos)", goal_cases)
  case 1
  show ?case by simp
next
  case (2 tgt tgt_off dm dest_off len i pos ea eb ha hb)
  have h: "gap_at (ext_opt tgt i) (tgt_off + pos) (len - pos) = ha" using 2(2,4) by simp
  have ne: "ha \<noteq> 0" using 2(6,7) by auto
  show ?case
  proof (cases "pos + ha < len")
    case True
    have "gap_at (ext_opt tgt i) (tgt_off + (pos + ha)) (len - (pos + ha)) = 0"
      using 2(1) h True by (intro gap_after_hole) simp_all
    with 2(1) h ne show ?thesis by (simp add: share_measure_def)
  next
    case False
    with 2(1) show ?thesis by (simp add: share_measure_def)
  qed
next
  case (3 tgt tgt_off dm dest_off len i pos ea eb ha hb p q a b pa pb ra rb pos')
  then have "i < fm_mapped_extents tgt" by (auto simp: ext_opt_def split: if_splits)
  then have "i < max (fm_mapped_extents tgt) (fm_mapped_extents dm)" by simp
  with 3(1) show ?case by (auto simp: share_measure_def)
qed

declare maps_share_loop.simps [simp del]

definition fiemap_maps_share :: "fiemap option \<Rightarrow> u64 \<Rightarrow> fiemap option \<Rightarrow> u64 \<Rightarrow> u64 \<Rightarrow> bool" where
  "fiemap_maps_share tgt tgt_off dm dest_off len =
    (case (tgt, dm) of
       (Some t, Some d) \<Rightarrow>
         if len = 0 \<or> fm_mapped_extents t = 0 then False
         else maps_share_loop t tgt_off d dest_off len 0 0
     | _ \<Rightarrow> False)"

subsection \<open>Sets of physical addresses\<close>

text \<open>
  \<open>ps_v\<close> is the allocated array, of \<open>ps_cap\<close> elements, of which the first \<open>ps_n\<close> are the set.
  The elements past them are uninitialised in C and never read; here they are 0. \<open>qsort\<close> with
  \<open>cmp_u64\<close> is \<open>sort\<close>, and \<open>bsearch\<close> on a sorted array finds exactly its members.
\<close>

record fiemap_phys_set =
  ps_v :: "u64 list"
  ps_n :: nat
  ps_cap :: nat

definition ps_members :: "fiemap_phys_set \<Rightarrow> u64 list" where
  "ps_members ps = take (ps_n ps) (ps_v ps)"

function uniq_loop :: "u64 list \<Rightarrow> nat \<Rightarrow> nat \<Rightarrow> nat \<Rightarrow> u64 list \<times> nat" where
  "uniq_loop v i w n =
    (if i < n then
       if v ! i \<noteq> v ! (w - 1) then uniq_loop (v[w := v ! i]) (i + 1) (w + 1) n
       else uniq_loop v (i + 1) w n
     else (v, w))"
  by pat_completeness auto
termination by (relation "measure (\<lambda>(v, i, w, n). n - i)") auto

declare uniq_loop.simps [simp del]

definition sort_uniq :: "u64 list \<Rightarrow> nat \<Rightarrow> u64 list \<times> nat" where
  "sort_uniq v n = (if n < 2 then (v, n) else uniq_loop (sort (take n v) @ drop n v) 1 1 n)"

definition addressable :: "fiemap_extent \<Rightarrow> bool" where
  "addressable e \<longleftrightarrow> fe_flags e AND FIEMAP_NO_PHYS = 0"

definition fiemap_phys_set_init :: "fiemap option \<Rightarrow> fiemap_phys_set" where
  "fiemap_phys_set_init fmo =
    (case fmo of
       None \<Rightarrow> \<lparr>ps_v = [], ps_n = 0, ps_cap = 0\<rparr>
     | Some fm \<Rightarrow>
         if fm_mapped_extents fm = 0 then \<lparr>ps_v = [], ps_n = 0, ps_cap = 0\<rparr>
         else let cap = fm_mapped_extents fm;
                  phys = map fe_physical (filter addressable (take cap (fm_extents fm)));
                  (v, n) = sort_uniq (phys @ replicate (cap - length phys) 0) (length phys)
              in \<lparr>ps_v = v, ps_n = n, ps_cap = cap\<rparr>)"

function grow_cap :: "nat \<Rightarrow> nat \<Rightarrow> nat" where
  "grow_cap cap need = (if 0 < cap \<and> cap < need then grow_cap (cap * 2) need else cap)"
  by pat_completeness auto
termination by (relation "measure (\<lambda>(cap, need). need - cap)") auto

declare grow_cap.simps [simp del]

text \<open>The merge, from the back.\<close>

function merge_loop :: "u64 list \<Rightarrow> u64 list \<Rightarrow> nat \<Rightarrow> nat \<Rightarrow> nat \<Rightarrow> u64 list" where
  "merge_loop v add i j k =
    (if 0 < j then
       if 0 < i \<and> add ! (j - 1) < v ! (i - 1)
       then merge_loop (v[k - 1 := v ! (i - 1)]) add (i - 1) j (k - 1)
       else merge_loop (v[k - 1 := add ! (j - 1)]) add i (j - 1) (k - 1)
     else v)"
  by pat_completeness auto
termination by (relation "measure (\<lambda>(v, add, i, j, k). i + j)") auto

declare merge_loop.simps [simp del]

definition phys_set_merge :: "fiemap_phys_set \<Rightarrow> u64 list \<Rightarrow> nat \<Rightarrow> fiemap_phys_set" where
  "phys_set_merge ps add n_add =
    (if n_add = 0 then ps
     else let need = ps_n ps + n_add;
              cap = (if ps_cap ps < need
                     then grow_cap (if ps_cap ps \<noteq> 0 then ps_cap ps else 16) need else ps_cap ps);
              v = take cap (ps_v ps @ replicate (cap - length (ps_v ps)) 0);
              merged = merge_loop v add (ps_n ps) n_add need;
              (v', w) = uniq_loop merged 1 1 need
          in \<lparr>ps_v = v', ps_n = w, ps_cap = cap\<rparr>)"

fun unshared_loop ::
  "fiemap_extent list \<Rightarrow> u64 \<Rightarrow> u64 \<Rightarrow> fiemap_phys_set \<Rightarrow> u64 \<Rightarrow> u64 list \<Rightarrow> u64 \<times> u64 list" where
  "unshared_loop [] dest_off dest_end seen unshared fresh = (unshared, fresh)"
| "unshared_loop (e # es) dest_off dest_end seen unshared fresh =
    (let start = (if dest_off < fe_logical e then fe_logical e else dest_off);
         end0 = fe_end e;
         end' = (if dest_end < end0 then dest_end else end0)
     in if end' \<le> start then unshared_loop es dest_off dest_end seen unshared fresh
        else if addressable e \<and> ps_n seen \<noteq> 0 \<and> fe_physical e \<in> set (ps_members seen)
        then unshared_loop es dest_off dest_end seen unshared fresh
        else unshared_loop es dest_off dest_end seen (unshared + (end' - start))
               (if addressable e then fresh @ [fe_physical e] else fresh))"

definition fiemap_unshared_bytes ::
  "fiemap_phys_set \<Rightarrow> fiemap option \<Rightarrow> u64 \<Rightarrow> u64 \<Rightarrow> u64 \<times> fiemap_phys_set" where
  "fiemap_unshared_bytes seen dm dest_off len =
    (case dm of
       None \<Rightarrow> (len, seen)
     | Some fm \<Rightarrow>
         (case unshared_loop (take (fm_mapped_extents fm) (fm_extents fm)) dest_off (dest_off + len)
                 seen 0 [] of
            (unshared, fresh) \<Rightarrow>
              (case sort_uniq fresh (length fresh) of
                 (v, n) \<Rightarrow> (unshared, phys_set_merge seen v n))))"

subsection \<open>Layout keys\<close>

abbreviation "LAYOUT_REJECT_FLAGS \<equiv>
  FIEMAP_EXTENT_UNKNOWN OR FIEMAP_EXTENT_DELALLOC OR FIEMAP_EXTENT_DATA_INLINE OR
  FIEMAP_EXTENT_DATA_ENCRYPTED OR FIEMAP_EXTENT_ENCODED"

abbreviation "LAYOUT_IGNORE_FLAGS \<equiv> FIEMAP_EXTENT_SHARED OR FIEMAP_EXTENT_LAST"

fun layout_records :: "fiemap_extent list \<Rightarrow> u64 list option" where
  "layout_records [] = Some []"
| "layout_records (e # es) =
    (if fe_flags e AND LAYOUT_REJECT_FLAGS \<noteq> 0 then None
     else map_option (\<lambda>r. fe_logical e # fe_physical e # fe_length e #
            (ucast (fe_flags e) AND NOT (ucast (LAYOUT_IGNORE_FLAGS :: u32))) # r)
          (layout_records es))"

text \<open>\<open>csum\<close> is \<open>checksum_block\<close> over the words; \<open>None\<close> is the answer false.\<close>

definition fiemap_layout_key :: "(u64 list \<Rightarrow> 'd) \<Rightarrow> fiemap option \<Rightarrow> u64 \<Rightarrow> 'd option" where
  "fiemap_layout_key csum fmo sz =
    (case fmo of
       None \<Rightarrow> None
     | Some fm \<Rightarrow>
         if fm_mapped_extents fm = 0 then None
         else if 2 ^ 31 - 1 < (2 + 4 * fm_mapped_extents fm) * 8 then None
         else (case layout_records (take (fm_mapped_extents fm) (fm_extents fm)) of
                 None \<Rightarrow> None
               | Some r \<Rightarrow> Some (csum (sz # of_nat (fm_mapped_extents fm) # r))))"

subsection \<open>The address set is a sorted array without duplicates\<close>

abbreviation strictly_sorted :: "u64 list \<Rightarrow> bool" where
  "strictly_sorted \<equiv> sorted_wrt (<)"

definition ps_wf :: "fiemap_phys_set \<Rightarrow> bool" where
  "ps_wf ps \<longleftrightarrow> ps_n ps \<le> ps_cap ps \<and> length (ps_v ps) = ps_cap ps \<and> strictly_sorted (ps_members ps)"

lemma take_Suc_update: "w < length v \<Longrightarrow> take (Suc w) (v[w := x]) = take w v @ [x]"
  by (simp add: take_Suc_conv_app_nth)

lemma drop_take_Cons: "i < n \<Longrightarrow> n \<le> length v \<Longrightarrow> drop i (take n v) = v ! i # drop (Suc i) (take n v)"
  by (simp add: Cons_nth_drop_Suc [symmetric])

lemma strictly_sorted_snoc: "strictly_sorted (xs @ [x]) \<longleftrightarrow> strictly_sorted xs \<and> (\<forall>y\<in>set xs. y < x)"
  by (simp add: sorted_wrt_append)

lemma strictly_sorted_last: "strictly_sorted xs \<Longrightarrow> xs \<noteq> [] \<Longrightarrow> y \<in> set xs \<Longrightarrow> y \<le> last xs"
proof (induction xs)
  case (Cons a xs)
  then show ?case using last_in_set [of xs] by (cases "xs = []") (auto intro: less_imp_le)
qed simp

lemma uniq_loop_spec:
  assumes "1 \<le> w" "w \<le> i" "i \<le> n" "n \<le> length v"
    and "strictly_sorted (take w v)" and "sorted (drop i (take n v))"
    and "\<forall>x\<in>set (drop i (take n v)). v ! (w - 1) \<le> x"
  shows "snd (uniq_loop v i w n) \<le> n \<and> length (fst (uniq_loop v i w n)) = length v \<and>
    strictly_sorted (take (snd (uniq_loop v i w n)) (fst (uniq_loop v i w n))) \<and>
    set (take (snd (uniq_loop v i w n)) (fst (uniq_loop v i w n))) =
      set (take w v) \<union> set (drop i (take n v))"
  using assms
proof (induction v i w n rule: uniq_loop.induct)
  case (1 v i w n)
  show ?case
  proof (cases "i < n")
    case False
    then have "uniq_loop v i w n = (v, w)" by (subst uniq_loop.simps) simp
    with False 1(3-9) show ?thesis by simp
  next
    case True
    have dr: "drop i (take n v) = v ! i # drop (Suc i) (take n v)"
      using True 1(6) by (rule drop_take_Cons)
    have last: "take w v \<noteq> []" "last (take w v) = v ! (w - 1)"
      using 1(3-6) by (cases w; auto simp: take_Suc_conv_app_nth)+
    have mem: "v ! (w - 1) \<in> set (take w v)" using last last_in_set by metis
    show ?thesis
    proof (cases "v ! i = v ! (w - 1)")
      case same: True
      have "snd (uniq_loop v (i + 1) w n) \<le> n \<and> length (fst (uniq_loop v (i + 1) w n)) = length v \<and>
          strictly_sorted (take (snd (uniq_loop v (i + 1) w n)) (fst (uniq_loop v (i + 1) w n))) \<and>
          set (take (snd (uniq_loop v (i + 1) w n)) (fst (uniq_loop v (i + 1) w n))) =
            set (take w v) \<union> set (drop (i + 1) (take n v))"
        using 1(3-9) True same by (intro 1(2)) (simp_all add: dr)
      with True same mem show ?thesis
        by (simp add: uniq_loop.simps [of v i w n] dr insert_absorb)
    next
      case diff: False
      let ?v = "v[w := v ! i]"
      have gt: "v ! (w - 1) < v ! i" using 1(9) diff dr by (auto simp: less_le)
      have tk: "take (w + 1) ?v = take w v @ [v ! i]"
        using 1(4-6) True by (simp add: take_Suc_update)
      have dr': "drop (i + 1) (take n ?v) = drop (i + 1) (take n v)"
        using 1(4) by (simp add: drop_take take_update_swap drop_update_cancel)
      have all: "\<forall>y\<in>set (take w v). y < v ! i"
        using strictly_sorted_last [OF 1(7) last(1)] gt last(2) by (auto intro: le_less_trans)
      have "snd (uniq_loop ?v (i + 1) (w + 1) n) \<le> n \<and>
          length (fst (uniq_loop ?v (i + 1) (w + 1) n)) = length ?v \<and>
          strictly_sorted (take (snd (uniq_loop ?v (i + 1) (w + 1) n)) (fst (uniq_loop ?v (i + 1) (w + 1) n))) \<and>
          set (take (snd (uniq_loop ?v (i + 1) (w + 1) n)) (fst (uniq_loop ?v (i + 1) (w + 1) n))) =
            set (take (w + 1) ?v) \<union> set (drop (i + 1) (take n ?v))"
      proof (rule 1(1) [OF True])
        show "v ! i \<noteq> v ! (w - 1)" by (rule diff)
        show "strictly_sorted (take (w + 1) ?v)"
          unfolding tk strictly_sorted_snoc using 1(7) all by blast
        show "sorted (drop (i + 1) (take n ?v))" unfolding dr' using 1(8) by (simp add: dr)
        show "\<forall>x\<in>set (drop (i + 1) (take n ?v)). ?v ! (w + 1 - 1) \<le> x"
          unfolding dr' using 1(8) 1(4-6) True by (simp add: dr)
      qed (use 1(3-6) True in simp_all)
      with True diff show ?thesis
        unfolding tk dr' by (simp add: uniq_loop.simps [of v i w n] dr)
    qed
  qed
qed

lemma uniq_loop_sorted:
  assumes "0 < n" "n \<le> length v" "sorted (take n v)" and "uniq_loop v 1 1 n = (v', w)"
  shows "w \<le> n" "length v' = length v" "strictly_sorted (take w v')" "set (take w v') = set (take n v)"
proof -
  have tk: "take n v = v ! 0 # drop 1 (take n v)" "take 1 v = [v ! 0]"
    using assms(1,2) by (cases v; cases n; simp)+
  have "sorted (v ! 0 # drop 1 (take n v))" using assms(3) tk(1) by simp
  then have "sorted (drop 1 (take n v))" "\<forall>x\<in>set (drop 1 (take n v)). v ! (1 - 1) \<le> x" by simp_all
  then have "snd (uniq_loop v 1 1 n) \<le> n \<and> length (fst (uniq_loop v 1 1 n)) = length v \<and>
    strictly_sorted (take (snd (uniq_loop v 1 1 n)) (fst (uniq_loop v 1 1 n))) \<and>
    set (take (snd (uniq_loop v 1 1 n)) (fst (uniq_loop v 1 1 n))) =
      set (take 1 v) \<union> set (drop 1 (take n v))"
    using assms(1,2) tk(2) by (intro uniq_loop_spec) simp_all
  moreover have "set (take 1 v) \<union> set (drop 1 (take n v)) = set (take n v)"
    using arg_cong [OF tk(1), of set] tk(2) by simp
  ultimately show "w \<le> n" "length v' = length v" "strictly_sorted (take w v')"
    "set (take w v') = set (take n v)"
    using assms(4) by simp_all
qed

lemma sort_uniq_spec:
  assumes "n \<le> length v" and "sort_uniq v n = (v', w)"
  shows "w \<le> n" "length v' = length v" "strictly_sorted (take w v')" "set (take w v') = set (take n v)"
proof -
  have "w \<le> n \<and> length v' = length v \<and> strictly_sorted (take w v') \<and> set (take w v') = set (take n v)"
  proof (cases "n < 2")
    case True
    then have "n = 0 \<or> n = 1" by arith
    moreover have "strictly_sorted (take 1 v)" by (cases v) simp_all
    ultimately show ?thesis using True assms by (auto simp: sort_uniq_def)
  next
    case False
    let ?s = "sort (take n v) @ drop n v"
    have "take n ?s = sort (take n v)" "length ?s = length v" using assms(1) by simp_all
    moreover have "uniq_loop ?s 1 1 n = (v', w)" using False assms by (simp add: sort_uniq_def)
    ultimately show ?thesis using uniq_loop_sorted [of n ?s v' w] False assms(1) by simp
  qed
  then show "w \<le> n" "length v' = length v" "strictly_sorted (take w v')" "set (take w v') = set (take n v)"
    by blast+
qed

lemma grow_cap_ge: "0 < cap \<Longrightarrow> need \<le> grow_cap cap need \<and> cap \<le> grow_cap cap need"
proof (induction cap need rule: grow_cap.induct)
  case (1 cap need)
  show ?case
  proof (cases "cap < need")
    case True
    with 1 have "need \<le> grow_cap (cap * 2) need \<and> cap * 2 \<le> grow_cap (cap * 2) need" by simp
    with True 1(2) show ?thesis by (simp add: grow_cap.simps [of cap need])
  qed (simp add: grow_cap.simps [of cap need])
qed

text \<open>The backward merge leaves the sorted union of both runs.\<close>

lemma merge_loop_spec:
  assumes "k = i + j" "k \<le> n" "n \<le> length v" "j \<le> length add"
    and "sorted (take i v)" "sorted (take j add)" "sorted (drop k (take n v))"
    and "\<forall>x\<in>set (take i v) \<union> set (take j add). \<forall>y\<in>set (drop k (take n v)). x \<le> y"
  shows "length (merge_loop v add i j k) = length v \<and> sorted (take n (merge_loop v add i j k)) \<and>
    set (take n (merge_loop v add i j k)) = set (take i v) \<union> set (take j add) \<union> set (drop k (take n v))"
  using assms
proof (induction v add i j k rule: merge_loop.induct)
  case (1 v add i j k)
  note IH = 1(1,2) and k = 1(3) and kn = 1(4) and nv = 1(5) and ja = 1(6) and si = 1(7)
    and sj = 1(8) and sd = 1(9) and le = 1(10)
  show ?case
  proof (cases "0 < j")
    case False
    then have j: "j = 0" by simp
    have tk: "take n v = take i v @ drop i (take n v)"
      using k j kn by (metis add_0_right append_take_drop_id min.absorb1 take_take)
    have "sorted (take n v)"
      by (subst tk) (use si sd le k j in \<open>auto simp: sorted_append\<close>)
    moreover have "set (take n v) = set (take i v) \<union> set (drop i (take n v))"
      by (subst tk) simp
    moreover have "merge_loop v add i j k = v" using j by (subst merge_loop.simps) simp
    ultimately show ?thesis using j k by simp
  next
    case True
    have snoc: "take (Suc m) xs = take m xs @ [xs ! m]" if "m < length xs" for m and xs :: "u64 list"
      using that by (rule take_Suc_conv_app_nth)
    have upd: "drop (k - 1) (take n (v[k - 1 := x])) = x # drop k (take n v)" for x
    proof -
      have "k - 1 < n" "n \<le> length (v[k - 1 := x])" using True k kn nv by auto
      then have "drop (k - 1) (take n (v[k - 1 := x])) =
          v[k - 1 := x] ! (k - 1) # drop (Suc (k - 1)) (take n (v[k - 1 := x]))"
        by (rule drop_take_Cons)
      then show ?thesis using True k kn nv by (simp add: take_update_swap)
    qed
    have keep: "take m (v[k - 1 := x]) = take m v" if "m \<le> k - 1" for m x
      using that by simp
    have jl: "take j add = take (j - 1) add @ [add ! (j - 1)]"
      using snoc [of "j - 1" add] True ja by simp
    show ?thesis
    proof (cases "0 < i \<and> add ! (j - 1) < v ! (i - 1)")
      case c: True
      have il: "take i v = take (i - 1) v @ [v ! (i - 1)]"
        using snoc [of "i - 1" v] c k kn nv True by simp
      let ?v = "v[k - 1 := v ! (i - 1)]"
      have ki: "i - 1 \<le> k - 1" using k by simp
      have top: "\<forall>x\<in>set (take (i - 1) v) \<union> set (take j add). x \<le> v ! (i - 1)"
        using si sj c unfolding il jl by (fastforce simp: sorted_append)
      have "length (merge_loop ?v add (i - 1) j (k - 1)) = length ?v \<and>
          sorted (take n (merge_loop ?v add (i - 1) j (k - 1))) \<and>
          set (take n (merge_loop ?v add (i - 1) j (k - 1))) =
            set (take (i - 1) ?v) \<union> set (take j add) \<union> set (drop (k - 1) (take n ?v))"
      proof (rule IH(1) [OF True c])
        show "sorted (take (i - 1) ?v)" using si unfolding keep [OF ki] il by (simp add: sorted_append)
        show "sorted (drop (k - 1) (take n ?v))" unfolding upd using sd le c by (simp add: il)
        show "\<forall>x\<in>set (take (i - 1) ?v) \<union> set (take j add). \<forall>y\<in>set (drop (k - 1) (take n ?v)). x \<le> y"
          unfolding upd keep [OF ki] using top le by (auto simp: il)
      qed (use k kn nv ja sj c in simp_all)
      then show ?thesis
        using True c unfolding upd keep [OF ki]
        by (auto simp: merge_loop.simps [of v add i j k] il)
    next
      case c: False
      let ?v = "v[k - 1 := add ! (j - 1)]"
      have ki: "i \<le> k - 1" using k True by simp
      have top: "\<forall>x\<in>set (take i v) \<union> set (take (j - 1) add). x \<le> add ! (j - 1)"
      proof -
        have "\<forall>x\<in>set (take (j - 1) add). x \<le> add ! (j - 1)"
          using sj unfolding jl by (simp add: sorted_append)
        moreover have "\<forall>x\<in>set (take i v). x \<le> add ! (j - 1)"
        proof (cases "0 < i")
          case True
          then have il: "take i v = take (i - 1) v @ [v ! (i - 1)]"
            using snoc [of "i - 1" v] k kn nv by simp
          have "v ! (i - 1) \<le> add ! (j - 1)" using c True by simp
          with si show ?thesis unfolding il by (fastforce simp: sorted_append)
        qed simp
        ultimately show ?thesis by blast
      qed
      have "length (merge_loop ?v add i (j - 1) (k - 1)) = length ?v \<and>
          sorted (take n (merge_loop ?v add i (j - 1) (k - 1))) \<and>
          set (take n (merge_loop ?v add i (j - 1) (k - 1))) =
            set (take i ?v) \<union> set (take (j - 1) add) \<union> set (drop (k - 1) (take n ?v))"
      proof (rule IH(2) [OF True c])
        show "sorted (take i ?v)" using si unfolding keep [OF ki] .
        show "sorted (take (j - 1) add)" using sj by (simp add: jl sorted_append)
        show "sorted (drop (k - 1) (take n ?v))" unfolding upd using sd le by (simp add: jl)
        show "\<forall>x\<in>set (take i ?v) \<union> set (take (j - 1) add). \<forall>y\<in>set (drop (k - 1) (take n ?v)). x \<le> y"
          unfolding upd keep [OF ki] using top le by (auto simp: jl)
      qed (use k kn nv ja True in simp_all)
      then show ?thesis
        using True c unfolding upd keep [OF ki]
        by (auto simp: merge_loop.simps [of v add i j k] jl)
    qed
  qed
qed


lemma ps_wf_D:
  assumes "ps_wf ps"
  shows "ps_n ps \<le> length (ps_v ps)" "strictly_sorted (ps_members ps)" "sorted (take (ps_n ps) (ps_v ps))"
proof -
  show "ps_n ps \<le> length (ps_v ps)" "strictly_sorted (ps_members ps)"
    using assms by (simp_all add: ps_wf_def)
  then show "sorted (take (ps_n ps) (ps_v ps))"
    by (metis ps_members_def sorted_wrt_mono_rel less_imp_le)
qed

text \<open>Merging gives the sorted, duplicate-free array of the union, whatever the array had to grow to.\<close>

lemma phys_set_merge_spec:
  assumes "ps_wf ps" and "strictly_sorted (take n_add add)" and "n_add \<le> length add"
  shows "ps_wf (phys_set_merge ps add n_add) \<and>
    set (ps_members (phys_set_merge ps add n_add)) = set (ps_members ps) \<union> set (take n_add add)"
proof (cases "n_add = 0")
  case True
  with assms show ?thesis by (simp add: phys_set_merge_def)
next
  case False
  define need where "need = ps_n ps + n_add"
  define cap where "cap = (if ps_cap ps < need
     then grow_cap (if ps_cap ps \<noteq> 0 then ps_cap ps else 16) need else ps_cap ps)"
  define v where "v = take cap (ps_v ps @ replicate (cap - length (ps_v ps)) 0)"
  define m where "m = merge_loop v add (ps_n ps) n_add need"
  obtain v' w where u: "uniq_loop m 1 1 need = (v', w)" by fastforce
  have len: "length (ps_v ps) = ps_cap ps" "ps_n ps \<le> ps_cap ps" using assms(1) by (auto simp: ps_wf_def)
  have cap: "need \<le> cap" "ps_cap ps \<le> cap"
    using grow_cap_ge [of "if ps_cap ps \<noteq> 0 then ps_cap ps else 16" need] by (auto simp: cap_def)
  have lv: "length v = cap" using len cap by (simp add: v_def)
  have old: "take (ps_n ps) v = ps_members ps"
    using len cap by (simp add: v_def ps_members_def)
  have "length m = length v \<and> sorted (take need m) \<and>
      set (take need m) = set (take (ps_n ps) v) \<union> set (take n_add add) \<union> set (drop need (take need v))"
    unfolding m_def
  proof (rule merge_loop_spec)
    show "need = ps_n ps + n_add" by (simp add: need_def)
    show "sorted (take (ps_n ps) v)" using ps_wf_D(3) [OF assms(1)] old by (simp only: ps_members_def)
    show "sorted (take n_add add)" using assms(2) by (rule sorted_wrt_mono_rel [rotated]) simp
  qed (use cap lv assms(3) in simp_all)
  then have m: "length m = length v" "sorted (take need m)"
    "set (take need m) = set (ps_members ps) \<union> set (take n_add add)"
    by (simp_all add: old)
  have "0 < need" using False by (simp add: need_def)
  note r = uniq_loop_sorted [OF this _ m(2) u]
  have "phys_set_merge ps add n_add = \<lparr>ps_v = v', ps_n = w, ps_cap = cap\<rparr>"
    using False u unfolding phys_set_merge_def Let_def need_def [symmetric] cap_def [symmetric]
      v_def [symmetric] m_def [symmetric] by simp
  then show ?thesis
    using r m lv cap by (simp add: ps_wf_def ps_members_def)
qed

subsection \<open>Maps the kernel gives: sorted, disjoint, not wrapping\<close>

abbreviation nlo :: "fiemap_extent \<Rightarrow> nat" where "nlo e \<equiv> unat (fe_logical e)"
abbreviation nhi :: "fiemap_extent \<Rightarrow> nat" where "nhi e \<equiv> unat (fe_logical e) + unat (fe_length e)"

definition recs_wf :: "fiemap_extent list \<Rightarrow> bool" where
  "recs_wf es \<longleftrightarrow>
    list_all (\<lambda>e. fe_length e \<noteq> 0 \<and> nhi e < 2 ^ 64) es \<and> sorted_wrt (\<lambda>a b. nhi a \<le> nlo b) es"

definition fm_wf :: "fiemap \<Rightarrow> bool" where
  "fm_wf fm \<longleftrightarrow> fm_mapped_extents fm = length (fm_extents fm) \<and> recs_wf (fm_extents fm)"

lemma fm_wf_len: "fm_wf fm \<Longrightarrow> fm_mapped_extents fm = length (fm_extents fm)"
  by (simp add: fm_wf_def)

lemma fm_wf_nth:
  assumes "fm_wf fm" and "i < fm_mapped_extents fm"
  shows "unat (fe_end (ext_at fm i)) = nhi (ext_at fm i)" "nlo (ext_at fm i) < nhi (ext_at fm i)"
    "nhi (ext_at fm i) < 2 ^ 64"
proof -
  have "fe_length (ext_at fm i) \<noteq> 0" and b: "nhi (ext_at fm i) < 2 ^ 64"
    using assms by (auto simp: fm_wf_def recs_wf_def list_all_length)
  then have "0 < unat (fe_length (ext_at fm i))" using unat_gt_0 by blast
  then show "nlo (ext_at fm i) < nhi (ext_at fm i)" by simp
  show "nhi (ext_at fm i) < 2 ^ 64" by (rule b)
  show "unat (fe_end (ext_at fm i)) = nhi (ext_at fm i)" by (rule unat_add_u64) (rule b)
qed

lemma fm_wf_order:
  assumes "fm_wf fm" and "i < j" and "j < fm_mapped_extents fm"
  shows "nhi (ext_at fm i) \<le> nlo (ext_at fm j)"
  using assms by (auto simp: fm_wf_def recs_wf_def sorted_wrt_iff_nth_less)

lemma fm_wf_end_mono:
  assumes "fm_wf fm" and "i \<le> j" and "j < fm_mapped_extents fm"
  shows "nhi (ext_at fm i) \<le> nhi (ext_at fm j)"
proof (cases "i = j")
  case False
  then have "nhi (ext_at fm i) \<le> nlo (ext_at fm j)" using assms by (intro fm_wf_order) auto
  then show ?thesis by simp
qed simp

subsection \<open>\<open>get_extent\<close>\<close>

lemma get_extent_test:
  assumes "fm_wf fm" "i < fm_mapped_extents fm"
  shows "fe_end (ext_at fm i) - 1 < loff \<longleftrightarrow> nhi (ext_at fm i) \<le> unat loff"
proof -
  note w = fm_wf_nth [OF assms]
  have "1 \<le> fe_end (ext_at fm i)" using w by (simp add: word_le_nat_alt)
  then have "unat (fe_end (ext_at fm i) - 1) = nhi (ext_at fm i) - 1"
    using w by (simp add: unat_sub_u64 del: unat_add_u64)
  then show ?thesis using w by (simp add: word_less_nat_alt) linarith
qed

lemma get_extent_loop_find:
  assumes "fm_wf fm" and "i \<le> fm_mapped_extents fm"
  shows "get_extent_loop fm loff i =
    find (\<lambda>j. unat loff < nhi (ext_at fm j)) [i..<fm_mapped_extents fm]"
  using assms(2)
proof (induction "fm_mapped_extents fm - i" arbitrary: i)
  case 0
  then show ?case by (simp add: get_extent_loop.simps [of fm loff i])
next
  case (Suc n)
  then have i: "i < fm_mapped_extents fm" by simp
  have "n = fm_mapped_extents fm - Suc i" "Suc i \<le> fm_mapped_extents fm" using Suc(2) by auto
  then have IH: "get_extent_loop fm loff (Suc i) =
      find (\<lambda>j. unat loff < nhi (ext_at fm j)) [Suc i..<fm_mapped_extents fm]"
    by (rule Suc(1))
  show ?case using i IH
    by (simp add: get_extent_loop.simps [of fm loff i] get_extent_test [OF assms(1) i]
        upt_conv_Cons [OF i] not_le)
qed

lemma find_skip: "(\<And>j. j < c \<Longrightarrow> \<not> P j) \<Longrightarrow> c \<le> n \<Longrightarrow> find P [0..<n] = find P [c..<n]"
proof (induction c)
  case (Suc c)
  then have "find P [0..<n] = find P [c..<n]" "\<not> P c" by auto
  moreover have "[c..<n] = c # [Suc c..<n]" using Suc(3) by (simp add: upt_conv_Cons)
  ultimately show ?case by simp
qed simp

lemma get_extent_find:
  assumes "fm_wf fm"
  shows "fst (get_extent fm loff index) =
    find (\<lambda>j. unat loff < nhi (ext_at fm j)) [0..<fm_mapped_extents fm]"
proof -
  define start where "start = (case index of None \<Rightarrow> 0
     | Some c \<Rightarrow> if c < fm_mapped_extents fm \<and> (c = 0 \<or> fe_end (ext_at fm (c - 1)) \<le> loff) then c else 0)"
  have le: "start \<le> fm_mapped_extents fm"
    by (auto simp: start_def split: option.split)
  have skip: "\<not> unat loff < nhi (ext_at fm j)" if j: "j < start" for j
  proof -
    from j have s: "start < fm_mapped_extents fm" "fe_end (ext_at fm (start - 1)) \<le> loff"
      by (auto simp: start_def split: option.splits if_splits)
    have "nhi (ext_at fm j) \<le> nhi (ext_at fm (start - 1))"
      using j s(1) by (intro fm_wf_end_mono [OF assms]) auto
    also have "\<dots> = unat (fe_end (ext_at fm (start - 1)))"
      using j s(1) fm_wf_nth(1) [OF assms, of "start - 1"] by simp
    also have "\<dots> \<le> unat loff" using s(2) by (simp add: word_le_nat_alt)
    finally show ?thesis by simp
  qed
  have "fst (get_extent fm loff index) = get_extent_loop fm loff start"
    by (simp add: get_extent_def start_def split: option.split)
  also have "\<dots> = find (\<lambda>j. unat loff < nhi (ext_at fm j)) [start..<fm_mapped_extents fm]"
    by (rule get_extent_loop_find [OF assms le])
  also have "\<dots> = find (\<lambda>j. unat loff < nhi (ext_at fm j)) [0..<fm_mapped_extents fm]"
    by (rule find_skip [symmetric]) (use skip le in auto)
  finally show ?thesis .
qed

text \<open>C31: whatever the resume cursor holds, stale or not, \<open>get_extent\<close> answers what a scan from
  the first record answers: the first record that ends after the offset.\<close>

theorem get_extent_any_cursor:
  assumes "fm_wf fm"
  shows "fst (get_extent fm loff index) =
    find (\<lambda>j. unat loff < nhi (ext_at fm j)) [0..<fm_mapped_extents fm]"
  using assms by (rule get_extent_find)

definition sample_map :: fiemap where
  "sample_map = \<lparr>fm_mapped_extents = 2, fm_extents =
     [\<lparr>fe_logical = 0, fe_physical = 4096, fe_length = 4096, fe_flags = 0\<rparr>,
      \<lparr>fe_logical = 8192, fe_physical = 65536, fe_length = 4096, fe_flags = 1\<rparr>]\<rparr>"

lemma sample_map_wf: "fm_wf sample_map"
  by (simp add: fm_wf_def recs_wf_def sample_map_def)

theorem get_extent_any_cursor_witness:
  "fst (get_extent sample_map 5000 (Some 1)) = Some 1"
  unfolding get_extent_any_cursor [OF sample_map_wf] by (simp add: sample_map_def upt_rec)

subsection \<open>\<open>fiemap_maps_share\<close> answers true only for shared storage\<close>

text \<open>The record that holds byte \<open>x\<close> of a file, if any, and what must agree for a byte to be shared.\<close>

definition rec_at :: "fiemap \<Rightarrow> nat \<Rightarrow> fiemap_extent option" where
  "rec_at fm x = find (\<lambda>e. nlo e \<le> x \<and> x < nhi e) (fm_extents fm)"

definition same_byte :: "fiemap \<Rightarrow> nat \<Rightarrow> fiemap \<Rightarrow> nat \<Rightarrow> bool" where
  "same_byte t x d y =
    (case (rec_at t x, rec_at d y) of
       (None, None) \<Rightarrow> True
     | (Some a, Some b) \<Rightarrow> addressable a \<and> addressable b \<and> fe_physical a = fe_physical b \<and>
         x - nlo a = y - nlo b
     | _ \<Rightarrow> False)"

lemma rec_at_in:
  assumes "fm_wf fm" "i < fm_mapped_extents fm" "nlo (ext_at fm i) \<le> x" "x < nhi (ext_at fm i)"
  shows "rec_at fm x = Some (ext_at fm i)"
proof -
  have "\<not> (nlo (ext_at fm j) \<le> x \<and> x < nhi (ext_at fm j))" if "j < i" for j
    using fm_wf_order [OF assms(1) that assms(2)] assms(3) by auto
  then show ?thesis
    using assms fm_wf_len [OF assms(1)] by (auto simp: rec_at_def find_Some_iff)
qed

lemma rec_at_none:
  assumes "fm_wf fm" and "i < fm_mapped_extents fm \<Longrightarrow> x < nlo (ext_at fm i)"
    and "i = 0 \<or> i - 1 < fm_mapped_extents fm \<and> nhi (ext_at fm (i - 1)) \<le> x"
  shows "rec_at fm x = None"
proof -
  have "\<not> (nlo (ext_at fm j) \<le> x \<and> x < nhi (ext_at fm j))" if j: "j < fm_mapped_extents fm" for j
  proof (cases "j < i")
    case True
    then have "nhi (ext_at fm j) \<le> nhi (ext_at fm (i - 1))"
      using assms(3) by (intro fm_wf_end_mono [OF assms(1)]) auto
    with True assms(3) show ?thesis by auto
  next
    case False
    then have i: "i < fm_mapped_extents fm" using j by simp
    have "nlo (ext_at fm i) \<le> nlo (ext_at fm j)"
    proof (cases "i = j")
      case False
      then have "nhi (ext_at fm i) \<le> nlo (ext_at fm j)"
        using \<open>\<not> j < i\<close> j by (intro fm_wf_order [OF assms(1)]) auto
      then show ?thesis by simp
    qed simp
    with assms(2) i show ?thesis by auto
  qed
  then show ?thesis
    using fm_wf_len [OF assms(1)] by (auto simp: rec_at_def find_None_iff in_set_conv_nth)
qed

text \<open>Both walks stand on record \<open>i\<close>: the ones before it end by \<open>x\<close>, it does not.\<close>

definition stands :: "fiemap \<Rightarrow> nat \<Rightarrow> nat \<Rightarrow> bool" where
  "stands fm i x \<longleftrightarrow> (i = 0 \<or> i - 1 < fm_mapped_extents fm \<and> nhi (ext_at fm (i - 1)) \<le> x) \<and>
    (i < fm_mapped_extents fm \<longrightarrow> x < nhi (ext_at fm i))"

lemma stands_next:
  assumes "fm_wf fm" "i < fm_mapped_extents fm"
  shows "stands fm (i + 1) (nhi (ext_at fm i))"
proof -
  have "nhi (ext_at fm i) < nhi (ext_at fm (i + 1))" if "i + 1 < fm_mapped_extents fm"
    using fm_wf_order [OF assms(1), of i "i + 1"] fm_wf_nth(2) [OF assms(1) that] that by simp
  then show ?thesis using assms(2) by (simp add: stands_def)
qed

lemma gap_at_nat:
  assumes "fm_wf fm" "unat off + unat rest < 2 ^ 64"
  shows "unat (gap_at (ext_opt fm i) off rest) =
    (if i < fm_mapped_extents fm then nlo (ext_at fm i) - unat off else unat rest)"
  by (auto simp: gap_at_def ext_opt_def unat_sub_u64 word_less_nat_alt word_le_nat_alt)

lemma gap_bytes:
  assumes "fm_wf fm" "stands fm i x"
    and "h = (if i < fm_mapped_extents fm then nlo (ext_at fm i) - x else r)" "y < h"
  shows "rec_at fm (x + y) = None"
  using assms(2-4) by (intro rec_at_none [OF assms(1), of i]) (auto simp: stands_def split: if_splits)

lemma stands_gap:
  assumes "fm_wf fm" "stands fm i x" "h = (if i < fm_mapped_extents fm then nlo (ext_at fm i) - x else r)"
  shows "stands fm i (x + h)"
proof (cases "i < fm_mapped_extents fm")
  case True
  then show ?thesis using assms(2,3) fm_wf_nth(2) [OF assms(1) True] by (auto simp: stands_def)
next
  case False
  then show ?thesis using assms(2) by (auto simp: stands_def)
qed

lemma maps_share_loop_sound:
  assumes "fm_wf t" "fm_wf d"
    and "unat toff + unat len < 2 ^ 64" "unat doff + unat len < 2 ^ 64"
    and "maps_share_loop t toff d doff len i pos"
    and "pos < len \<Longrightarrow> stands t i (unat toff + unat pos) \<and> stands d i (unat doff + unat pos)"
    and "unat pos \<le> q" "q < unat len"
  shows "same_byte t (unat toff + q) d (unat doff + q)"
  using assms
proof (induction t toff d doff len i pos rule: maps_share_loop.induct)
  case (1 t toff d doff len i pos)
  define ha where "ha = gap_at (ext_opt t i) (toff + pos) (len - pos)"
  define hb where "hb = gap_at (ext_opt d i) (doff + pos) (len - pos)"
  note wt = 1(3) and wd = 1(4)
  have pl: "pos < len" using 1(9,10) by (simp add: word_less_nat_alt)
  note st = 1(8) [OF pl]
  have pn: "unat pos < unat len" using pl by (simp add: word_less_nat_alt)
  have rest: "unat (len - pos) = unat len - unat pos"
    using pl by (intro unat_sub_u64) simp
  have tp: "unat (toff + pos) = unat toff + unat pos" using 1(5) pn by (intro unat_add_u64) simp
  have dp: "unat (doff + pos) = unat doff + unat pos" using 1(6) pn by (intro unat_add_u64) simp
  have na: "unat ha = (if i < fm_mapped_extents t then nlo (ext_at t i) - (unat toff + unat pos)
      else unat len - unat pos)"
    unfolding ha_def using gap_at_nat [OF wt, of "toff + pos" "len - pos" i] 1(5) pn
    by (simp only: tp rest)
  have nb: "unat hb = (if i < fm_mapped_extents d then nlo (ext_at d i) - (unat doff + unat pos)
      else unat len - unat pos)"
    unfolding hb_def using gap_at_nat [OF wd, of "doff + pos" "len - pos" i] 1(6) pn
    by (simp only: dp rest)
  show ?case
  proof (cases "ha \<noteq> 0 \<or> hb \<noteq> 0")
    case True
    have eq: "ha = hb" and rec: "maps_share_loop t toff d doff len i (pos + ha)"
      using 1(7) True pl
      by (auto simp: maps_share_loop.simps [of t toff d doff len i pos] ha_def hb_def Let_def split: if_splits)
    have sa: "stands t i (unat toff + unat pos + unat ha)"
      by (rule stands_gap [OF wt _ na]) (use st in simp)
    have sb: "stands d i (unat doff + unat pos + unat ha)"
      unfolding eq by (rule stands_gap [OF wd _ nb]) (use st in simp)
    show ?thesis
    proof (cases "q < unat pos + unat ha")
      case hole: True
      then have "rec_at t (unat toff + unat pos + (q - unat pos)) = None"
          "rec_at d (unat doff + unat pos + (q - unat pos)) = None"
        using 1(9) st by (intro gap_bytes [OF wt _ na] gap_bytes [OF wd _ nb]; simp add: eq)+
      then show ?thesis using 1(9) by (simp add: same_byte_def)
    next
      case False
      have "unat pos + unat ha < 2 ^ 64" using False 1(10) unat_u64_lt [of len] by simp
      then have p': "unat (pos + ha) = unat pos + unat ha" by (rule unat_add_u64)
      show ?thesis
        by (rule 1(1) [OF _ refl refl ha_def hb_def True _ wt wd 1(5,6) rec])
           (use pl eq False 1(10) p' sa sb in \<open>simp_all add: add.assoc\<close>)
    qed
  next
    case False
    then have z: "ha = 0" "hb = 0" by auto
    have i: "i < fm_mapped_extents t" "i < fm_mapped_extents d"
      using na nb z pn by (auto split: if_splits)
    define a where "a = ext_at t i"
    define b where "b = ext_at d i"
    have ea: "ext_opt t i = Some a" and eb: "ext_opt d i = Some b"
      using i by (simp_all add: ext_opt_def a_def b_def)
    define pa where "pa = toff + pos - fe_logical a"
    define pb where "pb = doff + pos - fe_logical b"
    define ra where "ra = fe_length a - pa"
    define rb where "rb = fe_length b - pb"
    define pos' where "pos' = pos + (if ra < rb then ra else rb)"
    have flags: "(fe_flags a OR fe_flags b) AND FIEMAP_NO_PHYS = 0" and pab: "pa = pb"
      and ph: "fe_physical a = fe_physical b" and rr: "ra = rb \<or> \<not> pos' < len"
      and rec: "maps_share_loop t toff d doff len (i + 1) pos'"
      using 1(7) z pl unfolding maps_share_loop.simps [of t toff d doff len i pos]
        pos'_def ra_def rb_def pa_def pb_def
      by (simp_all add: ea eb ha_def [unfolded ea] hb_def [unfolded eb]
          Let_def split: if_split_asm)
    have addr: "addressable a" "addressable b"
      using flags by (simp_all add: addressable_def bit.conj_disj_distrib2 or_eq_0_iff word_ao_dist)
    have la: "nlo a \<le> unat toff + unat pos" and lb: "nlo b \<le> unat doff + unat pos"
      using na nb z i by (simp_all add: a_def b_def)
    have ha': "unat toff + unat pos < nhi a" and hb': "unat doff + unat pos < nhi b"
      using st i by (simp_all add: stands_def a_def b_def)
    have npa: "unat pa = unat toff + unat pos - nlo a"
      unfolding pa_def using la tp by (simp add: unat_sub_u64 word_le_nat_alt)
    have npb: "unat pb = unat doff + unat pos - nlo b"
      unfolding pb_def using lb dp by (simp add: unat_sub_u64 word_le_nat_alt)
    have nra: "unat ra = nhi a - (unat toff + unat pos)"
      unfolding ra_def using npa la ha' by (subst unat_sub_u64) (auto simp: word_le_nat_alt)
    have nrb: "unat rb = nhi b - (unat doff + unat pos)"
      unfolding rb_def using npb lb hb' by (subst unat_sub_u64) (auto simp: word_le_nat_alt)
    define step where "step = min (unat ra) (unat rb)"
    have pos'_step: "pos' = pos + of_nat step"
      by (auto simp: pos'_def step_def min_def word_less_nat_alt)
    have off: "unat toff + unat pos - nlo a = unat doff + unat pos - nlo b"
      using pab npa npb by simp
    show ?thesis
    proof (cases "q < unat pos + step")
      case in_rec: True
      have "rec_at t (unat toff + q) = Some a"
        using rec_at_in [OF wt i(1)] in_rec la ha' nra 1(9) by (simp add: a_def step_def)
      moreover have "rec_at d (unat doff + q) = Some b"
        using rec_at_in [OF wd i(2)] in_rec lb hb' nrb 1(9) by (simp add: b_def step_def)
      ultimately show ?thesis
        using addr ph off 1(9) la lb by (simp add: same_byte_def)
    next
      case past: False
      have "step < 2 ^ 64" using past 1(10) unat_u64_lt [of len] by simp
      then have "unat (of_nat step :: u64) = step"
        by (simp add: unat_of_nat)
      moreover have "unat pos + step < 2 ^ 64" using past 1(10) unat_u64_lt [of len] by simp
      ultimately have p': "unat pos' = unat pos + step"
        unfolding pos'_step by (subst unat_add_u64) simp_all
      have "pos' < len" using p' past 1(10) by (simp add: word_less_nat_alt)
      then have rab: "ra = rb" using rr by simp
      have "unat toff + unat pos' = nhi a" "unat doff + unat pos' = nhi b"
        using p' rab nra nrb ha' hb' by (simp_all add: step_def)
      then have "stands t (i + 1) (unat toff + unat pos') \<and> stands d (i + 1) (unat doff + unat pos')"
        using stands_next [OF wt i(1)] stands_next [OF wd i(2)] by (simp add: a_def b_def)
      then show ?thesis
        by (intro 1(2) [OF _ refl refl ha_def hb_def _ _ ea eb _ pa_def pb_def _ ra_def rb_def pos'_def])
           (use pl z flags pab ph rr rec wt wd 1(5,6,10) past p' in simp_all)
    qed
  qed
qed

text \<open>What a range map gives of its range: no record ends before it.\<close>

definition reaches :: "fiemap \<Rightarrow> u64 \<Rightarrow> bool" where
  "reaches fm off \<longleftrightarrow> fm_mapped_extents fm = 0 \<or> unat off < nhi (ext_at fm 0)"


definition sample_dest :: fiemap where
  "sample_dest = \<lparr>fm_mapped_extents = 3, fm_extents =
     [\<lparr>fe_logical = 4096, fe_physical = 4096, fe_length = 4096, fe_flags = 0\<rparr>,
      \<lparr>fe_logical = 12288, fe_physical = 65536, fe_length = 2048, fe_flags = 0\<rparr>,
      \<lparr>fe_logical = 14336, fe_physical = 99, fe_length = 2048, fe_flags = 1\<rparr>]\<rparr>"


subsection \<open>Crediting each stored extent once\<close>

definition clip_bytes :: "fiemap_extent \<Rightarrow> nat \<Rightarrow> nat \<Rightarrow> nat" where
  "clip_bytes e lo hi = min hi (nhi e) - max lo (nlo e)"

lemma clip_word:
  fixes lo hi :: u64
  assumes "nhi e < 2 ^ 64"
  defines "start \<equiv> if lo < fe_logical e then fe_logical e else lo"
    and "fin \<equiv> if hi < fe_end e then hi else fe_end e"
  shows "fin \<le> start \<longleftrightarrow> clip_bytes e (unat lo) (unat hi) = 0"
    and "\<not> fin \<le> start \<Longrightarrow> unat (fin - start) = clip_bytes e (unat lo) (unat hi)"
proof -
  have e: "unat (fe_end e) = nhi e" using assms(1) by (rule unat_add_u64)
  have s: "unat start = max (unat lo) (nlo e)"
    by (auto simp: start_def word_less_nat_alt)
  have f: "unat fin = min (unat hi) (nhi e)"
    using e by (auto simp: fin_def word_less_nat_alt)
  show "fin \<le> start \<longleftrightarrow> clip_bytes e (unat lo) (unat hi) = 0"
    by (simp add: word_le_nat_alt s f clip_bytes_def)
  show "\<not> fin \<le> start \<Longrightarrow> unat (fin - start) = clip_bytes e (unat lo) (unat hi)"
    by (subst unat_sub_u64) (simp_all add: s f clip_bytes_def)
qed

text \<open>What is credited, without the machine arithmetic.\<close>

definition credited :: "fiemap_phys_set \<Rightarrow> fiemap_extent \<Rightarrow> bool" where
  "credited seen e \<longleftrightarrow> \<not> (addressable e \<and> fe_physical e \<in> set (ps_members seen))"

fun credit :: "fiemap_phys_set \<Rightarrow> nat \<Rightarrow> nat \<Rightarrow> fiemap_extent list \<Rightarrow> nat" where
  "credit seen lo hi [] = 0"
| "credit seen lo hi (e # es) =
    (if credited seen e then clip_bytes e lo hi else 0) + credit seen lo hi es"

definition fresh_of :: "fiemap_phys_set \<Rightarrow> nat \<Rightarrow> nat \<Rightarrow> fiemap_extent list \<Rightarrow> fiemap_extent list" where
  "fresh_of seen lo hi es =
    filter (\<lambda>e. clip_bytes e lo hi \<noteq> 0 \<and> credited seen e \<and> addressable e) es"

lemma clip_sum_le:
  assumes "recs_wf es" and "lo \<le> hi"
  shows "credit seen lo hi es \<le> hi - lo"
proof -
  have "\<forall>b. (\<forall>e\<in>set es. b \<le> nlo e) \<longrightarrow> credit seen lo hi es \<le> hi - max lo b"
    using assms(1)
  proof (induction es)
    case (Cons e es)
    have w: "recs_wf es" and n: "\<forall>x\<in>set es. nhi e \<le> nlo x"
      using Cons(2) by (simp_all add: recs_wf_def)
    have r: "credit seen lo hi es \<le> hi - max lo (nhi e)"
      using Cons(1) [OF w] n by blast
    show ?case
    proof (intro allI impI)
      fix b assume "\<forall>x\<in>set (e # es). b \<le> nlo x"
      then have "b \<le> nlo e" by simp
      then have "clip_bytes e lo hi + (hi - max lo (nhi e)) \<le> hi - max lo b"
        by (simp add: clip_bytes_def)
      with r show "credit seen lo hi (e # es) \<le> hi - max lo b" by simp
    qed
  qed simp
  from this [rule_format, of 0] show ?thesis by simp
qed

lemma unshared_loop_spec:
  assumes "list_all (\<lambda>e. nhi e < 2 ^ 64) es"
    and "unat acc + credit seen (unat lo) (unat hi) es < 2 ^ 64"
  shows "unat (fst (unshared_loop es lo hi seen acc fresh)) =
      unat acc + credit seen (unat lo) (unat hi) es \<and>
    snd (unshared_loop es lo hi seen acc fresh) =
      fresh @ map fe_physical (fresh_of seen (unat lo) (unat hi) es)"
  using assms
proof (induction es arbitrary: acc fresh)
  case (Cons e es)
  define start where "start = (if lo < fe_logical e then fe_logical e else lo)"
  define fin where "fin = (if hi < fe_end e then hi else fe_end e)"
  have c: "fin \<le> start \<longleftrightarrow> clip_bytes e (unat lo) (unat hi) = 0"
    "\<not> fin \<le> start \<Longrightarrow> unat (fin - start) = clip_bytes e (unat lo) (unat hi)"
    using clip_word [where e = e and lo = lo and hi = hi] Cons(2) by (simp_all add: start_def fin_def)
  have seen: "ps_n seen \<noteq> 0 \<and> fe_physical e \<in> set (ps_members seen) \<longleftrightarrow> fe_physical e \<in> set (ps_members seen)"
    by (cases "ps_n seen") (auto simp: ps_members_def)
  have st: "unshared_loop (e # es) lo hi seen acc fresh =
    (if fin \<le> start then unshared_loop es lo hi seen acc fresh
     else if \<not> credited seen e then unshared_loop es lo hi seen acc fresh
     else unshared_loop es lo hi seen (acc + (fin - start))
       (if addressable e then fresh @ [fe_physical e] else fresh))"
    unfolding start_def fin_def credited_def by (simp only: unshared_loop.simps Let_def seen not_not)
  show ?case
  proof (cases "fin \<le> start \<or> \<not> credited seen e")
    case True
    then have "unshared_loop (e # es) lo hi seen acc fresh = unshared_loop es lo hi seen acc fresh"
      and "credit seen (unat lo) (unat hi) (e # es) = credit seen (unat lo) (unat hi) es"
      and "fresh_of seen (unat lo) (unat hi) (e # es) = fresh_of seen (unat lo) (unat hi) es"
      using c(1) by (auto simp: st fresh_of_def simp del: unshared_loop.simps)
    then show ?thesis using Cons by (simp del: unshared_loop.simps)
  next
    case False
    then have a: "unat (acc + (fin - start)) = unat acc + clip_bytes e (unat lo) (unat hi)"
      using c Cons(3) by (subst unat_add_u64) simp_all
    have "unshared_loop (e # es) lo hi seen acc fresh = unshared_loop es lo hi seen (acc + (fin - start))
       (if addressable e then fresh @ [fe_physical e] else fresh)"
      using False by (simp add: st del: unshared_loop.simps)
    then show ?thesis
      using Cons(1) [of "acc + (fin - start)" "if addressable e then fresh @ [fe_physical e] else fresh"]
        Cons(2,3) False c(1) a by (simp add: fresh_of_def del: unshared_loop.simps)
  qed
qed (simp add: fresh_of_def)

lemma unshared_loop_seen:
  assumes "\<forall>e\<in>set es. clip_bytes e lo hi \<noteq> 0 \<longrightarrow> \<not> credited seen e"
  shows "credit seen lo hi es = 0"
  using assms by (induction es) auto



lemma fiemap_phys_set_init_wf:
  assumes "fm_wf fm"
  shows "ps_wf (fiemap_phys_set_init (Some fm)) \<and>
    set (ps_members (fiemap_phys_set_init (Some fm))) = fe_physical ` {e \<in> set (fm_extents fm). addressable e}"
proof (cases "fm_mapped_extents fm = 0")
  case True
  with assms show ?thesis by (auto simp: fiemap_phys_set_init_def ps_wf_def ps_members_def fm_wf_def)
next
  case False
  define phys where "phys = map fe_physical (filter addressable (fm_extents fm))"
  have le: "length phys \<le> fm_mapped_extents fm"
    using assms by (simp add: phys_def fm_wf_def)
  define v0 where "v0 = phys @ replicate (fm_mapped_extents fm - length phys) 0"
  obtain v n where sv: "sort_uniq v0 (length phys) = (v, n)" by fastforce
  have "length phys \<le> length v0" by (simp add: v0_def)
  note su = sort_uniq_spec [OF this sv]
  have "fiemap_phys_set_init (Some fm) = \<lparr>ps_v = v, ps_n = n, ps_cap = fm_mapped_extents fm\<rparr>"
    using False sv assms unfolding v0_def phys_def by (simp add: fiemap_phys_set_init_def fm_wf_def Let_def)
  then show ?thesis
    using su le by (auto simp: ps_wf_def ps_members_def v0_def phys_def)
qed

subsection \<open>Layout keys name layouts\<close>

text \<open>What the key is about: size, and of each record everything but the flags that say nothing.\<close>

definition key_flags :: "fiemap_extent \<Rightarrow> u64" where
  "key_flags e = ucast (fe_flags e) AND NOT (ucast (LAYOUT_IGNORE_FLAGS :: u32))"

definition layout_of :: "fiemap_extent \<Rightarrow> u64 \<times> u64 \<times> u64 \<times> u64" where
  "layout_of e = (fe_logical e, fe_physical e, fe_length e, key_flags e)"

definition layout_ok :: "fiemap_extent \<Rightarrow> bool" where
  "layout_ok e \<longleftrightarrow> fe_flags e AND LAYOUT_REJECT_FLAGS = 0"

lemma layout_records_Cons:
  "layout_records (e # es) =
    (if layout_ok e
     then map_option (\<lambda>r. fe_logical e # fe_physical e # fe_length e # key_flags e # r) (layout_records es)
     else None)"
  by (cases "layout_ok e") (simp_all only: layout_records.simps layout_ok_def key_flags_def simp_thms if_True if_False)

declare layout_records.simps(2) [simp del]

lemma layout_records_Some_Cons:
  "layout_records (e # es) = Some r \<longleftrightarrow> layout_ok e \<and>
    (\<exists>r'. layout_records es = Some r' \<and> r = fe_logical e # fe_physical e # fe_length e # key_flags e # r')"
  by (cases "layout_ok e"; cases "layout_records es") (auto simp: layout_records_Cons)

lemma layout_records_eq:
  assumes "layout_records es = Some r" "layout_records fs = Some r"
  shows "map layout_of es = map layout_of fs"
  using assms
proof (induction es arbitrary: fs r)
  case Nil
  then show ?case by (cases fs) (simp_all add: layout_records_Some_Cons)
next
  case (Cons e es)
  from Cons(2,3) obtain f fs' where fs: "fs = f # fs'"
    by (cases fs) (auto simp: layout_records_Some_Cons)
  from Cons(2,3) obtain r' where "layout_records es = Some r'" "layout_records fs' = Some r'"
    and "layout_of e = layout_of f"
    unfolding fs layout_records_Some_Cons layout_of_def by auto
  moreover from this(1,2) have "map layout_of es = map layout_of fs'" by (rule Cons(1))
  ultimately show ?case by (simp add: fs)
qed

lemma layout_records_some: "layout_records es = Some r \<Longrightarrow> list_all layout_ok es"
  by (induction es arbitrary: r) (auto simp: layout_records_Some_Cons)



subsection \<open>A map that vouches for its tail\<close>

text \<open>
  A kernel over a file that does not change and holds the records \<open>recs\<close>, as
  Documentation/filesystems/fiemap.rst has it: with slots it copies the records that overlap the
  request, up to the slots; without, it reports a number, here any that is positive exactly when
  there is something to report (btrfs counts low). Only the last record of the file is flagged last.
\<close>

definition overlaps :: "fiemap_request \<Rightarrow> fiemap_extent \<Rightarrow> bool" where
  "overlaps r e \<longleftrightarrow> nlo e < unat (fm_start r) + unat (fm_length r) \<and> unat (fm_start r) < nhi e"

definition static_kernel :: "'k fiemap_ioctl \<Rightarrow> fiemap_extent list \<Rightarrow> bool" where
  "static_kernel ioctl recs \<longleftrightarrow>
    (\<forall>k r. \<exists>fm k'. ioctl k r = (Inr fm, k') \<and>
       (if fm_extent_count r = 0
        then fm_extents fm = [] \<and> (0 < fm_mapped_extents fm \<longleftrightarrow> filter (overlaps r) recs \<noteq> [])
        else fm_extents fm = take (fm_extent_count r) (filter (overlaps r) recs) \<and>
             fm_mapped_extents fm = length (fm_extents fm))) \<and>
    (\<forall>i<length recs. fe_flags (recs ! i) AND FIEMAP_EXTENT_LAST \<noteq> 0 \<longrightarrow> i = length recs - 1)"

lemma static_kernelD:
  assumes "static_kernel ioctl recs"
  shows "\<exists>fm k'. ioctl k r = (Inr fm, k') \<and>
    (if fm_extent_count r = 0
     then fm_extents fm = [] \<and> (0 < fm_mapped_extents fm \<longleftrightarrow> filter (overlaps r) recs \<noteq> [])
     else fm_extents fm = take (fm_extent_count r) (filter (overlaps r) recs) \<and>
          fm_mapped_extents fm = length (fm_extents fm))"
  using assms by (simp add: static_kernel_def)

definition recs_ok :: "fiemap_extent list \<Rightarrow> bool" where
  "recs_ok recs \<longleftrightarrow> recs_wf recs \<and> list_all (\<lambda>e. nhi e < 2 ^ 64 - 1) recs"

lemma recs_ok_whole:
  assumes "recs_ok recs"
  shows "filter (overlaps \<lparr>fm_start = 0, fm_length = u64_max, fm_flags = fl, fm_extent_count = c\<rparr>) recs = recs"
proof -
  have "overlaps \<lparr>fm_start = 0, fm_length = u64_max, fm_flags = fl, fm_extent_count = c\<rparr> e"
    if "e \<in> set recs" for e
  proof -
    have "nhi e < 2 ^ 64 - 1" "fe_length e \<noteq> 0"
      using that assms by (auto simp: recs_ok_def recs_wf_def list_all_iff)
    then show ?thesis using unat_gt_0 [of "fe_length e"] by (simp add: overlaps_def)
  qed
  then show ?thesis by (simp add: filter_id_conv)
qed

text \<open>After a full buffer, the remainder has records exactly when the buffer cut some off.\<close>

lemma truncated_iff:
  assumes "static_kernel ioctl recs" "recs_ok recs" "0 < cnt"
    and "fm_extents fm = take cnt recs" "fm_mapped_extents fm = length (fm_extents fm)"
  shows "fst (fiemap_map_truncated ioctl k fm cnt 0 u64_max) \<longleftrightarrow> cnt < length recs"
proof (cases "cnt \<le> length recs")
  case False
  then have "fiemap_map_complete fm cnt 0 u64_max"
    using assms(4,5) by (simp add: fiemap_map_complete_def)
  with False show ?thesis by (simp add: fiemap_map_truncated_def)
next
  case True
  have m: "fm_mapped_extents fm = cnt" using True assms(4,5) by simp
  define l where "l = ext_at fm (cnt - 1)"
  have l: "l = recs ! (cnt - 1)" "cnt - 1 < length recs" using True assms(3,4) by (simp_all add: l_def)
  have lw: "nhi l < 2 ^ 64 - 1" "unat (fe_end l) = nhi l"
    using l assms(2) by (auto simp: recs_ok_def recs_wf_def list_all_length intro!: unat_add_u64)
  have lt: "fe_end l < u64_max" using lw by (simp add: word_less_nat_alt)
  have cm: "fiemap_map_complete fm cnt 0 u64_max \<longleftrightarrow> fe_flags l AND FIEMAP_EXTENT_LAST \<noteq> 0"
    using m assms(3) lt by (auto simp: fiemap_map_complete_def range_end_def l_def not_le)
  show ?thesis
  proof (cases "fe_flags l AND FIEMAP_EXTENT_LAST \<noteq> 0")
    case last: True
    then have "cnt - 1 = length recs - 1"
      using assms(1) l by (simp add: static_kernel_def)
    then have "cnt = length recs" using True assms(3) l(2) by simp
    with last cm show ?thesis by (simp add: fiemap_map_truncated_def)
  next
    case False
    define r where "r = \<lparr>fm_start = fe_end l, fm_length = u64_max - fe_end l, fm_flags = 0, fm_extent_count = 0\<rparr>"
    have sum: "unat (fe_end l) + unat (u64_max - fe_end l) = 2 ^ 64 - 1"
      using lt lw by (simp add: unat_sub_u64)
    have "fst (fiemap_map_truncated ioctl k fm cnt 0 u64_max) \<longleftrightarrow>
        0 < fst (fiemap_count_extents ioctl k (fe_end l) (u64_max - fe_end l))"
      using False cm m by (simp add: fiemap_map_truncated_def range_end_def l_def Let_def split: prod.split)
    also have "\<dots> \<longleftrightarrow> filter (overlaps r) recs \<noteq> []"
    proof -
      obtain fm' k' where "ioctl k r = (Inr fm', k')"
          "0 < fm_mapped_extents fm' \<longleftrightarrow> filter (overlaps r) recs \<noteq> []"
        using static_kernelD [OF assms(1), of k r] by (auto simp: r_def)
      then show ?thesis
        by (simp add: fiemap_count_extents_def count_extents_def r_def [symmetric])
    qed
    also have "\<dots> \<longleftrightarrow> (\<exists>i<length recs. overlaps r (recs ! i))"
      by (simp add: filter_empty_conv Bex_def in_set_conv_nth) blast
    also have "\<dots> \<longleftrightarrow> cnt < length recs"
    proof
      assume "\<exists>i<length recs. overlaps r (recs ! i)"
      then obtain i where i: "i < length recs" "nhi l < nhi (recs ! i)"
        using lw by (auto simp: overlaps_def r_def)
      have "\<not> i \<le> cnt - 1"
      proof
        assume "i \<le> cnt - 1"
        then have "i = cnt - 1 \<or> nhi (recs ! i) \<le> nlo l"
          using l assms(2) by (auto simp: recs_ok_def recs_wf_def sorted_wrt_iff_nth_less le_less)
        then show False using i(2) l by auto
      qed
      then show "cnt < length recs" using i by simp
    next
      assume c: "cnt < length recs"
      have "nhi l \<le> nlo (recs ! cnt)"
        using c l assms(2,3) by (auto simp: recs_ok_def recs_wf_def sorted_wrt_iff_nth_less)
      moreover have "nhi (recs ! cnt) < 2 ^ 64 - 1" "fe_length (recs ! cnt) \<noteq> 0"
        using c assms(2) by (auto simp: recs_ok_def recs_wf_def list_all_length)
      moreover have "0 < unat (fe_length (recs ! cnt))"
        using calculation(3) unat_gt_0 by blast
      ultimately show "\<exists>i<length recs. overlaps r (recs ! i)"
        using c lw sum by (intro exI [of _ cnt]) (simp add: overlaps_def r_def)
    qed
    finally show ?thesis .
  qed
qed

lemma fiemap_map_loop_static:
  assumes "static_kernel ioctl recs" "recs_ok recs"
  shows "0 < c \<Longrightarrow> 2 ^ tries * c < 2 ^ 32 \<Longrightarrow>
    fst (fiemap_map_loop (Suc tries) ioctl False k 0 u64_max c) =
      (if length recs \<le> 2 ^ tries * c
       then Inr \<lparr>fm_mapped_extents = length recs, fm_extents = recs\<rparr> else Inl EAGAIN)"
proof (induction tries arbitrary: c k)
  case (0 c k)
  define r where "r = \<lparr>fm_start = 0, fm_length = u64_max, fm_flags = 0, fm_extent_count = c\<rparr>"
  from static_kernelD [OF assms(1), of k r] obtain fm k' where
    fm: "ioctl k r = (Inr fm, k')" "fm_extents fm = take c recs" "fm_mapped_extents fm = length (fm_extents fm)"
    using 0(1) by (auto simp: r_def recs_ok_whole [OF assms(2)])
  note t = truncated_iff [OF assms 0(1) fm(2,3), of k']
  have "fm = \<lparr>fm_mapped_extents = length recs, fm_extents = recs\<rparr>" if "length recs \<le> c"
    using that fm by (cases fm) simp
  then show ?case
    using fm(1) t by (auto simp: r_def Let_def split: prod.split)
next
  case (Suc tries c k)
  define r where "r = \<lparr>fm_start = 0, fm_length = u64_max, fm_flags = 0, fm_extent_count = c\<rparr>"
  from static_kernelD [OF assms(1), of k r] obtain fm k' where
    fm: "ioctl k r = (Inr fm, k')" "fm_extents fm = take c recs" "fm_mapped_extents fm = length (fm_extents fm)"
    using Suc(2) by (auto simp: r_def recs_ok_whole [OF assms(2)])
  obtain tr k2 where tr: "fiemap_map_truncated ioctl k' fm c 0 u64_max = (tr, k2)" by fastforce
  then have t: "tr \<longleftrightarrow> c < length recs"
    using truncated_iff [OF assms Suc(2) fm(2,3), of k'] by simp
  show ?case
  proof (cases "length recs \<le> c")
    case True
    then have "fm = \<lparr>fm_mapped_extents = length recs, fm_extents = recs\<rparr>"
      using fm by (cases fm) simp
    moreover have "length recs \<le> 2 ^ Suc tries * c"
      using True order_trans [OF True, of "2 ^ Suc tries * c"] by simp
    ultimately show ?thesis using fm(1) tr t True
      by (subst fiemap_map_loop.simps) (simp add: r_def del: fiemap_map_loop.simps)
  next
    case False
    then have m: "fm_mapped_extents fm = c" using fm by simp
    have "1 * c \<le> 2 ^ tries * c" by (rule mult_le_mono1) simp
    then have "2 * c < 2 ^ 32" using Suc(3) unfolding power_Suc by linarith
    then have c2: "2 * c mod 2 ^ 32 = 2 * c" by (rule mod_less)
    have "fst (fiemap_map_loop (Suc tries) ioctl False k2 0 u64_max (2 * c)) =
      (if length recs \<le> 2 ^ tries * (2 * c)
       then Inr \<lparr>fm_mapped_extents = length recs, fm_extents = recs\<rparr> else Inl EAGAIN)"
      using Suc(2,3) by (intro Suc(1)) (simp_all add: mult.assoc mult.left_commute)
    moreover have "2 ^ tries * (2 * c) = 2 ^ Suc tries * c" by simp
    moreover have "fiemap_map_loop (Suc (Suc tries)) ioctl False k 0 u64_max c =
        fiemap_map_loop (Suc tries) ioctl False k2 0 u64_max (2 * c)"
      using fm(1) tr t False c2 m
      by (subst fiemap_map_loop.simps) (simp add: r_def del: fiemap_map_loop.simps)
    ultimately show ?thesis by (simp only:)
  qed
qed

text \<open>C29: over a file that does not change, \<open>do_fiemap\<close> never gives a map with its tail missing: it
  gives all the records of the file when there are at most eight times as many as the kernel
  counted, and EAGAIN otherwise.\<close>

theorem do_fiemap_whole:
  assumes "static_kernel ioctl recs" "recs_ok recs"
    and "fst (count_extents ioctl k 0 u64_max FIEMAP_FLAG_SYNC) = n" "8 * n < 2 ^ 32"
  shows "fst (do_fiemap ioctl False k) =
    (if length recs \<le> 8 * n then Inr \<lparr>fm_mapped_extents = length recs, fm_extents = recs\<rparr>
     else Inl EAGAIN)"
proof -
  define k' where "k' = snd (count_extents ioctl k 0 u64_max FIEMAP_FLAG_SYNC)"
  have ce: "count_extents ioctl k 0 u64_max FIEMAP_FLAG_SYNC = (n, k')"
    using assms(3) by (cases "count_extents ioctl k 0 u64_max FIEMAP_FLAG_SYNC") (simp add: k'_def)
  have n: "n = 0 \<longleftrightarrow> recs = []"
    using static_kernelD [OF assms(1), of k "\<lparr>fm_start = 0, fm_length = u64_max,
      fm_flags = FIEMAP_FLAG_SYNC, fm_extent_count = 0\<rparr>"] assms(3)
    by (auto simp: count_extents_def recs_ok_whole [OF assms(2)] simp del: One_nat_def)
  have d: "do_fiemap ioctl False k = fiemap_map_loop (Suc 3) ioctl False k' 0 u64_max n"
    by (simp add: do_fiemap_def ce fiemap_map_def numeral_eq_Suc del: fiemap_map_loop.simps)
  show ?thesis
  proof (cases "n = 0")
    case False
    then show ?thesis
      unfolding d using fiemap_map_loop_static [OF assms(1,2), of n 3 k'] assms(4) by simp
  next
    case True
    then have recs: "recs = []" using n by simp
    define r where "r = \<lparr>fm_start = 0, fm_length = u64_max, fm_flags = 0, fm_extent_count = 0\<rparr>"
    from static_kernelD [OF assms(1), of k' r] obtain fm k1 where
      "ioctl k' r = (Inr fm, k1)" "fm_mapped_extents fm = 0" "fm_extents fm = []"
      by (auto simp: r_def recs)
    moreover have "fm = \<lparr>fm_mapped_extents = 0, fm_extents = []\<rparr>"
      using calculation by (cases fm) simp
    ultimately show ?thesis
      unfolding d True recs
      by (subst fiemap_map_loop.simps)
        (simp add: r_def fiemap_map_truncated_def fiemap_map_complete_def del: fiemap_map_loop.simps)
  qed
qed

text \<open>A file of two records, and a kernel that counts them as one, as btrfs may.\<close>

definition low_count_kernel :: "fiemap_extent list \<Rightarrow> unit fiemap_ioctl" where
  "low_count_kernel recs k r =
    (let hit = filter (overlaps r) recs
     in if fm_extent_count r = 0
        then (Inr \<lparr>fm_mapped_extents = (if hit = [] then 0 else 1), fm_extents = []\<rparr>, k)
        else (Inr \<lparr>fm_mapped_extents = min (fm_extent_count r) (length hit),
                  fm_extents = take (fm_extent_count r) hit\<rparr>, k))"

theorem do_fiemap_whole_witness:
  "fst (do_fiemap (low_count_kernel (fm_extents sample_map)) False ()) = Inr sample_map"
proof -
  have a: "static_kernel (low_count_kernel (fm_extents sample_map)) (fm_extents sample_map)"
    by (auto simp: static_kernel_def low_count_kernel_def Let_def sample_map_def less_Suc_eq nth_Cons')
  have b: "recs_ok (fm_extents sample_map)"
    using sample_map_wf by (simp add: recs_ok_def fm_wf_def) (simp add: sample_map_def)
  have c: "fst (count_extents (low_count_kernel (fm_extents sample_map)) () 0 u64_max FIEMAP_FLAG_SYNC) = 1"
    by (simp add: count_extents_def low_count_kernel_def Let_def overlaps_def sample_map_def)
  show ?thesis
    using do_fiemap_whole [OF a b c] by (simp add: sample_map_def)
qed

end
