(* ===== verification/Dedupe.thy ===== *)
theory Dedupe
  imports Base
begin

text \<open>
  \<open>src/dedupe.c\<close>: batches of FIDEDUPERANGE requests. A context holds three lists of requests,
  those queued, those in the round being issued and those with a result; a file is a number that
  also stands for its descriptor. Lengths and offsets are 64-bit words. The kernel is a parameter:
  \<open>ioctl\<close> takes the range structure and gives an errno or the structure with each destination's
  status and bytes filled in. The file system's block size \<open>bs\<close> (\<open>cached_blocksize\<close>, one answer per
  process) and the source's \<open>fstat\<close> are parameters too. Reading the ranges into the page cache
  (\<open>prefetch_dedupe_round\<close>) changes nothing the program sees and is left out. The loop of
  \<open>dedupe_extents\<close> carries fuel; \<open>dedupe_extents_returns\<close> gives an amount that suffices.
\<close>

datatype 'a outcome = Ok 'a | Abort | NoFuel

record dedupe_req =
  req_file :: nat
  req_loff :: u64
  req_total :: u64
  req_unshared :: u64
  req_status :: int
  req_idx :: nat

record dedupe_info =
  dest_fd :: nat
  dest_offset :: u64
  bytes_deduped :: u64
  info_status :: int

record dedupe_range =
  src_offset :: u64
  src_length :: u64
  infos :: "dedupe_info list"

record dedupe_ctxt =
  orig_len :: u64
  orig_file_off :: u64
  ctx_len :: u64
  ioctl_file :: nat
  ioctl_file_off :: u64
  max_queable :: u32
  num_queued :: u32
  aligned :: bool
  queued :: "dedupe_req list"
  in_progress :: "dedupe_req list"
  completed :: "dedupe_req list"
  progress :: "u64 list"

text \<open>\<open>progress\<close> is what the progress callback has been given. \<open>dest_count\<close> is \<open>length infos\<close>.\<close>

type_synonym 'k dedupe_ioctl = "'k \<Rightarrow> dedupe_range \<Rightarrow> (int + dedupe_range) \<times> 'k"

subsection \<open>Block size and lengths\<close>

definition get_fs_blocksize :: "(int + u32) \<Rightarrow> u32" where
  "get_fs_blocksize statfs = (case statfs of Inl _ \<Rightarrow> 4096 | Inr f_bsize \<Rightarrow> f_bsize)"

text \<open>The cache, 0 when nothing was asked yet; the second result is its new content.\<close>

definition cached_blocksize :: "(int + u32) \<Rightarrow> u32 \<Rightarrow> u32 \<times> u32" where
  "cached_blocksize statfs cached =
    (if cached = 0 then let bs = get_fs_blocksize statfs in (bs, bs) else (cached, cached))"

definition dedupe_shareable_len :: "u32 \<Rightarrow> u64 \<Rightarrow> u64" where
  "dedupe_shareable_len bs len = (if len < ucast bs then len else len AND NOT (ucast bs - 1))"

subsection \<open>Contexts and requests\<close>

abbreviation MAX_DEDUPES_PER_IOCTL :: u32 where "MAX_DEDUPES_PER_IOCTL \<equiv> 120"
abbreviation DEDUPE_ROUND_LEN :: u64 where "DEDUPE_ROUND_LEN \<equiv> 0x2000000"

definition new_dedupe_req :: "nat \<Rightarrow> u64 \<Rightarrow> u64 \<Rightarrow> dedupe_req" where
  "new_dedupe_req file loff unshared =
    \<lparr>req_file = file, req_loff = loff, req_total = 0, req_unshared = unshared, req_status = 0, req_idx = 0\<rparr>"

definition new_dedupe_ctxt :: "u32 \<Rightarrow> u64 \<Rightarrow> u64 \<Rightarrow> nat \<Rightarrow> dedupe_ctxt" where
  "new_dedupe_ctxt max_extents loff elen file =
    (let max_extents = (if MAX_DEDUPES_PER_IOCTL < max_extents then MAX_DEDUPES_PER_IOCTL else max_extents)
     in \<lparr>orig_len = elen, orig_file_off = loff, ctx_len = elen, ioctl_file = file, ioctl_file_off = loff,
         max_queable = max_extents - 1, num_queued = 0, aligned = False,
         queued = [], in_progress = [], completed = [], progress = []\<rparr>)"

definition add_extent_to_dedupe ::
  "dedupe_ctxt \<Rightarrow> u64 \<Rightarrow> nat \<Rightarrow> u64 \<Rightarrow> (int \<times> dedupe_ctxt) outcome" where
  "add_extent_to_dedupe c loff file unshared =
    (if max_queable c \<le> num_queued c then Abort
     else let c' = c\<lparr>queued := queued c @ [new_dedupe_req file loff unshared],
                     num_queued := num_queued c + 1\<rparr>
          in Ok (sint (max_queable c' - num_queued c'), c'))"

definition add_dedupe_request ::
  "dedupe_ctxt \<Rightarrow> dedupe_range \<Rightarrow> dedupe_req \<Rightarrow> (dedupe_range \<times> dedupe_req) outcome" where
  "add_dedupe_request c same req =
    (if max_queable c \<le> of_nat (length (infos same)) then Abort
     else Ok (same\<lparr>infos := infos same @ [\<lparr>dest_fd = req_file req, dest_offset = req_loff req,
                bytes_deduped = 0, info_status = 0\<rparr>]\<rparr>,
              req\<lparr>req_idx := length (infos same)\<rparr>))"

definition set_aligned_same_length :: "u32 \<Rightarrow> dedupe_ctxt \<Rightarrow> dedupe_range \<Rightarrow> dedupe_range" where
  "set_aligned_same_length bs c same =
    (let len = (if DEDUPE_ROUND_LEN < ctx_len c then DEDUPE_ROUND_LEN else ctx_len c)
     in same\<lparr>src_length := (if aligned c then dedupe_shareable_len bs len else len)\<rparr>)"

fun populate_loop ::
  "dedupe_ctxt \<Rightarrow> dedupe_range \<Rightarrow> dedupe_req list \<Rightarrow> (dedupe_ctxt \<times> dedupe_range) outcome" where
  "populate_loop c same [] = Ok (c, same)"
| "populate_loop c same (req # rest) =
    (case add_dedupe_request c same req of
       Ok (same', req') \<Rightarrow>
         populate_loop (c\<lparr>queued := rest, in_progress := in_progress c @ [req'],
                          num_queued := num_queued c - 1\<rparr>) same' rest
     | Abort \<Rightarrow> Abort | NoFuel \<Rightarrow> NoFuel)"

definition populate_dedupe_request ::
  "u32 \<Rightarrow> dedupe_ctxt \<Rightarrow> (dedupe_ctxt \<times> dedupe_range) outcome" where
  "populate_dedupe_request bs c =
    (let same = (set_aligned_same_length bs c \<lparr>src_offset = 0, src_length = 0, infos = []\<rparr>)
                  \<lparr>src_offset := ioctl_file_off c\<rparr>
     in populate_loop c same (queued c))"

text \<open>The walk of the requests in flight; its last result is \<open>max_deduped\<close>.\<close>

fun process_loop :: "dedupe_ctxt \<Rightarrow> dedupe_range \<Rightarrow> u64 \<Rightarrow> dedupe_req list \<Rightarrow> dedupe_ctxt \<times> u64" where
  "process_loop c same mx [] = (c, mx)"
| "process_loop c same mx (req # rest) =
    (let info = infos same ! req_idx req;
         mx = (if mx < bytes_deduped info then bytes_deduped info else mx);
         req = req\<lparr>req_loff := req_loff req + bytes_deduped info,
                   req_total := req_total req + bytes_deduped info\<rparr>
     in if info_status info \<noteq> 0 \<or> orig_len c \<le> req_total req
        then process_loop (c\<lparr>in_progress := rest,
               completed := completed c @ [req\<lparr>req_status := info_status info\<rparr>]\<rparr>) same mx rest
        else process_loop (c\<lparr>in_progress := rest, queued := queued c @ [req],
               num_queued := num_queued c + 1\<rparr>) same mx rest)"

definition process_dedupes :: "u32 \<Rightarrow> dedupe_ctxt \<Rightarrow> dedupe_range \<Rightarrow> dedupe_ctxt" where
  "process_dedupes bs c same =
    (let (c, mx) = process_loop c same 0 (in_progress c);
         c = c\<lparr>ctx_len := ctx_len c - mx, ioctl_file_off := ioctl_file_off c + mx\<rparr>
     in if aligned c \<and> ctx_len c < ucast bs
        then c\<lparr>completed := completed c @ queued c, queued := []\<rparr> else c)"

text \<open>\<open>st_size\<close> is \<open>fstat\<close>'s answer for the source file, \<open>None\<close> when the call fails.\<close>

definition clamp_len_to_ioctl_file :: "u64 option \<Rightarrow> dedupe_ctxt \<Rightarrow> dedupe_ctxt" where
  "clamp_len_to_ioctl_file st_size c =
    (case st_size of
       None \<Rightarrow> c
     | Some src_size \<Rightarrow>
         if ioctl_file_off c + ctx_len c \<le> src_size then c
         else if src_size \<le> ioctl_file_off c
         then c\<lparr>completed := completed c @ queued c, queued := [], num_queued := 0\<rparr>
         else c\<lparr>ctx_len := src_size - ioctl_file_off c, orig_len := src_size - ioctl_file_off c\<rparr>)"

definition fail_in_flight :: "dedupe_ctxt \<Rightarrow> int \<Rightarrow> dedupe_ctxt" where
  "fail_in_flight c err =
    c\<lparr>completed := completed c @ map (\<lambda>r. r\<lparr>req_status := - err\<rparr>) (in_progress c)
                               @ map (\<lambda>r. r\<lparr>req_status := - err\<rparr>) (queued c),
      in_progress := [], queued := []\<rparr>"

text \<open>One round's ioctl, with its single retry at whole blocks.\<close>

definition dedupe_ioctl_retry ::
  "u32 \<Rightarrow> 'k dedupe_ioctl \<Rightarrow> 'k \<Rightarrow> dedupe_ctxt \<Rightarrow> dedupe_range \<Rightarrow>
     (int + dedupe_range) \<times> dedupe_ctxt \<times> 'k" where
  "dedupe_ioctl_retry bs ioctl k c same =
    (case ioctl k same of
       (Inl err, k') \<Rightarrow> (Inl err, c, k')
     | (Inr same', k') \<Rightarrow>
         if info_status (infos same' ! 0) = - EINVAL \<and> \<not> aligned c
         then let asked = src_length same';
                  c' = c\<lparr>aligned := True\<rparr>;
                  same2 = set_aligned_same_length bs c' same'
              in if src_length same2 \<noteq> asked
                 then (case ioctl k' same2 of (r, k'') \<Rightarrow> (r, c', k''))
                 else (Inr same2, c', k')
         else (Inr same', c, k'))"

definition round_bytes :: "dedupe_range \<Rightarrow> u64" where
  "round_bytes same = sum_list (map bytes_deduped (infos same))"

fun dedupe_loop ::
  "nat \<Rightarrow> u32 \<Rightarrow> 'k dedupe_ioctl \<Rightarrow> 'k \<Rightarrow> dedupe_ctxt \<Rightarrow> (int \<times> dedupe_ctxt \<times> 'k) outcome" where
  "dedupe_loop 0 bs ioctl k c = NoFuel"
| "dedupe_loop (Suc fuel) bs ioctl k c =
    (if queued c = [] then Ok (0, c, k)
     else case populate_dedupe_request bs c of
            Abort \<Rightarrow> Abort | NoFuel \<Rightarrow> NoFuel
          | Ok (c1, same) \<Rightarrow>
              (case dedupe_ioctl_retry bs ioctl k c1 same of
                 (Inl err, c2, k2) \<Rightarrow> Ok (- 1, fail_in_flight c2 err, k2)
               | (Inr same2, c2, k2) \<Rightarrow>
                   let round = round_bytes same2;
                       c3 = process_dedupes bs c2 same2;
                       c4 = c3\<lparr>progress := progress c3 @ [round]\<rparr>
                   in if round = 0 \<and> queued c4 \<noteq> []
                      then Ok (0, c4\<lparr>completed := completed c4 @ queued c4, queued := []\<rparr>, k2)
                      else dedupe_loop fuel bs ioctl k2 c4))"

definition dedupe_extents ::
  "nat \<Rightarrow> u32 \<Rightarrow> u64 option \<Rightarrow> 'k dedupe_ioctl \<Rightarrow> 'k \<Rightarrow> dedupe_ctxt \<Rightarrow>
     (int \<times> dedupe_ctxt \<times> 'k) outcome" where
  "dedupe_extents fuel bs st_size ioctl k c =
    dedupe_loop fuel bs ioctl k (clamp_len_to_ioctl_file st_size c)"

text \<open>A result is its status, the bytes freed, the bytes done and the file; with it, whether it was
  the last, and the rest of the context.\<close>

definition pop_one_dedupe_result ::
  "dedupe_ctxt \<Rightarrow> (bool \<times> (int \<times> u64 \<times> u64 \<times> nat) \<times> dedupe_ctxt) outcome" where
  "pop_one_dedupe_result c =
    (case completed c of
       [] \<Rightarrow> Abort
     | req # rest \<Rightarrow>
         Ok (rest = [],
             (req_status req,
              if req_unshared req < req_total req then req_unshared req else req_total req,
              req_total req, req_file req),
             c\<lparr>completed := rest\<rparr>))"

subsection \<open>Probing for support\<close>

datatype dedupe_support = DEDUPE_SUPPORT_NO | DEDUPE_SUPPORT_YES | DEDUPE_SUPPORT_UNKNOWN

definition dedupe_classify_probe :: "int \<Rightarrow> int \<Rightarrow> int \<Rightarrow> dedupe_support" where
  "dedupe_classify_probe rc err status =
    (if rc = 0 then
       (if 0 \<le> status then DEDUPE_SUPPORT_YES
        else if status = - EOPNOTSUPP \<or> status = - ENOTTY then DEDUPE_SUPPORT_NO
        else DEDUPE_SUPPORT_UNKNOWN)
     else if err = EOPNOTSUPP \<or> err = ENOTTY then DEDUPE_SUPPORT_NO
     else DEDUPE_SUPPORT_UNKNOWN)"

abbreviation DEDUPE_PROBE_LEN_MAX :: u64 where "DEDUPE_PROBE_LEN_MAX \<equiv> 65536"

definition dedupe_probe_len :: "u32 \<Rightarrow> u64 \<Rightarrow> u64" where
  "dedupe_probe_len bs sz =
    (let cap = (if DEDUPE_PROBE_LEN_MAX < ucast bs then ucast bs else DEDUPE_PROBE_LEN_MAX);
         len = sz div 2;
         len = (if cap < len then cap else len);
         len = dedupe_shareable_len bs len
     in if len < ucast bs then 0 else len)"

definition dedupe_probe_fd ::
  "u32 \<Rightarrow> 'k dedupe_ioctl \<Rightarrow> 'k \<Rightarrow> nat \<Rightarrow> u64 \<Rightarrow> dedupe_support \<times> 'k" where
  "dedupe_probe_fd bs ioctl k fd sz =
    (let len = dedupe_probe_len bs sz
     in if len = 0 then (DEDUPE_SUPPORT_UNKNOWN, k)
        else case ioctl k \<lparr>src_offset = 0, src_length = len, infos =
               [\<lparr>dest_fd = fd, dest_offset = len, bytes_deduped = 0, info_status = 0\<rparr>]\<rparr> of
               (Inl err, k') \<Rightarrow> (dedupe_classify_probe (- 1) err 0, k')
             | (Inr same, k') \<Rightarrow> (dedupe_classify_probe 0 0 (info_status (infos same ! 0)), k'))"

subsection \<open>Whole blocks\<close>

lemma unat_2_power: "n < 64 \<Longrightarrow> unat (2 ^ n :: u64) = 2 ^ n"
proof -
  assume "n < 64"
  then have "(2 :: nat) ^ n < 2 ^ 64" by (intro power_strict_increasing) simp_all
  moreover have "(2 ^ n :: u64) = of_nat (2 ^ n)" by simp
  ultimately show ?thesis by (simp only: unat_of_nat) (simp del: of_nat_power)
qed

lemma and_not_mask_nat:
  assumes "n < 64"
  shows "unat ((x :: u64) AND NOT (2 ^ n - 1)) = 2 ^ n * (unat x div 2 ^ n)"
proof -
  have m: "(2 ^ n - 1 :: u64) = mask n" by (simp add: mask_eq_decr_exp)
  have "push_bit n (drop_bit n x) = x AND NOT (mask n)"
    by (rule bit_eqI) (auto simp: bit_simps)
  then have s: "x = (x AND NOT (mask n)) + take_bit n x"
    using bits_ident [of n x] by simp
  have "unat (push_bit n (drop_bit n x)) = 2 ^ n * (unat x div 2 ^ n)"
  proof -
    have d: "unat (drop_bit n x) = unat x div 2 ^ n" by (subst unat_drop_bit_eq) (simp add: drop_bit_eq_div)
    have "2 ^ n * (unat x div 2 ^ n) \<le> unat x" by simp
    then have lt: "2 ^ n * (unat x div 2 ^ n) < 2 ^ 64" using unat_u64_lt [of x] by (rule le_less_trans)
    have "unat (push_bit n (drop_bit n x)) = unat (drop_bit n x * 2 ^ n)"
      by (simp only: push_bit_eq_mult)
    also have "\<dots> = (unat x div 2 ^ n) * 2 ^ n mod 2 ^ 64"
      unfolding unat_word_ariths d unat_2_power [OF assms] by simp
    finally show ?thesis using lt by (simp only: mult.commute mod_less)
  qed
  then show ?thesis unfolding m \<open>push_bit n (drop_bit n x) = x AND NOT (mask n)\<close> .
qed

lemma shareable_len_nat:
  assumes "ucast bs = (2 ^ n :: u64)" "n < 64"
  shows "unat (dedupe_shareable_len bs len) =
    (if unat len < 2 ^ n then unat len else 2 ^ n * (unat len div 2 ^ n))"
proof -
  have "unat (2 ^ n :: u64) = 2 ^ n" using assms(2) by (simp add: unat_2_power)
  then show ?thesis
    using and_not_mask_nat [OF assms(2), of len] assms(1)
    by (simp add: dedupe_shareable_len_def word_less_nat_alt)
qed

lemma shareable_len_le: "dedupe_shareable_len bs len \<le> len"
  by (simp add: dedupe_shareable_len_def word_and_le2)

subsection \<open>One round in closed form\<close>

definition numbered :: "nat \<Rightarrow> dedupe_req list \<Rightarrow> dedupe_req list" where
  "numbered n rs = map (\<lambda>(i, r). r\<lparr>req_idx := i\<rparr>) (enumerate n rs)"

definition info_of :: "dedupe_req \<Rightarrow> dedupe_info" where
  "info_of r = \<lparr>dest_fd = req_file r, dest_offset = req_loff r, bytes_deduped = 0, info_status = 0\<rparr>"

lemma numbered_Cons [simp]: "numbered n (r # rs) = r\<lparr>req_idx := n\<rparr> # numbered (Suc n) rs"
  by (simp add: numbered_def)

lemma numbered_Nil [simp]: "numbered n [] = []"
  by (simp add: numbered_def)

lemma length_numbered [simp]: "length (numbered n rs) = length rs"
  by (simp add: numbered_def)

lemma of_nat_less_u32: "n < unat (m :: u32) \<Longrightarrow> of_nat n < m"
  by (simp add: word_less_nat_alt unat_of_nat)

lemma populate_loop_eq:
  assumes "queued c = rs" "length (infos same) + length rs \<le> unat (max_queable c)"
  shows "populate_loop c same rs =
    Ok (c\<lparr>queued := [], in_progress := in_progress c @ numbered (length (infos same)) rs,
          num_queued := num_queued c - of_nat (length rs)\<rparr>,
        same\<lparr>infos := infos same @ map info_of rs\<rparr>)"
  using assms
proof (induction rs arbitrary: c same)
  case (Cons r rs)
  have "of_nat (length (infos same)) < max_queable c"
    using Cons(3) by (intro of_nat_less_u32) simp
  then have a: "add_dedupe_request c same r =
      Ok (same\<lparr>infos := infos same @ [info_of r]\<rparr>, r\<lparr>req_idx := length (infos same)\<rparr>)"
    by (simp add: add_dedupe_request_def info_of_def not_le)
  show ?case using Cons(2,3)
    by (simp add: a Cons(1) diff_diff_add)
qed simp

lemma populate_eq:
  assumes "length (queued c) \<le> unat (max_queable c)"
  shows "populate_dedupe_request bs c =
    Ok (c\<lparr>queued := [], in_progress := in_progress c @ numbered 0 (queued c),
          num_queued := num_queued c - of_nat (length (queued c))\<rparr>,
        \<lparr>src_offset = ioctl_file_off c,
         src_length = src_length (set_aligned_same_length bs c \<lparr>src_offset = 0, src_length = 0, infos = []\<rparr>),
         infos = map info_of (queued c)\<rparr>)"
  using assms
  by (simp add: populate_dedupe_request_def populate_loop_eq set_aligned_same_length_def Let_def)

definition moved :: "dedupe_range \<Rightarrow> dedupe_req \<Rightarrow> dedupe_req" where
  "moved same r = r\<lparr>req_loff := req_loff r + bytes_deduped (infos same ! req_idx r),
                   req_total := req_total r + bytes_deduped (infos same ! req_idx r)\<rparr>"

definition finished :: "u64 \<Rightarrow> dedupe_range \<Rightarrow> dedupe_req \<Rightarrow> bool" where
  "finished orig same r \<longleftrightarrow>
    info_status (infos same ! req_idx r) \<noteq> 0 \<or> orig \<le> req_total (moved same r)"

definition with_status :: "dedupe_range \<Rightarrow> dedupe_req \<Rightarrow> dedupe_req" where
  "with_status same r = (moved same r)\<lparr>req_status := info_status (infos same ! req_idx r)\<rparr>"

definition most_deduped :: "dedupe_range \<Rightarrow> u64 \<Rightarrow> dedupe_req list \<Rightarrow> u64" where
  "most_deduped same mx rs = foldl max mx (map (\<lambda>r. bytes_deduped (infos same ! req_idx r)) rs)"

lemma process_loop_eq:
  assumes "in_progress c = rs"
  shows "process_loop c same mx rs =
    (c\<lparr>in_progress := [],
       completed := completed c @ map (with_status same) (filter (finished (orig_len c) same) rs),
       queued := queued c @ map (moved same) (filter (\<lambda>r. \<not> finished (orig_len c) same r) rs),
       num_queued := num_queued c + of_nat (length (filter (\<lambda>r. \<not> finished (orig_len c) same r) rs))\<rparr>,
     most_deduped same mx rs)"
  using assms
proof (induction rs arbitrary: c mx)
  case Nil
  then show ?case by (cases c) (simp add: most_deduped_def)
next
  case (Cons r rs)
  have mx: "(if mx < bytes_deduped (infos same ! req_idx r) then bytes_deduped (infos same ! req_idx r)
      else mx) = max mx (bytes_deduped (infos same ! req_idx r))"
    by (auto simp: max_def dest: less_imp_le)
  show ?case
    by (simp add: Let_def Cons(1) mx finished_def moved_def with_status_def most_deduped_def add.assoc)
qed

subsection \<open>What the kernel promises\<close>

text \<open>
  FIDEDUPERANGE fills in the statuses and byte counts of the destinations it was given, none of
  them above the length asked for.
\<close>

definition dedupe_kernel :: "'k dedupe_ioctl \<Rightarrow> bool" where
  "dedupe_kernel ioctl \<longleftrightarrow>
    (\<forall>k same same' k'. ioctl k same = (Inr same', k') \<longrightarrow>
       src_length same' = src_length same \<and> length (infos same') = length (infos same) \<and>
       (\<forall>i<length (infos same). bytes_deduped (infos same' ! i) \<le> src_length same))"

lemma dedupe_kernelD:
  assumes "dedupe_kernel ioctl" "ioctl k same = (Inr same', k')"
  shows "src_length same' = src_length same" "length (infos same') = length (infos same)"
    "i < length (infos same) \<Longrightarrow> bytes_deduped (infos same' ! i) \<le> src_length same"
  using assms by (auto simp: dedupe_kernel_def)

lemma set_aligned_le:
  "src_length (set_aligned_same_length bs c same) \<le> ctx_len c"
  "src_length (set_aligned_same_length bs c same) \<le> DEDUPE_ROUND_LEN"
  using shareable_len_le [of bs "ctx_len c"] shareable_len_le [of bs DEDUPE_ROUND_LEN]
  by (auto simp: set_aligned_same_length_def Let_def intro: order_trans)

lemma set_aligned_infos [simp]: "infos (set_aligned_same_length bs c same) = infos same"
  by (simp add: set_aligned_same_length_def Let_def)

lemma retry_spec:
  assumes "dedupe_kernel ioctl" "dedupe_ioctl_retry bs ioctl k c same = (Inr same', c', k')"
    and "src_length same \<le> ctx_len c" "src_length same \<le> DEDUPE_ROUND_LEN"
  shows "(c' = c \<or> c' = c\<lparr>aligned := True\<rparr>) \<and> length (infos same') = length (infos same) \<and>
    (\<forall>i<length (infos same). bytes_deduped (infos same' ! i) \<le> ctx_len c \<and>
       bytes_deduped (infos same' ! i) \<le> DEDUPE_ROUND_LEN)"
proof -
  obtain r k1 where r: "ioctl k same = (r, k1)" by fastforce
  then obtain s1 where s1: "r = Inr s1"
    using assms(2) by (cases r) (auto simp: dedupe_ioctl_retry_def)
  note k1 = dedupe_kernelD [OF assms(1) r [unfolded s1]]
  define s2 where "s2 = set_aligned_same_length bs (c\<lparr>aligned := True\<rparr>) s1"
  have le2: "src_length s2 \<le> ctx_len c" "src_length s2 \<le> DEDUPE_ROUND_LEN"
    using set_aligned_le [of bs "c\<lparr>aligned := True\<rparr>" s1] by (simp_all add: s2_def)
  have first: ?thesis if "infos same' = infos s1" "c' = c \<or> c' = c\<lparr>aligned := True\<rparr>"
    using that k1 assms(3,4) by (auto intro: order_trans)
  show ?thesis
  proof (cases "info_status (infos s1 ! 0) = - EINVAL \<and> \<not> aligned c")
    case False
    then have "same' = s1" "c' = c" using assms(2) r s1 by (auto simp: dedupe_ioctl_retry_def)
    then show ?thesis using first by simp
  next
    case True
    show ?thesis
    proof (cases "src_length s2 = src_length s1")
      case eq: True
      then have "same' = s2" "c' = c\<lparr>aligned := True\<rparr>"
        using assms(2) r s1 True by (auto simp: dedupe_ioctl_retry_def s2_def Let_def)
      then show ?thesis using first by (simp add: s2_def)
    next
      case ne: False
      then have again: "ioctl k1 s2 = (Inr same', k')" "c' = c\<lparr>aligned := True\<rparr>"
        using assms(2) r s1 True
        by (auto simp: dedupe_ioctl_retry_def s2_def Let_def split: prod.splits)
      have "length (infos s2) = length (infos same)" using k1(2) by (simp add: s2_def)
      then show ?thesis using dedupe_kernelD [OF assms(1) again(1)] le2 again(2) by (auto intro: order_trans)
    qed
  qed
qed

subsection \<open>The invariant of the loop\<close>

text \<open>
  Between rounds nothing is in flight, the queue fits the structure, and what a queued request has
  behind it plus what the context has ahead is at most the whole.
\<close>

definition loop_inv :: "dedupe_ctxt \<Rightarrow> bool" where
  "loop_inv c \<longleftrightarrow> in_progress c = [] \<and> length (queued c) \<le> unat (max_queable c) \<and>
    (\<forall>r\<in>set (queued c). unat (req_total r) + unat (ctx_len c) \<le> unat (orig_len c)) \<and>
    (\<forall>r\<in>set (completed c). req_total r \<le> orig_len c)"

definition work_left :: "dedupe_ctxt \<Rightarrow> nat" where
  "work_left c = sum_list (map (\<lambda>r. Suc (unat (orig_len c) - unat (req_total r))) (queued c))"

text \<open>What identifies a request while its offset moves.\<close>

definition req_key :: "dedupe_req \<Rightarrow> nat \<times> u64 \<times> u64" where
  "req_key r = (req_file r, req_unshared r, req_loff r - req_total r)"

definition all_keys :: "dedupe_ctxt \<Rightarrow> (nat \<times> u64 \<times> u64) multiset" where
  "all_keys c = image_mset req_key (mset (queued c) + mset (in_progress c) + mset (completed c))"

lemma req_key_moved [simp]: "req_key (moved same r) = req_key r"
  by (simp add: req_key_def moved_def)

lemma req_key_with_status [simp]: "req_key (with_status same r) = req_key r"
  using req_key_moved [of same r] by (simp add: req_key_def with_status_def)

lemma req_key_numbered: "image_mset req_key (mset (numbered n rs)) = image_mset req_key (mset rs)"
  by (induction rs arbitrary: n) (simp_all add: req_key_def)

lemma req_key_status [simp]: "req_key (r\<lparr>req_status := s\<rparr>) = req_key r"
  by (simp add: req_key_def)

lemma in_numbered:
  assumes "r \<in> set (numbered n rs)"
  shows "n \<le> req_idx r \<and> req_idx r < n + length rs \<and>
    (\<exists>q\<in>set rs. r = q\<lparr>req_idx := req_idx r\<rparr>)"
  using assms
proof (induction rs arbitrary: n)
  case (Cons q rs)
  then show ?case using Cons(1) [of "Suc n"] by fastforce
qed simp

lemma most_deduped_ge:
  "mx \<le> most_deduped same mx rs \<and>
   (\<forall>r\<in>set rs. bytes_deduped (infos same ! req_idx r) \<le> most_deduped same mx rs)"
proof (induction rs arbitrary: mx)
  case (Cons r rs)
  from Cons [of "max mx (bytes_deduped (infos same ! req_idx r))"] show ?case
    by (simp add: most_deduped_def)
qed (simp add: most_deduped_def)

lemma most_deduped_le:
  "mx \<le> b \<Longrightarrow> (\<And>r. r \<in> set rs \<Longrightarrow> bytes_deduped (infos same ! req_idx r) \<le> b) \<Longrightarrow>
   most_deduped same mx rs \<le> b"
  by (induction rs arbitrary: mx) (simp_all add: most_deduped_def)

lemma numbered_has:
  "i < length rs \<Longrightarrow> \<exists>r\<in>set (numbered n rs). req_idx r = n + i"
proof (induction rs arbitrary: n i)
  case (Cons r rs)
  then show ?case
  proof (cases i)
    case (Suc j)
    then show ?thesis using Cons(1) [of j "Suc n"] Cons(2) by auto
  qed simp
qed simp

lemma sum_list_less:
  "(\<And>x. x \<in> set xs \<Longrightarrow> f x \<le> (g x :: nat)) \<Longrightarrow> \<exists>x\<in>set xs. f x < g x \<Longrightarrow>
   sum_list (map f xs) < sum_list (map g xs)"
proof (induction xs)
  case (Cons x xs)
  have le: "sum_list (map f xs) \<le> sum_list (map g xs)" using Cons(2) by (intro sum_list_mono) simp
  show ?case
  proof (cases "f x < g x")
    case True
    with le show ?thesis by simp
  next
    case False
    then have "sum_list (map f xs) < sum_list (map g xs)" using Cons by auto
    then show ?thesis using Cons(2) [of x] by simp
  qed
qed simp

lemma sum_list_filter_if: "sum_list (map f (filter P xs)) = sum_list (map (\<lambda>x. if P x then f x else (0 :: nat)) xs)"
  by (induction xs) simp_all

lemma sum_list_zeros: "\<forall>x\<in>set xs. x = (0 :: 'a :: monoid_add) \<Longrightarrow> sum_list xs = 0"
  by (induction xs) simp_all

text \<open>One round, from a context between rounds to the next.\<close>

lemma round_spec:
  assumes inv: "loop_inv c" and ker: "dedupe_kernel ioctl"
    and pop: "populate_dedupe_request bs c = Ok (c1, same)"
    and ret: "dedupe_ioctl_retry bs ioctl k c1 same = (Inr same2, c2, k2)"
  defines "c3 \<equiv> process_dedupes bs c2 same2"
  shows "loop_inv c3" "all_keys c3 = all_keys c" "orig_len c3 = orig_len c"
    "round_bytes same2 \<noteq> 0 \<Longrightarrow> work_left c3 < work_left c"
proof -
  define rs where "rs = numbered 0 (queued c)"
  have qm: "length (queued c) \<le> unat (max_queable c)" and ip: "in_progress c = []"
    using inv by (simp_all add: loop_inv_def)
  have c1: "c1 = c\<lparr>queued := [], in_progress := rs, num_queued := num_queued c - of_nat (length (queued c))\<rparr>"
    and same: "infos same = map info_of (queued c)"
      "src_length same = src_length (set_aligned_same_length bs c \<lparr>src_offset = 0, src_length = 0, infos = []\<rparr>)"
    using pop populate_eq [OF qm, of bs] ip by (auto simp: rs_def)
  have c2: "c2 = c1 \<or> c2 = c1\<lparr>aligned := True\<rparr>" and len2: "length (infos same2) = length (queued c)"
    and bd: "\<forall>i<length (queued c). bytes_deduped (infos same2 ! i) \<le> ctx_len c"
    using retry_spec [OF ker ret] set_aligned_le [of bs c] same by (simp_all add: c1)
  have f2: "in_progress c2 = rs" "queued c2 = []" "completed c2 = completed c" "orig_len c2 = orig_len c"
    "ctx_len c2 = ctx_len c" "max_queable c2 = max_queable c"
    using c2 c1 by auto
  define mx where "mx = most_deduped same2 0 rs"
  define fin where "fin = finished (orig_len c) same2"
  define again where "again = map (moved same2) (filter (\<lambda>r. \<not> fin r) rs)"
  define fini where "fini = map (with_status same2) (filter fin rs)"
  have bd': "bytes_deduped (infos same2 ! req_idx r) \<le> ctx_len c"
      "bytes_deduped (infos same2 ! req_idx r) \<le> mx" if "r \<in> set rs" for r
    using that bd in_numbered [of r 0 "queued c"] most_deduped_ge [of 0 same2 rs]
    by (auto simp: rs_def mx_def)
  have mx: "mx \<le> ctx_len c" unfolding mx_def using bd' by (intro most_deduped_le) simp_all
  have tot: "unat (req_total r) + unat (ctx_len c) \<le> unat (orig_len c)" if m: "r \<in> set rs" for r
  proof -
    obtain q where "q \<in> set (queued c)" "r = q\<lparr>req_idx := req_idx r\<rparr>"
      using in_numbered [of r 0 "queued c"] m by (auto simp: rs_def)
    moreover have "req_total (q\<lparr>req_idx := req_idx r\<rparr>) = req_total q" by simp
    ultimately show ?thesis using inv by (metis loop_inv_def)
  qed
  have mt: "unat (req_total (moved same2 r)) = unat (req_total r) + unat (bytes_deduped (infos same2 ! req_idx r))"
    if "r \<in> set rs" for r
  proof -
    have "unat (bytes_deduped (infos same2 ! req_idx r)) \<le> unat (ctx_len c)"
      using bd'(1) [OF that] by (simp add: word_le_nat_alt)
    then have "unat (req_total r) + unat (bytes_deduped (infos same2 ! req_idx r)) < 2 ^ 64"
      using tot [OF that] unat_u64_lt [of "orig_len c"] by linarith
    then show ?thesis by (simp add: moved_def unat_add_u64)
  qed
  have step: "unat (req_total (moved same2 r)) + unat (ctx_len c - mx) \<le> unat (orig_len c)"
    if "r \<in> set rs" for r
  proof -
    have "unat (bytes_deduped (infos same2 ! req_idx r)) \<le> unat mx" "unat mx \<le> unat (ctx_len c)"
      using bd'(2) [OF that] mx by (simp_all add: word_le_nat_alt)
    then show ?thesis
      using mt [OF that] tot [OF that] unat_sub_u64 [OF mx] by linarith
  qed
  have tle: "req_total (moved same2 r) \<le> orig_len c" if "r \<in> set rs" for r
    using step [OF that] by (simp add: word_le_nat_alt)
  define cut where "cut \<longleftrightarrow> aligned c2 \<and> ctx_len c - mx < ucast bs"
  have c3: "queued c3 = (if cut then [] else again)"
    "completed c3 = completed c @ fini @ (if cut then again else [])"
    "in_progress c3 = []" "ctx_len c3 = ctx_len c - mx" "max_queable c3 = max_queable c"
    and ol: "orig_len c3 = orig_len c"
    using process_loop_eq [OF refl, of c2 same2 0]
    by (auto simp: c3_def process_dedupes_def Let_def f2 mx_def [symmetric] fin_def [symmetric]
        again_def [symmetric] fini_def [symmetric] cut_def)
  have al: "length again \<le> length (queued c)"
    unfolding again_def by (simp add: rs_def order_trans [OF length_filter_le])
  have ar: "unat (req_total r) + unat (ctx_len c - mx) \<le> unat (orig_len c)" if "r \<in> set again" for r
    using that step by (auto simp: again_def)
  have dr: "req_total r \<le> orig_len c" if "r \<in> set fini \<union> set again" for r
    using that tle by (auto simp: fini_def again_def with_status_def)
  show "loop_inv c3"
    using inv qm al ar dr by (auto simp: loop_inv_def c3 ol)
  have keys: "image_mset req_key (mset again) + image_mset req_key (mset fini) = image_mset req_key (mset (queued c))"
  proof -
    have "image_mset req_key (mset again) + image_mset req_key (mset fini) =
        image_mset req_key (filter_mset (\<lambda>r. \<not> fin r) (mset rs)) + image_mset req_key (filter_mset fin (mset rs))"
      by (simp only: again_def fini_def mset_map mset_filter multiset.map_comp comp_def req_key_moved req_key_with_status)
    also have "\<dots> = image_mset req_key (mset rs)"
      by (metis add.commute image_mset_union multiset_partition)
    finally show ?thesis unfolding rs_def req_key_numbered .
  qed
  show "all_keys c3 = all_keys c"
    unfolding all_keys_def using keys ip by (auto simp: c3 add.commute add.left_commute)
  show "orig_len c3 = orig_len c" by (rule ol)
  show "work_left c3 < work_left c" if "round_bytes same2 \<noteq> 0"
  proof -
    have "\<exists>b\<in>set (infos same2). bytes_deduped b \<noteq> 0"
    proof (rule ccontr)
      assume "\<not> ?thesis"
      then have "\<forall>x\<in>set (map bytes_deduped (infos same2)). x = 0" by simp
      then show False using that using sum_list_zeros [of "map bytes_deduped (infos same2)"] by (simp add: round_bytes_def)
    qed
    then obtain i where i: "i < length (queued c)" "bytes_deduped (infos same2 ! i) \<noteq> 0"
      using len2 by (metis in_set_conv_nth)
    obtain r0 where r0: "r0 \<in> set rs" "req_idx r0 = i"
      using numbered_has [OF i(1), of 0] by (auto simp: rs_def)
    define f where "f = (\<lambda>r. if \<not> fin r then Suc (unat (orig_len c) - unat (req_total (moved same2 r))) else 0)"
    define g where "g = (\<lambda>r :: dedupe_req. Suc (unat (orig_len c) - unat (req_total r)))"
    have "sum_list (map f rs) < sum_list (map g rs)"
    proof (rule sum_list_less)
      show "f r \<le> g r" if "r \<in> set rs" for r
        using mt [OF that] by (simp add: f_def g_def diff_le_mono2)
      have "0 < unat (bytes_deduped (infos same2 ! i))" using i(2) unat_gt_0 by blast
      moreover have "\<not> fin r0 \<Longrightarrow> unat (req_total (moved same2 r0)) < unat (orig_len c)"
        by (simp add: fin_def finished_def not_le word_less_nat_alt)
      ultimately have "f r0 < g r0" using mt [OF r0(1)] r0(2) by (cases "fin r0") (simp_all add: f_def g_def)
      then show "\<exists>r\<in>set rs. f r < g r" using r0(1) by blast
    qed
    moreover have "sum_list (map g rs) = work_left c"
    proof -
      have "map g (numbered n qs) = map g qs" for n qs
        by (induction qs arbitrary: n) (simp_all add: g_def)
      then show ?thesis by (simp add: work_left_def rs_def g_def)
    qed
    moreover have "work_left c3 \<le> sum_list (map f rs)"
      by (simp add: work_left_def c3 ol again_def comp_def sum_list_filter_if f_def)
    ultimately show ?thesis by simp
  qed
qed

lemma all_keys_upd [simp]:
  "all_keys (c\<lparr>progress := p\<rparr>) = all_keys c"
  "all_keys (fail_in_flight c err) = all_keys c"
  "all_keys (c\<lparr>completed := completed c @ queued c, queued := []\<rparr>) = all_keys c"
  by (simp_all add: all_keys_def fail_in_flight_def multiset.map_comp comp_def add.commute add.left_commute)

lemma dedupe_loop_returns:
  assumes "dedupe_kernel ioctl" "loop_inv c" "work_left c < fuel"
  shows "\<exists>ret c' k'. dedupe_loop fuel bs ioctl k c = Ok (ret, c', k') \<and>
    queued c' = [] \<and> in_progress c' = [] \<and> all_keys c' = all_keys c \<and>
    (\<forall>r\<in>set (completed c'). req_total r \<le> orig_len c)"
  using assms(2,3)
proof (induction fuel arbitrary: c k)
  case (Suc fuel)
  show ?case
  proof (cases "queued c = []")
    case True
    then show ?thesis using Suc(2) by (auto simp: loop_inv_def)
  next
    case False
    have qm: "length (queued c) \<le> unat (max_queable c)" using Suc(2) by (simp add: loop_inv_def)
    obtain c1 same where pop: "populate_dedupe_request bs c = Ok (c1, same)"
      using populate_eq [OF qm] by blast
    have c1: "c1 = c\<lparr>queued := [], in_progress := numbered 0 (queued c),
        num_queued := num_queued c - of_nat (length (queued c))\<rparr>"
      using pop populate_eq [OF qm, of bs] Suc(2) by (auto simp: loop_inv_def)
    obtain r c2 k2 where ret: "dedupe_ioctl_retry bs ioctl k c1 same = (r, c2, k2)"
      by (cases "dedupe_ioctl_retry bs ioctl k c1 same") auto
    show ?thesis
    proof (cases r)
      case (Inl err)
      have "c2 = c1 \<or> c2 = c1\<lparr>aligned := True\<rparr>"
        using ret by (auto simp: dedupe_ioctl_retry_def Let_def split: prod.splits sum.splits if_splits)
      then have f: "queued c2 = []" "in_progress c2 = numbered 0 (queued c)" "completed c2 = completed c"
        unfolding c1 by auto
      have "all_keys (fail_in_flight c2 err) = all_keys c"
        using Suc(2) by (simp add: all_keys_def [of c2] f req_key_numbered)
          (simp add: all_keys_def loop_inv_def)
      moreover have "\<forall>r\<in>set (completed (fail_in_flight c2 err)). req_total r \<le> orig_len c"
      proof -
        have "req_total q \<le> orig_len c" if q: "q \<in> set (numbered 0 (queued c))" for q
        proof -
          obtain p where "p \<in> set (queued c)" "q = p\<lparr>req_idx := req_idx q\<rparr>"
            using in_numbered [OF q] by blast
          moreover have "req_total (p\<lparr>req_idx := req_idx q\<rparr>) = req_total p" by simp
          ultimately have "unat (req_total q) + unat (ctx_len c) \<le> unat (orig_len c)"
            using Suc(2) by (metis loop_inv_def)
          then show ?thesis by (simp add: word_le_nat_alt)
        qed
        then show ?thesis using Suc(2) by (auto simp: fail_in_flight_def f loop_inv_def)
      qed
      moreover have "queued (fail_in_flight c2 err) = []" "in_progress (fail_in_flight c2 err) = []"
        by (simp_all add: fail_in_flight_def)
      ultimately show ?thesis using False pop ret Inl by simp
    next
      case (Inr same2)
      define c4 where "c4 = (process_dedupes bs c2 same2)
        \<lparr>progress := progress (process_dedupes bs c2 same2) @ [round_bytes same2]\<rparr>"
      note rs = round_spec [OF Suc(2) assms(1) pop ret [unfolded Inr]]
      have c4: "loop_inv c4" "all_keys c4 = all_keys c" "orig_len c4 = orig_len c"
        "round_bytes same2 \<noteq> 0 \<Longrightarrow> work_left c4 < work_left c"
        using rs by (simp_all add: c4_def loop_inv_def work_left_def)
      have step: "dedupe_loop (Suc fuel) bs ioctl k c =
        (if round_bytes same2 = 0 \<and> queued c4 \<noteq> []
         then Ok (0, c4\<lparr>completed := completed c4 @ queued c4, queued := []\<rparr>, k2)
         else dedupe_loop fuel bs ioctl k2 c4)"
        using False pop ret Inr by (simp add: c4_def Let_def)
      show ?thesis
      proof (cases "round_bytes same2 = 0 \<and> queued c4 \<noteq> []")
        case True
        have "all_keys (c4\<lparr>completed := completed c4 @ queued c4, queued := []\<rparr>) = all_keys c"
          using c4 by simp
        moreover have "req_total r \<le> orig_len c" if "r \<in> set (completed c4) \<union> set (queued c4)" for r
          using that c4(1,3) by (auto simp: loop_inv_def word_le_nat_alt)
        moreover have "in_progress c4 = []" using c4(1) by (simp add: loop_inv_def)
        ultimately show ?thesis
          unfolding step using True by auto
      next
        case go: False
        have "work_left c4 < work_left c"
        proof (cases "round_bytes same2 = 0")
          case True
          then have "work_left c4 = 0" using go by (simp add: work_left_def)
          moreover have "0 < work_left c" using False by (cases "queued c") (simp_all add: work_left_def)
          ultimately show ?thesis by simp
        qed (rule c4(4))
        then have "work_left c4 < fuel" using Suc(3) by simp
        from Suc(1) [OF c4(1) this, of k2] obtain ret' c' k' where
          "dedupe_loop fuel bs ioctl k2 c4 = Ok (ret', c', k')" "queued c' = []" "in_progress c' = []"
          "all_keys c' = all_keys c" "\<forall>r\<in>set (completed c'). req_total r \<le> orig_len c"
          using c4 by auto
        then show ?thesis
          unfolding step using go by auto
      qed
    qed
  qed
qed simp

text \<open>A context that its owner filled and has not run yet.\<close>

definition ready :: "dedupe_ctxt \<Rightarrow> bool" where
  "ready c \<longleftrightarrow> in_progress c = [] \<and> completed c = [] \<and> ctx_len c = orig_len c \<and>
    num_queued c = of_nat (length (queued c)) \<and> length (queued c) \<le> unat (max_queable c) \<and>
    max_queable c \<le> 119 \<and> list_all (\<lambda>r. req_total r = 0) (queued c)"

lemma new_dedupe_ctxt_ready: "0 < max_extents \<Longrightarrow> ready (new_dedupe_ctxt max_extents loff len file)"
  by (auto simp: ready_def new_dedupe_ctxt_def Let_def word_le_nat_alt word_less_nat_alt unat_sub)

lemma add_extent_ready:
  assumes "ready c" "add_extent_to_dedupe c loff file unshared = Ok (ret, c')"
  shows "ready c'" "queued c' = queued c @ [new_dedupe_req file loff unshared]"
proof -
  have c': "c' = c\<lparr>queued := queued c @ [new_dedupe_req file loff unshared], num_queued := num_queued c + 1\<rparr>"
    and lt: "num_queued c < max_queable c"
    using assms(2) by (auto simp: add_extent_to_dedupe_def Let_def not_le split: if_splits)
  show "queued c' = queued c @ [new_dedupe_req file loff unshared]" by (simp add: c')
  have "unat (max_queable c) \<le> 119" using assms(1) by (simp add: ready_def word_le_nat_alt)
  then have "unat (num_queued c) = length (queued c)"
    using assms(1) by (simp add: ready_def unat_of_nat)
  then show "ready c'"
    using assms(1) lt by (simp add: ready_def c' new_dedupe_req_def word_less_nat_alt)
qed

lemma work_left_le: "work_left c \<le> length (queued c) * Suc (unat (orig_len c))"
proof -
  have "sum_list (map (\<lambda>r. Suc (n - unat (req_total r))) qs) \<le> length qs * Suc n" for n and qs :: "dedupe_req list"
    by (induction qs) simp_all
  then show ?thesis by (simp add: work_left_def)
qed

lemma clamp_spec:
  assumes "ready c"
  shows "loop_inv (clamp_len_to_ioctl_file st c)" "all_keys (clamp_len_to_ioctl_file st c) = all_keys c"
    "orig_len (clamp_len_to_ioctl_file st c) \<le> orig_len c"
    "work_left (clamp_len_to_ioctl_file st c) \<le> length (queued c) * Suc (unat (orig_len c))"
proof -
  define d where "d = clamp_len_to_ioctl_file st c"
  have d: "d = c \<or> d = c\<lparr>completed := completed c @ queued c, queued := [], num_queued := 0\<rparr> \<or>
      (\<exists>n\<le>orig_len c. d = c\<lparr>ctx_len := n, orig_len := n\<rparr>)"
  proof (cases st)
    case (Some sz)
    have "sz - ioctl_file_off c \<le> orig_len c"
      if "\<not> ioctl_file_off c + ctx_len c \<le> sz" "\<not> sz \<le> ioctl_file_off c"
    proof -
      have "ctx_len c = orig_len c" using assms by (simp add: ready_def)
      then show ?thesis using that by uint_arith
    qed
    with Some show ?thesis by (auto simp: d_def clamp_len_to_ioctl_file_def)
  qed (simp add: d_def clamp_len_to_ioctl_file_def)
  have tot: "\<forall>r\<in>set (queued c). req_total r = 0" using assms by (simp add: ready_def list_all_iff)
  show "loop_inv (clamp_len_to_ioctl_file st c)"
    using d assms tot unfolding d_def [symmetric] by (auto simp: loop_inv_def ready_def)
  show "all_keys (clamp_len_to_ioctl_file st c) = all_keys c"
    using d unfolding d_def [symmetric] by (auto simp: all_keys_def add.commute add.left_commute)
  show le: "orig_len (clamp_len_to_ioctl_file st c) \<le> orig_len c"
    using d unfolding d_def [symmetric] by auto
  have "length (queued d) \<le> length (queued c)" using d by auto
  then have "length (queued d) * Suc (unat (orig_len d)) \<le> length (queued c) * Suc (unat (orig_len c))"
    using le unfolding d_def [symmetric] by (intro mult_le_mono) (simp_all add: word_le_nat_alt)
  then show "work_left (clamp_len_to_ioctl_file st c) \<le> length (queued c) * Suc (unat (orig_len c))"
    using work_left_le [of d] unfolding d_def [symmetric] by linarith
qed

lemma dedupe_extents_spec:
  assumes "ready c" "dedupe_kernel ioctl" "length (queued c) * Suc (unat (orig_len c)) < fuel"
  shows "\<exists>ret c' k'. dedupe_extents fuel bs st_size ioctl k c = Ok (ret, c', k') \<and>
    queued c' = [] \<and> in_progress c' = [] \<and>
    image_mset req_key (mset (completed c')) = image_mset req_key (mset (queued c)) \<and>
    (\<forall>r\<in>set (completed c'). req_total r \<le> orig_len c)"
proof -
  note cl = clamp_spec [OF assms(1), of st_size]
  have "work_left (clamp_len_to_ioctl_file st_size c) < fuel" using cl(4) assms(3) by linarith
  from dedupe_loop_returns [OF assms(2) cl(1) this, of bs k] obtain ret c' k' where
    r: "dedupe_extents fuel bs st_size ioctl k c = Ok (ret, c', k')" "queued c' = []" "in_progress c' = []"
      "all_keys c' = all_keys c" "\<forall>r\<in>set (completed c'). req_total r \<le> orig_len c"
    using cl(2,3) order_trans [OF _ cl(3)] unfolding dedupe_extents_def by auto
  moreover have "image_mset req_key (mset (completed c')) = image_mset req_key (mset (queued c))"
    using r(2-4) assms(1) by (simp add: all_keys_def ready_def)
  ultimately show ?thesis by blast
qed

text \<open>C20: \<open>dedupe_extents\<close> returns whatever the kernel answers within its contract: every request the
  caller queued comes back exactly once as a result, none is left in flight, and none claims more
  bytes than the length that was asked for.\<close>

theorem dedupe_extents_returns:
  assumes "ready c" "dedupe_kernel ioctl" "length (queued c) * Suc (unat (orig_len c)) < fuel"
  shows "\<exists>ret c' k'. dedupe_extents fuel bs st_size ioctl k c = Ok (ret, c', k') \<and>
    queued c' = [] \<and> in_progress c' = [] \<and>
    image_mset req_key (mset (completed c')) = image_mset req_key (mset (queued c)) \<and>
    (\<forall>r\<in>set (completed c'). req_total r \<le> orig_len c)"
  using dedupe_extents_spec [OF assms] .

text \<open>A kernel that shares everything it is asked to, and another that never shares a byte.\<close>

definition sharing_kernel :: "unit dedupe_ioctl" where
  "sharing_kernel k same =
    (Inr (same\<lparr>infos := map (\<lambda>i. i\<lparr>bytes_deduped := src_length same, info_status := 0\<rparr>) (infos same)\<rparr>), k)"

lemma sharing_kernel_ok: "dedupe_kernel sharing_kernel"
  by (simp add: dedupe_kernel_def sharing_kernel_def)

definition sample_ctxt :: dedupe_ctxt where
  "sample_ctxt = (new_dedupe_ctxt 2 0 40 7)\<lparr>queued := [new_dedupe_req 8 100 30], num_queued := 1\<rparr>"

theorem dedupe_extents_returns_witness:
  "\<exists>ret c' k'. dedupe_extents 50 4096 None sharing_kernel () sample_ctxt = Ok (ret, c', k') \<and>
    map req_file (completed c') = [8]"
proof -
  have "ready sample_ctxt"
    by (simp add: ready_def sample_ctxt_def new_dedupe_ctxt_def new_dedupe_req_def Let_def)
  moreover have "length (queued sample_ctxt) * Suc (unat (orig_len sample_ctxt)) < 50"
    by (simp add: sample_ctxt_def new_dedupe_ctxt_def Let_def)
  ultimately obtain ret c' k' where r: "dedupe_extents 50 4096 None sharing_kernel () sample_ctxt = Ok (ret, c', k')"
    "image_mset req_key (mset (completed c')) = image_mset req_key (mset (queued sample_ctxt))"
    using dedupe_extents_returns [OF _ sharing_kernel_ok, of sample_ctxt 50 4096 None "()"] by blast
  then have "image_mset req_key (mset (completed c')) = {#req_key (new_dedupe_req 8 100 30)#}"
    by (simp add: sample_ctxt_def)
  moreover from arg_cong [OF this, of size] obtain q where "completed c' = [q]"
    by (auto simp: length_Suc_conv)
  ultimately have "\<exists>q. completed c' = [q] \<and> req_key q = req_key (new_dedupe_req 8 100 30)" by auto
  then show ?thesis using r(1) by (auto simp: req_key_def new_dedupe_req_def)
qed

text \<open>C27: the two ranges of the probe are whole blocks, disjoint and inside the file, at most 64 KiB
  or one block long; only a file with room for less than two blocks is not asked.\<close>

theorem dedupe_probe_len_fits:
  assumes "ucast bs = (2 ^ n :: u64)" "n < 32"
  shows "2 ^ n dvd unat (dedupe_probe_len bs sz) \<and>
    unat (dedupe_probe_len bs sz) + unat (dedupe_probe_len bs sz) \<le> unat sz \<and>
    unat (dedupe_probe_len bs sz) \<le> max (2 ^ n) 65536 \<and>
    (dedupe_probe_len bs sz = 0 \<longleftrightarrow> unat sz < 2 * 2 ^ n)"
proof -
  define cap where "cap = (if DEDUPE_PROBE_LEN_MAX < ucast bs then ucast bs else DEDUPE_PROBE_LEN_MAX)"
  define half where "half = sz div 2"
  define l0 where "l0 = (if cap < half then cap else half)"
  have n: "n < 64" using assms(2) by simp
  have b: "unat (ucast bs :: u64) = 2 ^ n" using assms(1) n by (simp add: unat_2_power)
  have c: "unat cap = max (2 ^ n) 65536"
    using b by (auto simp: cap_def word_less_nat_alt max_def)
  have h: "unat half = unat sz div 2" by (simp add: half_def unat_div)
  have l0: "unat l0 = min (max (2 ^ n) 65536) (unat sz div 2)"
    using c h by (auto simp: l0_def word_less_nat_alt min_def)
  have sh: "unat (dedupe_shareable_len bs l0) =
      (if unat l0 < 2 ^ n then unat l0 else 2 ^ n * (unat l0 div 2 ^ n))"
    by (rule shareable_len_nat [OF assms(1) n])
  have ge: "2 ^ n \<le> 2 ^ n * (unat l0 div 2 ^ n)" if "2 ^ n \<le> unat l0"
  proof -
    have "1 \<le> unat l0 div 2 ^ n" using that by (simp add: Suc_leI div_greater_zero_iff)
    then show ?thesis by simp
  qed
  have p: "unat (dedupe_probe_len bs sz) = (if unat l0 < 2 ^ n then 0 else 2 ^ n * (unat l0 div 2 ^ n))"
  proof -
    have "dedupe_probe_len bs sz =
        (if dedupe_shareable_len bs l0 < ucast bs then 0 else dedupe_shareable_len bs l0)"
      unfolding dedupe_probe_len_def Let_def cap_def half_def l0_def by (rule refl)
    then show ?thesis using sh ge b by (auto simp: word_less_nat_alt)
  qed
  have le: "2 ^ n * (unat l0 div 2 ^ n) \<le> unat l0" by simp
  have z: "dedupe_probe_len bs sz = 0 \<longleftrightarrow> unat l0 < 2 ^ n"
  proof -
    have "dedupe_probe_len bs sz = 0 \<longleftrightarrow> unat (dedupe_probe_len bs sz) = 0" by (simp add: unat_eq_0)
    also have "\<dots> \<longleftrightarrow> unat l0 < 2 ^ n"
    proof (cases "unat l0 < 2 ^ n")
      case False
      then have "0 < 2 ^ n * (unat l0 div 2 ^ n)" using ge by (meson less_le_trans not_le zero_less_power zero_less_numeral)
      then show ?thesis unfolding p using False by (simp only: if_False) simp
    qed (simp add: p)
    finally show ?thesis .
  qed
  have "unat l0 < 2 ^ n \<longleftrightarrow> unat sz < 2 * 2 ^ n"
  proof -
    have "2 ^ n \<le> unat sz div 2 \<longleftrightarrow> 2 * 2 ^ n \<le> unat sz" by linarith
    then show ?thesis unfolding l0 by (simp add: min_less_iff_disj not_le [symmetric] le_max_iff_disj)
  qed
  moreover have "2 ^ n dvd unat (dedupe_probe_len bs sz)" unfolding p by simp
  moreover have "unat (dedupe_probe_len bs sz) \<le> unat l0" unfolding p using le by simp
  moreover have "unat l0 \<le> unat sz div 2" "unat l0 \<le> max (2 ^ n) 65536" unfolding l0 by simp_all
  ultimately show ?thesis using z by linarith
qed

theorem dedupe_probe_len_fits_witness:
  "unat (dedupe_probe_len 4096 10000) + unat (dedupe_probe_len 4096 10000) \<le> unat (10000 :: u64)"
  using dedupe_probe_len_fits [of 4096 12 10000] by simp

subsection \<open>Source and destinations move together\<close>

text \<open>
  The kernel compares one source range with a range of every destination, so what a request has
  behind it must be what the source has behind it.
\<close>

definition lockstep :: "dedupe_ctxt \<Rightarrow> dedupe_req list \<Rightarrow> bool" where
  "lockstep c rs \<longleftrightarrow> (\<forall>r\<in>set rs. req_total r = ioctl_file_off c - orig_file_off c)"

text \<open>A round in which every destination that succeeded got the same bytes, and no other got more.\<close>

definition even_round :: "dedupe_range \<Rightarrow> bool" where
  "even_round same \<longleftrightarrow> (\<exists>n. \<forall>i\<in>set (infos same).
     (info_status i = 0 \<longrightarrow> bytes_deduped i = n) \<and> bytes_deduped i \<le> n)"


definition half_done :: dedupe_ctxt where
  "half_done = (new_dedupe_ctxt 3 0 100 7)\<lparr>in_progress :=
     [(new_dedupe_req 8 0 0)\<lparr>req_idx := 0\<rparr>, (new_dedupe_req 9 500 0)\<lparr>req_idx := 1\<rparr>]\<rparr>"

definition one_round :: "u64 \<Rightarrow> u64 \<Rightarrow> dedupe_range" where
  "one_round a b = \<lparr>src_offset = 0, src_length = 100, infos =
     [\<lparr>dest_fd = 8, dest_offset = 0, bytes_deduped = a, info_status = 0\<rparr>,
      \<lparr>dest_fd = 9, dest_offset = 500, bytes_deduped = b, info_status = 0\<rparr>]\<rparr>"


text \<open>
  The hypothesis is needed: where one destination falls short of another, the source has moved past
  it, and its next round compares bytes that do not correspond.
\<close>

lemma uneven_round_loses_lockstep:
  "\<not> lockstep (process_dedupes 4096 half_done (one_round 40 20))
     (queued (process_dedupes 4096 half_done (one_round 40 20)))"
  by (simp add: lockstep_def half_done_def one_round_def process_dedupes_def
      new_dedupe_req_def new_dedupe_ctxt_def Let_def)

end
