(* ===== verification/RbTree.thy ===== *)
theory RbTree
  imports Base "HOL-Library.Tree"
begin

text \<open>
  The red-black trees of the program. \<open>rbtree.c\<close> is the kernel's and is not modelled: a tree is a
  binary search tree over which the program's own code descends, as every one of its lookups and
  insertions does, and the rebalancing of \<open>rb_insert_color\<close> and \<open>rb_erase\<close>, which changes the shape
  and not the order, is left out. A descent is directed by a comparison \<open>dir\<close>: below zero goes left,
  above zero right, zero is the node.

  The locale \<open>rb_dict\<close> is the contract of such a comparison, with what a tree then is: a dictionary.
  Every tree of the program interprets it with the comparison its code makes.
\<close>

fun rb_find :: "('a \<Rightarrow> int) \<Rightarrow> 'a tree \<Rightarrow> 'a option" where
  "rb_find dir Leaf = None"
| "rb_find dir (Node l y r) =
    (if dir y < 0 then rb_find dir l else if 0 < dir y then rb_find dir r else Some y)"

text \<open>\<open>None\<close> when a node compares equal.\<close>

fun rb_insert :: "('a \<Rightarrow> int) \<Rightarrow> 'a \<Rightarrow> 'a tree \<Rightarrow> 'a tree option" where
  "rb_insert dir x Leaf = Some (Node Leaf x Leaf)"
| "rb_insert dir x (Node l y r) =
    (if dir y < 0 then map_option (\<lambda>l'. Node l' y r) (rb_insert dir x l)
     else if 0 < dir y then map_option (\<lambda>r'. Node l y r') (rb_insert dir x r)
     else None)"

fun rb_join :: "'a tree \<Rightarrow> 'a tree \<Rightarrow> 'a tree" where
  "rb_join Leaf r = r"
| "rb_join (Node a x b) r = Node a x (rb_join b r)"

text \<open>The node to erase is given by its place; so is one whose contents change.\<close>

fun rb_erase :: "('a \<Rightarrow> int) \<Rightarrow> 'a tree \<Rightarrow> 'a tree" where
  "rb_erase dir Leaf = Leaf"
| "rb_erase dir (Node l y r) =
    (if dir y < 0 then Node (rb_erase dir l) y r
     else if 0 < dir y then Node l y (rb_erase dir r)
     else rb_join l r)"

fun rb_modify :: "('a \<Rightarrow> int) \<Rightarrow> ('a \<Rightarrow> 'a) \<Rightarrow> 'a tree \<Rightarrow> 'a tree" where
  "rb_modify dir f Leaf = Leaf"
| "rb_modify dir f (Node l y r) =
    (if dir y < 0 then Node (rb_modify dir f l) y r
     else if 0 < dir y then Node l y (rb_modify dir f r)
     else Node l (f y) r)"

fun rb_first :: "'a tree \<Rightarrow> 'a option" where
  "rb_first Leaf = None"
| "rb_first (Node Leaf y r) = Some y"
| "rb_first (Node (Node ll x lr) y r) = rb_first (Node ll x lr)"

text \<open>The node after a node: the last place where its descent turned left, or the first of its right.\<close>

fun rb_next :: "('a \<Rightarrow> int) \<Rightarrow> 'a option \<Rightarrow> 'a tree \<Rightarrow> 'a option" where
  "rb_next dir up Leaf = None"
| "rb_next dir up (Node l y r) =
    (if dir y < 0 then rb_next dir (Some y) l
     else if 0 < dir y then rb_next dir up r
     else if r = Leaf then up else rb_first r)"

lemma inorder_rb_join [simp]: "inorder (rb_join l r) = inorder l @ inorder r"
  by (induction l r rule: rb_join.induct) simp_all

lemma rb_first_inorder: "rb_first t = (case inorder t of [] \<Rightarrow> None | x # _ \<Rightarrow> Some x)"
proof (induction t rule: rb_first.induct)
  case (3 ll x lr y r)
  then show ?case by (cases "inorder ll") simp_all
qed simp_all

lemma rb_first_None [simp]: "rb_first t = None \<longleftrightarrow> t = Leaf"
  by (cases t rule: rb_first.cases) (auto simp: rb_first_inorder split: list.split)

lemma rb_first_in: "rb_first t = Some x \<Longrightarrow> x \<in> set_tree t"
  by (auto simp: rb_first_inorder split: list.split_asm simp flip: set_inorder)

lemma distinct_split_unique:
  assumes "distinct (ps @ x # qs)" "ps @ x # qs = xs @ x # ys"
  shows "ps = xs" "qs = ys"
proof -
  have "x \<notin> set ps" using assms(1) by simp
  moreover have "distinct (xs @ x # ys)" using assms by simp
  then have "x \<notin> set xs" by simp
  ultimately show "ps = xs" "qs = ys"
    using append_Cons_eq_iff [of x ps qs xs ys] assms(2) by (metis distinct.simps(2) distinct_append assms(1))+
qed

locale rb_dict =
  fixes dir :: "'k \<Rightarrow> 'a \<Rightarrow> int" and key :: "'a \<Rightarrow> 'k"
  assumes dir_eq: "dir k x = 0 \<longleftrightarrow> key x = k"
    and dir_left: "dir k x < 0 \<Longrightarrow> dir (key x) y < 0 \<Longrightarrow> dir k y < 0"
    and dir_right: "0 < dir k y \<Longrightarrow> dir (key x) y < 0 \<Longrightarrow> 0 < dir k x"
    and dir_flip: "0 < dir (key x) y \<longleftrightarrow> dir (key y) x < 0"
begin

abbreviation before :: "'a \<Rightarrow> 'a \<Rightarrow> bool" where
  "before x y \<equiv> dir (key x) y < 0"

definition ordered :: "'a tree \<Rightarrow> bool" where
  "ordered t \<longleftrightarrow> sorted_wrt before (inorder t)"

lemma ordered_Leaf [simp]: "ordered Leaf"
  by (simp add: ordered_def)

lemma ordered_Node:
  "ordered (Node l y r) \<longleftrightarrow> ordered l \<and> ordered r \<and>
    (\<forall>x\<in>set_tree l. before x y) \<and> (\<forall>z\<in>set_tree r. before y z) \<and>
    (\<forall>x\<in>set_tree l. \<forall>z\<in>set_tree r. before x z)"
  by (auto simp: ordered_def sorted_wrt_append)

lemma key_differs:
  assumes "ordered (Node l y r)"
  shows "dir k y < 0 \<Longrightarrow> z \<in> set_tree r \<Longrightarrow> key z \<noteq> k"
    and "0 < dir k y \<Longrightarrow> x \<in> set_tree l \<Longrightarrow> key x \<noteq> k"
    and "dir k y = 0 \<Longrightarrow> x \<in> set_tree l \<union> set_tree r \<Longrightarrow> key x \<noteq> k"
proof -
  have l: "\<forall>x\<in>set_tree l. before x y" and r: "\<forall>z\<in>set_tree r. before y z"
    using assms by (simp_all add: ordered_Node)
  show "key z \<noteq> k" if "dir k y < 0" "z \<in> set_tree r"
  proof -
    have "dir k z < 0" by (rule dir_left [OF that(1)]) (use r that(2) in blast)
    then show ?thesis using dir_eq [of k z] by linarith
  qed
  show "key x \<noteq> k" if "0 < dir k y" "x \<in> set_tree l"
  proof -
    have "0 < dir k x" by (rule dir_right [OF that(1)]) (use l that(2) in blast)
    then show ?thesis using dir_eq [of k x] by linarith
  qed
  show "key x \<noteq> k" if "dir k y = 0" "x \<in> set_tree l \<union> set_tree r"
  proof
    assume "key x = k"
    moreover have "key y = k" using that(1) dir_eq by blast
    ultimately have "dir (key x) y = 0" "dir (key y) x = 0" using dir_eq [of "key x" y] dir_eq [of "key y" x] by simp_all
    moreover have "dir (key x) y < 0 \<or> dir (key y) x < 0" using that(2) l r by blast
    ultimately show False by linarith
  qed
qed

lemma key_here: "dir k x = 0 \<Longrightarrow> key x = k"
  using dir_eq [of k x] by blast

lemma find_key: "rb_find (dir k) t = Some x \<Longrightarrow> x \<in> set_tree t \<and> key x = k"
  by (induction t) (auto split: if_split_asm simp: key_here)

lemma find_iff:
  "ordered t \<Longrightarrow> rb_find (dir k) t = Some x \<longleftrightarrow> x \<in> set_tree t \<and> key x = k"
proof (induction t)
  case (Node l y r)
  then have o: "ordered l" "ordered r" by (simp_all add: ordered_Node)
  have y: "key y = k \<longleftrightarrow> dir k y = 0" using dir_eq by blast
  consider "dir k y < 0" | "0 < dir k y" | "dir k y = 0" by linarith
  then show ?case
    using Node.IH o y key_differs [OF Node.prems, of k] by cases auto
qed simp

lemma find_None: "ordered t \<Longrightarrow> rb_find (dir k) t = None \<longleftrightarrow> (\<forall>x\<in>set_tree t. key x \<noteq> k)"
  using find_iff [of t k] by (metis not_None_eq)

lemma insert_node_left:
  assumes "ordered (Node l y r)" "ordered l'" "before x y" "set_tree l' = insert x (set_tree l)"
  shows "ordered (Node l' y r)" "\<forall>w\<in>insert y (set_tree r). key w \<noteq> key x"
proof -
  have r: "before y z" "before x z" if "z \<in> set_tree r" for z
  proof -
    show "before y z" using assms(1) that by (simp add: ordered_Node)
    then show "before x z" by (rule dir_left [OF assms(3)])
  qed
  show "ordered (Node l' y r)"
    using assms r unfolding ordered_Node by simp
  have "key y \<noteq> key x" using assms(3) dir_eq [of "key x" y] by linarith
  then show "\<forall>w\<in>insert y (set_tree r). key w \<noteq> key x"
    using key_differs(1) [OF assms(1,3)] by blast
qed

lemma insert_node_right:
  assumes "ordered (Node l y r)" "ordered r'" "0 < dir (key x) y" "set_tree r' = insert x (set_tree r)"
  shows "ordered (Node l y r')" "\<forall>w\<in>insert y (set_tree l). key w \<noteq> key x"
proof -
  have yx: "before y x" using assms(3) by (simp add: dir_flip)
  have l: "before z x" if "z \<in> set_tree l" for z
  proof -
    have "before z y" using assms(1) that by (simp add: ordered_Node)
    then show ?thesis using yx by (rule dir_left)
  qed
  show "ordered (Node l y r')"
    using assms l yx unfolding ordered_Node by simp
  have "key y \<noteq> key x" using assms(3) dir_eq [of "key x" y] by linarith
  then show "\<forall>w\<in>insert y (set_tree l). key w \<noteq> key x"
    using key_differs(2) [OF assms(1,3)] by blast
qed

lemma insert_some:
  "ordered t \<Longrightarrow> rb_insert (dir (key x)) x t = Some t' \<Longrightarrow>
    ordered t' \<and> set_tree t' = insert x (set_tree t) \<and> (\<forall>y\<in>set_tree t. key y \<noteq> key x) \<and>
    mset (inorder t') = add_mset x (mset (inorder t))"
proof (induction t arbitrary: t')
  case Leaf
  then show ?case by (auto simp: ordered_Node)
next
  case (Node l y r)
  have o: "ordered l" "ordered r" using Node(3) by (simp_all add: ordered_Node)
  consider "before x y" | "0 < dir (key x) y" | "dir (key x) y = 0" by linarith
  then show ?case
  proof cases
    case 1
    with Node(4) obtain l' where l': "rb_insert (dir (key x)) x l = Some l'" "t' = Node l' y r"
      by (cases "rb_insert (dir (key x)) x l") simp_all
    have IH: "ordered l'" "set_tree l' = insert x (set_tree l)" "\<forall>y\<in>set_tree l. key y \<noteq> key x"
        "mset (inorder l') = add_mset x (mset (inorder l))"
      using Node.IH(1) [OF o(1) l'(1)] by simp_all
    show ?thesis
      using insert_node_left [OF Node(3) IH(1) 1 IH(2)] IH unfolding l'(2) by (simp add: insert_commute ball_Un)
  next
    case 2
    with Node(4) obtain r' where r': "rb_insert (dir (key x)) x r = Some r'" "t' = Node l y r'"
      by (cases "rb_insert (dir (key x)) x r") simp_all
    have IH: "ordered r'" "set_tree r' = insert x (set_tree r)" "\<forall>y\<in>set_tree r. key y \<noteq> key x"
        "mset (inorder r') = add_mset x (mset (inorder r))"
      using Node.IH(2) [OF o(2) r'(1)] by simp_all
    show ?thesis
      using insert_node_right [OF Node(3) IH(1) 2 IH(2)] IH unfolding r'(2) by (simp add: insert_commute ball_Un)
  qed (use Node(4) in simp)
qed

lemma insert_none: "ordered t \<Longrightarrow> rb_insert (dir (key x)) x t = None \<longleftrightarrow> (\<exists>y\<in>set_tree t. key y = key x)"
proof (induction t)
  case (Node l y r)
  then have o: "ordered l" "ordered r" by (simp_all add: ordered_Node)
  have y: "key y = key x \<longleftrightarrow> dir (key x) y = 0" using dir_eq by blast
  consider "before x y" | "0 < dir (key x) y" | "dir (key x) y = 0" by linarith
  then show ?case
    using Node.IH o y key_differs [OF Node.prems, of "key x"] by cases auto
qed simp

lemma erase_inorder:
  "ordered t \<Longrightarrow> inorder (rb_erase (dir k) t) = filter (\<lambda>x. key x \<noteq> k) (inorder t)"
proof (induction t)
  case (Node l y r)
  then have o: "ordered l" "ordered r" by (simp_all add: ordered_Node)
  have y: "key y = k \<longleftrightarrow> dir k y = 0" using dir_eq by blast
  have all: "filter (\<lambda>x. key x \<noteq> k) (inorder s) = inorder s" if "\<forall>x\<in>set_tree s. key x \<noteq> k" for s
    using that by (simp add: filter_id_conv)
  consider "dir k y < 0" | "0 < dir k y" | "dir k y = 0" by linarith
  then show ?case
    using Node.IH o y key_differs [OF Node.prems, of k] by cases (auto simp: all)
qed simp

lemma erase_ordered: "ordered t \<Longrightarrow> ordered (rb_erase (dir k) t)"
  using erase_inorder [of t k] by (simp add: ordered_def sorted_wrt_filter)

lemma erase_set: "ordered t \<Longrightarrow> set_tree (rb_erase (dir k) t) = {x \<in> set_tree t. key x \<noteq> k}"
  using arg_cong [OF erase_inorder [of t k], of set] by simp

lemma modify_inorder:
  "ordered t \<Longrightarrow> inorder (rb_modify (dir k) f t) = map (\<lambda>x. if key x = k then f x else x) (inorder t)"
proof (induction t)
  case (Node l y r)
  then have o: "ordered l" "ordered r" by (simp_all add: ordered_Node)
  have y: "key y = k \<longleftrightarrow> dir k y = 0" using dir_eq by blast
  have all: "map (\<lambda>x. if key x = k then f x else x) (inorder s) = inorder s"
    if "\<forall>x\<in>set_tree s. key x \<noteq> k" for s
    using that by (intro map_idI) auto
  consider "dir k y < 0" | "0 < dir k y" | "dir k y = 0" by linarith
  then show ?case
    using Node.IH o y key_differs [OF Node.prems, of k] by cases (auto simp: all)
qed simp

lemma before_cong: "key x = key x' \<Longrightarrow> key y = key y' \<Longrightarrow> before x y \<longleftrightarrow> before x' y'"
  by (metis dir_flip)

lemma modify_ordered:
  assumes "ordered t" "\<And>x. key x = k \<Longrightarrow> key (f x) = k"
  shows "ordered (rb_modify (dir k) f t)"
proof -
  have "before (if key x = k then f x else x) (if key y = k then f y else y) \<longleftrightarrow> before x y" for x y
    using assms(2) by (intro before_cong) auto
  then show ?thesis
    using assms(1) unfolding ordered_def modify_inorder [OF assms(1)] sorted_wrt_map by simp
qed

text \<open>A node found splits the order; erasing it or changing it touches nothing else.\<close>

lemma found_split:
  assumes "ordered t" "rb_find (dir k) t = Some d"
  obtains xs ys where "inorder t = xs @ d # ys" "\<forall>x\<in>set xs \<union> set ys. key x \<noteq> k" "key d = k"
    "inorder (rb_erase (dir k) t) = xs @ ys" "\<And>f. inorder (rb_modify (dir k) f t) = xs @ f d # ys"
proof -
  have d: "d \<in> set (inorder t)" "key d = k" using find_iff [OF assms(1)] assms(2) by simp_all
  from d(1) obtain xs ys where xy: "inorder t = xs @ d # ys" by (meson split_list)
  have irr: "\<not> before x x" for x using dir_eq [of "key x" x] by simp
  have "\<forall>x\<in>set xs. before x d" "\<forall>y\<in>set ys. before d y"
    using assms(1) by (simp_all add: ordered_def xy sorted_wrt_append)
  then have ne: "\<forall>x\<in>set xs \<union> set ys. key x \<noteq> k"
    using d(2) irr before_cong by blast
  have id: "filter (\<lambda>x. key x \<noteq> k) zs = zs" "map (\<lambda>x. if key x = k then f x else x) zs = zs"
    if "\<forall>x\<in>set zs. key x \<noteq> k" for zs f
    using that by (simp_all add: filter_id_conv map_idI)
  show ?thesis
  proof (rule that [OF xy ne d(2)])
    show "inorder (rb_erase (dir k) t) = xs @ ys"
      using ne d(2) id by (simp add: erase_inorder [OF assms(1)] xy)
    show "inorder (rb_modify (dir k) f t) = xs @ f d # ys" for f
      using ne d(2) id by (simp add: modify_inorder [OF assms(1)] xy)
  qed
qed

lemma ordered_distinct: "ordered t \<Longrightarrow> distinct (inorder t)"
proof -
  have "sorted_wrt before xs \<Longrightarrow> distinct xs" for xs
  proof (induction xs)
    case (Cons x xs)
    then show ?case using dir_eq [of "key x" x] by auto
  qed simp
  then show "ordered t \<Longrightarrow> distinct (inorder t)" by (simp add: ordered_def)
qed

lemma next_inorder:
  assumes "ordered t" "inorder t = xs @ x # ys"
  shows "rb_next (dir (key x)) up t = (case ys of [] \<Rightarrow> up | y # _ \<Rightarrow> Some y)"
  using assms
proof (induction t arbitrary: up xs ys)
  case (Node l y r)
  have d: "distinct (inorder (Node l y r))" by (rule ordered_distinct [OF Node(3)])
  have x: "x \<in> set_tree (Node l y r)" using arg_cong [OF Node(4), of set] by auto
  then consider "x = y" | "x \<in> set_tree l" | "x \<in> set_tree r" by auto
  then show ?case
  proof cases
    case 1
    have "dir (key x) y = 0" using 1 dir_eq by blast
    moreover have "inorder l @ y # inorder r = xs @ y # ys" using Node(4) 1 by simp
    then have "ys = inorder r"
      using d distinct_split_unique(2) [of "inorder l" y "inorder r" xs ys] by simp
    ultimately show ?thesis by (cases r) (auto simp: rb_first_inorder split: list.split)
  next
    case 2
    then have b: "before x y" using Node(3) by (simp add: ordered_Node)
    from 2 obtain ps qs where pq: "inorder l = ps @ x # qs" by (metis set_inorder split_list)
    have "ps @ x # (qs @ y # inorder r) = xs @ x # ys" using Node(4) pq by simp
    moreover have "distinct (ps @ x # (qs @ y # inorder r))" using d pq by simp
    ultimately have "ys = qs @ y # inorder r" using distinct_split_unique(2) by metis
    then show ?thesis
      using b Node.IH(1) [of ps qs "Some y"] pq Node(3) by (auto simp: ordered_Node split: list.split)
  next
    case 3
    then have "before y x" using Node(3) by (simp add: ordered_Node)
    then have b: "0 < dir (key x) y" by (simp add: dir_flip)
    from 3 obtain ps qs where pq: "inorder r = ps @ x # qs" by (metis set_inorder split_list)
    have "(inorder l @ y # ps) @ x # qs = xs @ x # ys" using Node(4) pq by simp
    moreover have "distinct ((inorder l @ y # ps) @ x # qs)" using d pq by simp
    ultimately have "ys = qs" using distinct_split_unique(2) by metis
    then show ?thesis
      using b Node.IH(2) [of ps qs up] pq Node(3) by (simp add: ordered_Node)
  qed
qed simp

end

end
