(* ===== verification/HashTree.thy ===== *)
theory HashTree
  imports RbTree
begin

text \<open>
  \<open>src/hash-tree.c\<close>: the duplicate blocks of a batch, by digest, and each file's blocks by offset.
  A list of blocks is known by its digest, a block by its file and offset; those stand for the
  pointers. The trees of blocks are fields of the files (\<open>filerec->block_tree\<close>), here one map from
  files to trees beside the tree of lists. Allocations succeed.
\<close>

record file_block =
  b_parent :: digest
  b_file :: nat
  b_loff :: u64

record dupe_blocks_list =
  dl_hash :: digest
  dl_num_elem :: nat
  dl_list :: "file_block list"

record hash_tree =
  ht_root :: "dupe_blocks_list tree"
  num_blocks :: nat
  num_hashes :: nat
  block_tree :: "nat \<Rightarrow> file_block tree"

definition block_dir :: "u64 \<Rightarrow> file_block \<Rightarrow> int" where
  "block_dir loff tmp = (if loff < b_loff tmp then - 1 else if b_loff tmp < loff then 1 else 0)"

definition list_dir :: "digest \<Rightarrow> dupe_blocks_list \<Rightarrow> int" where
  "list_dir digest tmp = memcmp digest (dl_hash tmp)"

definition insert_block_into_filerec :: "hash_tree \<Rightarrow> file_block \<Rightarrow> hash_tree option" where
  "insert_block_into_filerec t b =
    map_option (\<lambda>bt. t\<lparr>block_tree := (block_tree t)(b_file b := bt)\<rparr>)
      (rb_insert (block_dir (b_loff b)) b (block_tree t (b_file b)))"

definition find_filerec_block :: "hash_tree \<Rightarrow> nat \<Rightarrow> u64 \<Rightarrow> file_block option" where
  "find_filerec_block t file loff = rb_find (block_dir loff) (block_tree t file)"

definition insert_block_list :: "hash_tree \<Rightarrow> dupe_blocks_list \<Rightarrow> hash_tree option" where
  "insert_block_list t l =
    map_option (\<lambda>r. t\<lparr>ht_root := r, num_hashes := num_hashes t + 1\<rparr>)
      (rb_insert (list_dir (dl_hash l)) l (ht_root t))"

definition find_block_list :: "hash_tree \<Rightarrow> digest \<Rightarrow> dupe_blocks_list option" where
  "find_block_list t digest = rb_find (list_dir digest) (ht_root t)"

text \<open>\<open>None\<close> is an abort: the file has a block at that offset.\<close>

definition insert_hashed_block :: "hash_tree \<Rightarrow> digest \<Rightarrow> nat \<Rightarrow> u64 \<Rightarrow> hash_tree option" where
  "insert_hashed_block t digest file loff =
    Option.bind
      (case find_block_list t digest of
         Some _ \<Rightarrow> Some t
       | None \<Rightarrow> insert_block_list t \<lparr>dl_hash = digest, dl_num_elem = 0, dl_list = []\<rparr>)
      (\<lambda>t. let e = \<lparr>b_parent = digest, b_file = file, b_loff = loff\<rparr>
           in map_option (\<lambda>t. t\<lparr>ht_root := rb_modify (list_dir digest)
                  (\<lambda>d. d\<lparr>dl_num_elem := dl_num_elem d + 1, dl_list := dl_list d @ [e]\<rparr>) (ht_root t),
                num_blocks := num_blocks t + 1\<rparr>)
                (insert_block_into_filerec t e))"

text \<open>With it, the answer 1 when that was the last block of its list.\<close>

definition remove_hashed_block :: "hash_tree \<Rightarrow> file_block \<Rightarrow> (nat \<times> hash_tree) option" where
  "remove_hashed_block t b =
    (case find_block_list t (b_parent b) of
       None \<Rightarrow> None
     | Some l \<Rightarrow>
         if dl_num_elem l = 0 then None
         else let t = t\<lparr>block_tree := (block_tree t)(b_file b :=
                          rb_erase (block_dir (b_loff b)) (block_tree t (b_file b)))\<rparr>;
                  l = l\<lparr>dl_num_elem := dl_num_elem l - 1, dl_list := remove1 b (dl_list l)\<rparr>
              in if dl_num_elem l = 0
                 then Some (1, t\<lparr>ht_root := rb_erase (list_dir (b_parent b)) (ht_root t),
                                 num_hashes := num_hashes t - 1, num_blocks := num_blocks t - 1\<rparr>)
                 else Some (0, t\<lparr>ht_root := rb_modify (list_dir (b_parent b)) (\<lambda>_. l) (ht_root t),
                                 num_blocks := num_blocks t - 1\<rparr>))"

definition init_hash_tree :: "(nat \<Rightarrow> file_block tree) \<Rightarrow> hash_tree" where
  "init_hash_tree bts = \<lparr>ht_root = Leaf, num_blocks = 0, num_hashes = 0, block_tree = bts\<rparr>"

text \<open>The walk of one list, which stops when the list is gone.\<close>

fun free_list_loop :: "hash_tree \<Rightarrow> file_block list \<Rightarrow> hash_tree option" where
  "free_list_loop t [] = Some t"
| "free_list_loop t (b # bs) =
    (case remove_hashed_block t b of
       None \<Rightarrow> None
     | Some (r, t') \<Rightarrow> if r \<noteq> 0 then Some t' else free_list_loop t' bs)"

fun free_hash_tree :: "nat \<Rightarrow> hash_tree \<Rightarrow> hash_tree option" where
  "free_hash_tree 0 t = None"
| "free_hash_tree (Suc fuel) t =
    (case rb_first (ht_root t) of
       None \<Rightarrow> Some t
     | Some dups \<Rightarrow>
         (case free_list_loop t (dl_list dups) of
            None \<Rightarrow> None
          | Some t' \<Rightarrow> free_hash_tree fuel t'))"

subsection \<open>Both kinds of tree are dictionaries\<close>

interpretation bt: rb_dict block_dir b_loff
  by unfold_locales (auto simp: block_dir_def split: if_split_asm)

interpretation lt: rb_dict list_dir dl_hash
  by unfold_locales (auto simp: list_dir_def memcmp_flip [symmetric] intro: memcmp_trans memcmp_right)

subsection \<open>Well-formed hash trees\<close>

definition list_wf :: "dupe_blocks_list \<Rightarrow> bool" where
  "list_wf l \<longleftrightarrow> dl_num_elem l = length (dl_list l) \<and> dl_list l \<noteq> [] \<and> distinct (dl_list l) \<and>
    (\<forall>b\<in>set (dl_list l). b_parent b = dl_hash l)"

definition all_blocks :: "hash_tree \<Rightarrow> file_block set" where
  "all_blocks t = (\<Union>l\<in>set_tree (ht_root t). set (dl_list l))"

definition ht_wf :: "hash_tree \<Rightarrow> bool" where
  "ht_wf t \<longleftrightarrow> lt.ordered (ht_root t) \<and> num_hashes t = length (inorder (ht_root t)) \<and>
    num_blocks t = sum_list (map dl_num_elem (inorder (ht_root t))) \<and>
    (\<forall>l\<in>set_tree (ht_root t). list_wf l) \<and>
    (\<forall>f. bt.ordered (block_tree t f) \<and> set_tree (block_tree t f) = {b \<in> all_blocks t. b_file b = f})"

text \<open>The tree of lists around the list of a digest: none yet, or one found.\<close>

lemma ht_split:
  assumes "ht_wf t" "find_block_list t digest = Some l"
  obtains xs ys where "inorder (ht_root t) = xs @ l # ys" "\<forall>x\<in>set xs \<union> set ys. dl_hash x \<noteq> digest"
    "dl_hash l = digest" "inorder (rb_erase (list_dir digest) (ht_root t)) = xs @ ys"
    "\<And>f. inorder (rb_modify (list_dir digest) f (ht_root t)) = xs @ f l # ys"
    "set_tree (ht_root t) = insert l (set xs \<union> set ys)"
proof -
  have "lt.ordered (ht_root t)" using assms(1) by (simp add: ht_wf_def)
  then show thesis
    using assms(2) [unfolded find_block_list_def]
  proof (rule lt.found_split)
    fix xs ys assume a: "inorder (ht_root t) = xs @ l # ys" "\<forall>x\<in>set xs \<union> set ys. dl_hash x \<noteq> digest"
      "dl_hash l = digest" "inorder (rb_erase (list_dir digest) (ht_root t)) = xs @ ys"
      "\<And>f. inorder (rb_modify (list_dir digest) f (ht_root t)) = xs @ f l # ys"
    have "set_tree (ht_root t) = insert l (set xs \<union> set ys)"
      using arg_cong [OF a(1), of set] by simp
    with a show thesis by (rule that)
  qed
qed

definition add_block :: "hash_tree \<Rightarrow> digest \<Rightarrow> file_block \<Rightarrow> file_block tree \<Rightarrow> hash_tree" where
  "add_block t digest e bt' = t\<lparr>block_tree := (block_tree t)(b_file e := bt'),
      ht_root := rb_modify (list_dir digest)
        (\<lambda>d. d\<lparr>dl_num_elem := dl_num_elem d + 1, dl_list := dl_list d @ [e]\<rparr>) (ht_root t),
      num_blocks := num_blocks t + 1\<rparr>"

text \<open>Appending a block to a list that is there, and in the tree of its file.\<close>

lemma append_block:
  assumes "lt.ordered (ht_root t)" "num_hashes t = length (inorder (ht_root t))"
    and "num_blocks t = sum_list (map dl_num_elem (inorder (ht_root t)))"
    and "inorder (ht_root t) = xs @ l # ys" "dl_hash l = digest" "\<forall>x\<in>set xs \<union> set ys. dl_hash x \<noteq> digest"
    and "\<And>f. inorder (rb_modify (list_dir digest) f (ht_root t)) = xs @ f l # ys"
    and "\<forall>x\<in>set xs \<union> set ys. list_wf x"
    and "dl_num_elem l = length (dl_list l)" "distinct (dl_list l)" "\<forall>b\<in>set (dl_list l). b_parent b = dl_hash l"
    and "\<forall>f. bt.ordered (block_tree t f) \<and> set_tree (block_tree t f) = {b \<in> all_blocks t. b_file b = f}"
    and "rb_insert (block_dir (b_loff e)) e (block_tree t (b_file e)) = Some bt'" "b_parent e = digest"
  defines "t' \<equiv> add_block t digest e bt'"
  shows "ht_wf t'" "all_blocks t' = insert e (all_blocks t)"
proof -
  define l' where "l' = l\<lparr>dl_num_elem := dl_num_elem l + 1, dl_list := dl_list l @ [e]\<rparr>"
  have io: "inorder (ht_root t') = xs @ l' # ys" using assms(7) by (simp add: t'_def add_block_def l'_def)
  have st: "set_tree (ht_root t) = insert l (set xs \<union> set ys)" "set_tree (ht_root t') = insert l' (set xs \<union> set ys)"
    using arg_cong [OF assms(4), of set] arg_cong [OF io, of set] by simp_all
  show ab: "all_blocks t' = insert e (all_blocks t)"
    unfolding all_blocks_def st by (simp add: l'_def Un_assoc)
  have ob: "bt.ordered (block_tree t (b_file e))" using assms(12) by simp
  note bi = bt.insert_some [OF ob assms(13)]
  have fresh: "e \<notin> all_blocks t"
  proof
    assume "e \<in> all_blocks t"
    then have "e \<in> set_tree (block_tree t (b_file e))" using assms(12) by simp
    then show False using bi by blast
  qed
  have lw: "list_wf l'"
    using assms(5,9-11,14) fresh unfolding list_wf_def all_blocks_def st by (auto simp: l'_def)
  have o': "lt.ordered (ht_root t')"
    using lt.modify_ordered [OF assms(1), of digest "\<lambda>d. d\<lparr>dl_num_elem := dl_num_elem d + 1, dl_list := dl_list d @ [e]\<rparr>"]
    by (simp add: t'_def add_block_def)
  have bts: "bt.ordered (block_tree t' f) \<and> set_tree (block_tree t' f) = {b \<in> all_blocks t'. b_file b = f}" for f
    using bi assms(12) unfolding ab by (auto simp: t'_def add_block_def)
  have nums: "num_hashes t' = num_hashes t" "num_blocks t' = num_blocks t + 1" by (simp_all add: t'_def add_block_def)
  show "ht_wf t'"
    unfolding ht_wf_def io st using o' lw bts assms(2,3,8) by (simp add: nums assms(4) l'_def del: length_inorder)
qed

text \<open>C26: inserting a block either is refused, because its file has one at that offset, or adds exactly
  that block, to the list of its digest and to the tree of its file, with every count right.\<close>

theorem insert_hashed_block_adds:
  assumes "ht_wf t"
  shows "case insert_hashed_block t digest file loff of
      None \<Rightarrow> find_filerec_block t file loff \<noteq> None
    | Some t' \<Rightarrow> find_filerec_block t file loff = None \<and> ht_wf t' \<and>
        all_blocks t' = insert \<lparr>b_parent = digest, b_file = file, b_loff = loff\<rparr> (all_blocks t)"
proof -
  define e where "e = \<lparr>b_parent = digest, b_file = file, b_loff = loff\<rparr>"
  have o: "lt.ordered (ht_root t)" and bts: "\<forall>f. bt.ordered (block_tree t f) \<and>
      set_tree (block_tree t f) = {b \<in> all_blocks t. b_file b = f}"
    using assms by (simp_all add: ht_wf_def)
  have ob: "bt.ordered (block_tree t file)" using bts by simp
  have place: "rb_insert (block_dir loff) e (block_tree t file) = None \<longleftrightarrow> find_filerec_block t file loff \<noteq> None"
    using bt.insert_none [OF ob, of e] bt.find_None [OF ob, of loff]
    by (simp add: e_def find_filerec_block_def)
  show ?thesis
  proof (cases "find_block_list t digest")
    case (Some l)
    then obtain xs ys where s: "inorder (ht_root t) = xs @ l # ys" "\<forall>x\<in>set xs \<union> set ys. dl_hash x \<noteq> digest"
      "dl_hash l = digest" "\<And>f. inorder (rb_modify (list_dir digest) f (ht_root t)) = xs @ f l # ys"
      "set_tree (ht_root t) = insert l (set xs \<union> set ys)"
      by (rule ht_split [OF assms]) (rule that)
    show ?thesis
    proof (cases "rb_insert (block_dir loff) e (block_tree t file)")
      case None
      then have "insert_hashed_block t digest file loff = None"
        using Some by (simp add: insert_hashed_block_def insert_block_into_filerec_def e_def)
      then show ?thesis using place None by simp
    next
      case i: (Some bt')
      have "list_wf l" "\<forall>x\<in>set xs \<union> set ys. list_wf x" using assms s(5) by (simp_all add: ht_wf_def)
      then have lw: "\<forall>x\<in>set xs \<union> set ys. list_wf x" "dl_num_elem l = length (dl_list l)" "distinct (dl_list l)"
          "\<forall>b\<in>set (dl_list l). b_parent b = dl_hash l"
        by (simp_all add: list_wf_def)
      have n: "num_hashes t = length (inorder (ht_root t))"
          "num_blocks t = sum_list (map dl_num_elem (inorder (ht_root t)))"
        using assms by (simp_all only: ht_wf_def)
      have e: "rb_insert (block_dir (b_loff e)) e (block_tree t (b_file e)) = Some bt'" "b_parent e = digest"
        using i by (simp_all add: e_def)
      define t' where "t' = add_block t digest e bt'"
      note ap = append_block [OF o n s(1,3,2,4) lw bts e, folded t'_def]
      have "insert_hashed_block t digest file loff = Some t'"
        using Some e by (simp add: insert_hashed_block_def insert_block_into_filerec_def e_def t'_def add_block_def)
      moreover have "find_filerec_block t file loff = None" using place i by simp
      ultimately show ?thesis using ap by (simp add: e_def)
    qed
  next
    case None
    define l0 where "l0 = \<lparr>dl_hash = digest, dl_num_elem = 0, dl_list = []\<rparr>"
    have "rb_insert (list_dir digest) l0 (ht_root t) \<noteq> None"
      using lt.insert_none [OF o, of l0] lt.find_None [OF o, of digest] None
      by (simp add: l0_def find_block_list_def)
    then obtain r where r: "rb_insert (list_dir (dl_hash l0)) l0 (ht_root t) = Some r"
      by (auto simp: l0_def)
    note ri = lt.insert_some [OF o r]
    define t1 where "t1 = t\<lparr>ht_root := r, num_hashes := num_hashes t + 1\<rparr>"
    have ib: "insert_block_list t l0 = Some t1" using r by (simp add: insert_block_list_def t1_def)
    have o1: "lt.ordered (ht_root t1)" using ri by (simp add: t1_def)
    have "rb_find (list_dir digest) (ht_root t1) = Some l0"
      using lt.find_iff [OF o1] ri by (simp add: t1_def l0_def)
    then obtain xs ys where s: "inorder (ht_root t1) = xs @ l0 # ys" "\<forall>x\<in>set xs \<union> set ys. dl_hash x \<noteq> digest"
        "dl_hash l0 = digest" "inorder (rb_erase (list_dir digest) (ht_root t1)) = xs @ ys"
        "\<And>f. inorder (rb_modify (list_dir digest) f (ht_root t1)) = xs @ f l0 # ys"
      by (rule lt.found_split [OF o1]) (rule that)
    have m: "mset (xs @ ys) = mset (inorder (ht_root t))"
      using ri s(1) by (simp add: t1_def)
    have st: "set xs \<union> set ys = set_tree (ht_root t)" using arg_cong [OF m, of set_mset] by simp
    have len: "length (inorder (ht_root t1)) = Suc (length (inorder (ht_root t)))"
      using mset_eq_length [OF m] s(1) by simp
    have sm: "sum_list (map dl_num_elem (inorder (ht_root t1))) = sum_list (map dl_num_elem (inorder (ht_root t)))"
    proof -
      have "sum_list (map dl_num_elem (xs @ ys)) = sum_list (map dl_num_elem (inorder (ht_root t)))"
        using m by (metis mset_map sum_mset_sum_list)
      then show ?thesis by (simp add: s(1) l0_def)
    qed
    have ab: "all_blocks t1 = all_blocks t"
      using ri by (simp add: all_blocks_def t1_def) (simp add: l0_def)
    have w: "\<forall>x\<in>set xs \<union> set ys. list_wf x" using assms unfolding st by (simp add: ht_wf_def)
    have fields: "block_tree t1 = block_tree t" "num_hashes t1 = num_hashes t + 1" "num_blocks t1 = num_blocks t"
      by (simp_all add: t1_def)
    show ?thesis
    proof (cases "rb_insert (block_dir loff) e (block_tree t file)")
      case n: None
      then have "insert_hashed_block t digest file loff = None"
        using None ib by (simp add: insert_hashed_block_def insert_block_into_filerec_def e_def l0_def fields)
      then show ?thesis using place n by simp
    next
      case i: (Some bt')
      have "num_hashes t1 = length (inorder (ht_root t1))"
        "num_blocks t1 = sum_list (map dl_num_elem (inorder (ht_root t1)))"
        using assms len sm unfolding fields by (simp_all add: ht_wf_def del: length_inorder)
      note n = this
      have lw: "dl_num_elem l0 = length (dl_list l0)" "distinct (dl_list l0)"
          "\<forall>b\<in>set (dl_list l0). b_parent b = dl_hash l0"
        by (simp_all add: l0_def)
      have e: "rb_insert (block_dir (b_loff e)) e (block_tree t1 (b_file e)) = Some bt'" "b_parent e = digest"
        using i by (simp_all add: e_def fields)
      define t' where "t' = add_block t1 digest e bt'"
      note ap = append_block [OF o1 n s(1,3,2,5) w lw bts [folded ab fields(1)] e, folded t'_def]
      have "insert_hashed_block t digest file loff = Some t'"
        using None ib e
        by (simp add: insert_hashed_block_def insert_block_into_filerec_def e_def t'_def add_block_def l0_def)
      moreover have "find_filerec_block t file loff = None" using place i by simp
      ultimately show ?thesis using ap by (simp add: e_def ab)
    qed
  qed
qed

lemma block_at_place:
  assumes "ht_wf t" "b \<in> all_blocks t" "c \<in> all_blocks t" "b_file c = b_file b" "b_loff c = b_loff b"
  shows "c = b"
proof -
  have o: "bt.ordered (block_tree t (b_file b))" using assms(1) by (simp add: ht_wf_def)
  have "b \<in> set_tree (block_tree t (b_file b))" "c \<in> set_tree (block_tree t (b_file b))"
    using assms by (simp_all add: ht_wf_def)
  then have "rb_find (block_dir (b_loff b)) (block_tree t (b_file b)) = Some b"
    "rb_find (block_dir (b_loff b)) (block_tree t (b_file b)) = Some c"
    unfolding bt.find_iff [OF o] using assms(5) by simp_all
  then show ?thesis by simp
qed

lemma file_tree_without:
  assumes "ht_wf t" "b \<in> all_blocks t"
  defines "bts' \<equiv> (block_tree t)(b_file b := rb_erase (block_dir (b_loff b)) (block_tree t (b_file b)))"
  shows "bt.ordered (bts' f) \<and> set_tree (bts' f) = {c \<in> all_blocks t - {b}. b_file c = f}"
proof -
  have o: "bt.ordered (block_tree t f)" and st: "set_tree (block_tree t f) = {c \<in> all_blocks t. b_file c = f}"
    using assms(1) by (simp_all add: ht_wf_def)
  show ?thesis
  proof (cases "f = b_file b")
    case True
    have "set_tree (bts' f) = {c \<in> set_tree (block_tree t f). b_loff c \<noteq> b_loff b}"
      using bt.erase_set [OF o, of "b_loff b"] True by (simp add: bts'_def)
    also have "\<dots> = {c \<in> all_blocks t - {b}. b_file c = f}"
      using block_at_place [OF assms(1,2)] True unfolding st by blast
    finally show ?thesis using bt.erase_ordered [OF o, of "b_loff b"] True by (simp add: bts'_def)
  next
    case False
    have "{c \<in> all_blocks t - {b}. b_file c = f} = {c \<in> all_blocks t. b_file c = f}" using False by blast
    then show ?thesis using o st False by (simp add: bts'_def)
  qed
qed

lemma remove_hashed_block_spec:
  assumes "ht_wf t" "find_block_list t (b_parent b) = Some l" "b \<in> set (dl_list l)"
  shows "\<exists>r t'. remove_hashed_block t b = Some (r, t') \<and> ht_wf t' \<and> all_blocks t' = all_blocks t - {b} \<and>
    (if dl_list l = [b] then r = 1 \<and> num_hashes t' + 1 = num_hashes t
     else r = 0 \<and> num_hashes t' = num_hashes t \<and>
       (\<exists>l'. find_block_list t' (b_parent b) = Some l' \<and> dl_list l' = remove1 b (dl_list l)))"
proof -
  obtain xs ys where s: "inorder (ht_root t) = xs @ l # ys" "\<forall>x\<in>set xs \<union> set ys. dl_hash x \<noteq> b_parent b"
    "dl_hash l = b_parent b" "inorder (rb_erase (list_dir (b_parent b)) (ht_root t)) = xs @ ys"
    "\<And>f. inorder (rb_modify (list_dir (b_parent b)) f (ht_root t)) = xs @ f l # ys"
    "set_tree (ht_root t) = insert l (set xs \<union> set ys)"
    by (rule ht_split [OF assms(1,2)]) (rule that)
  have o: "lt.ordered (ht_root t)" using assms(1) by (simp add: ht_wf_def)
  have "\<forall>x\<in>set_tree (ht_root t). list_wf x" using assms(1) unfolding ht_wf_def by blast
  then have w: "\<forall>x\<in>set xs \<union> set ys. list_wf x" "list_wf l" unfolding s(6) by simp_all
  have "num_hashes t = length (xs @ l # ys)" "num_blocks t = sum_list (map dl_num_elem (xs @ l # ys))"
    using assms(1) unfolding ht_wf_def s(1) by blast+
  then have n: "num_hashes t = Suc (length xs + length ys)"
      "num_blocks t = sum_list (map dl_num_elem xs) + dl_num_elem l + sum_list (map dl_num_elem ys)"
    by simp_all
  have pos: "0 < dl_num_elem l" using w(2) by (simp add: list_wf_def)
  define bts' where "bts' = (block_tree t)(b_file b := rb_erase (block_dir (b_loff b)) (block_tree t (b_file b)))"
  have others: "b \<notin> set (dl_list x)" if "x \<in> set xs \<union> set ys" for x
  proof
    assume b: "b \<in> set (dl_list x)"
    have "list_wf x" using that w(1) by blast
    then have "dl_hash x = b_parent b" using b by (simp add: list_wf_def)
    then show False using that s(2) by blast
  qed
  have bin: "b \<in> all_blocks t" using assms(3) by (auto simp: all_blocks_def s(6))
  note new_bts = file_tree_without [OF assms(1) bin, folded bts'_def]
  show ?thesis
  proof (cases "dl_list l = [b]")
    case True
    then have one: "dl_num_elem l = 1" using w(2) by (simp add: list_wf_def)
    define t' where "t' = t\<lparr>block_tree := bts', ht_root := rb_erase (list_dir (b_parent b)) (ht_root t),
      num_hashes := num_hashes t - 1, num_blocks := num_blocks t - 1\<rparr>"
    have r: "remove_hashed_block t b = Some (1, t')"
      using assms(2) one by (simp add: remove_hashed_block_def Let_def t'_def bts'_def)
    have io: "inorder (ht_root t') = xs @ ys" using s(4) by (simp add: t'_def)
    have st: "set_tree (ht_root t') = set xs \<union> set ys" using arg_cong [OF io, of set] by simp
    have ab: "all_blocks t' = all_blocks t - {b}"
      unfolding all_blocks_def st s(6) using others True by auto
    have f: "num_hashes t' = num_hashes t - 1" "num_blocks t' = num_blocks t - 1" "block_tree t' = bts'"
      by (simp_all add: t'_def)
    have "lt.ordered (ht_root t')" using lt.erase_ordered [OF o] by (simp add: t'_def)
    then have "ht_wf t'"
      unfolding ht_wf_def io st f using w n one new_bts by (simp add: ab)
    then show ?thesis using r ab True f n by simp
  next
    case False
    define l' where "l' = l\<lparr>dl_num_elem := dl_num_elem l - 1, dl_list := remove1 b (dl_list l)\<rparr>"
    have lw: "list_wf l'"
    proof -
      obtain c cs where c: "dl_list l = c # cs" using assms(3) by (cases "dl_list l") simp_all
      have "remove1 b (c # cs) \<noteq> []" using False assms(3) unfolding c by (cases "c = b") simp_all
      then have "remove1 b (dl_list l) \<noteq> []" unfolding c .
      then show ?thesis
        using w(2) assms(3) set_remove1_subset [of b "dl_list l"] by (auto simp: list_wf_def l'_def length_remove1)
    qed
    have pos': "dl_num_elem l' \<noteq> 0" "dl_num_elem l' = dl_num_elem l - 1" using lw by (auto simp: list_wf_def l'_def)
    define t' where "t' = t\<lparr>block_tree := bts', ht_root := rb_modify (list_dir (b_parent b)) (\<lambda>_. l') (ht_root t),
      num_blocks := num_blocks t - 1\<rparr>"
    have r: "remove_hashed_block t b = Some (0, t')"
      using assms(2) pos pos' by (simp add: remove_hashed_block_def Let_def t'_def bts'_def l'_def)
    have io: "inorder (ht_root t') = xs @ l' # ys" using s(5) by (simp add: t'_def)
    have st: "set_tree (ht_root t') = insert l' (set xs \<union> set ys)" using arg_cong [OF io, of set] by simp
    have ab: "all_blocks t' = all_blocks t - {b}"
    proof -
      have "distinct (dl_list l)" using w(2) by (simp add: list_wf_def)
      then have "set (dl_list l') = set (dl_list l) - {b}" by (simp add: l'_def)
      then show ?thesis unfolding all_blocks_def st s(6) using others by auto
    qed
    have f: "num_hashes t' = num_hashes t" "num_blocks t' = num_blocks t - 1" "block_tree t' = bts'"
      by (simp_all add: t'_def)
    have o': "lt.ordered (ht_root t')"
      using lt.modify_ordered [OF o, of "b_parent b" "\<lambda>_. l'"] s(3) by (simp add: t'_def l'_def)
    then have "ht_wf t'"
      unfolding ht_wf_def io st f using w n pos pos' lw new_bts by (simp add: ab)
    moreover have "find_block_list t' (b_parent b) = Some l'"
      unfolding find_block_list_def lt.find_iff [OF o'] st by (simp add: l'_def s(3))
    moreover have "dl_list l' = remove1 b (dl_list l)" by (simp add: l'_def)
    ultimately show ?thesis using r ab False f by (intro exI [of _ 0] exI [of _ t']) simp
  qed
qed

lemma ht_find_of_block:
  assumes "ht_wf t" "b \<in> all_blocks t"
  obtains l where "find_block_list t (b_parent b) = Some l" "b \<in> set (dl_list l)"
proof -
  from assms(2) obtain l where l: "l \<in> set_tree (ht_root t)" "b \<in> set (dl_list l)" by (auto simp: all_blocks_def)
  then have "dl_hash l = b_parent b" using assms(1) by (auto simp: ht_wf_def list_wf_def)
  then have "find_block_list t (b_parent b) = Some l"
    using l(1) assms(1) lt.find_iff [of "ht_root t" "b_parent b" l] by (simp add: find_block_list_def ht_wf_def)
  then show thesis using l(2) by (rule that)
qed

text \<open>Removing a block undoes its insertion: exactly it is gone, from its digest's list and from its
  file's tree, the counts are right, and no list is left empty.\<close>

theorem remove_hashed_block_removes:
  assumes "ht_wf t" "b \<in> all_blocks t"
  shows "\<exists>r t'. remove_hashed_block t b = Some (r, t') \<and> ht_wf t' \<and> all_blocks t' = all_blocks t - {b} \<and>
    find_filerec_block t' (b_file b) (b_loff b) = None"
proof -
  obtain l where l: "find_block_list t (b_parent b) = Some l" "b \<in> set (dl_list l)"
    by (rule ht_find_of_block [OF assms])
  obtain r t' where r: "remove_hashed_block t b = Some (r, t')" "ht_wf t'" "all_blocks t' = all_blocks t - {b}"
    using remove_hashed_block_spec [OF assms(1) l] by blast
  have o: "bt.ordered (block_tree t (b_file b))" "bt.ordered (block_tree t' (b_file b))"
    using assms(1) r(2) by (simp_all add: ht_wf_def)
  have "b_loff c \<noteq> b_loff b" if "c \<in> set_tree (block_tree t' (b_file b))" for c
  proof
    assume eq: "b_loff c = b_loff b"
    have c: "c \<in> all_blocks t" "b_file c = b_file b" "c \<noteq> b"
      using that r(2,3) by (simp_all add: ht_wf_def)
    then have "rb_find (block_dir (b_loff b)) (block_tree t (b_file b)) = Some c"
      "rb_find (block_dir (b_loff b)) (block_tree t (b_file b)) = Some b"
      using assms eq bt.find_iff [OF o(1)] by (simp_all add: ht_wf_def)
    then show False using c(3) by simp
  qed
  then have "find_filerec_block t' (b_file b) (b_loff b) = None"
    unfolding find_filerec_block_def bt.find_None [OF o(2)] by blast
  then show ?thesis using r by blast
qed

lemma init_hash_wf: "ht_wf (init_hash_tree (\<lambda>_. Leaf))" "all_blocks (init_hash_tree (\<lambda>_. Leaf)) = {}"
  by (simp_all add: ht_wf_def init_hash_tree_def all_blocks_def)

definition two_blocks :: hash_tree where
  "two_blocks = the (Option.bind (insert_hashed_block (init_hash_tree (\<lambda>_. Leaf)) [1] 7 0)
     (\<lambda>t. insert_hashed_block t [1] 8 4096))"

lemma two_blocks_eq:
  "two_blocks = \<lparr>ht_root = Node Leaf \<lparr>dl_hash = [1], dl_num_elem = 2, dl_list =
       [\<lparr>b_parent = [1], b_file = 7, b_loff = 0\<rparr>, \<lparr>b_parent = [1], b_file = 8, b_loff = 4096\<rparr>]\<rparr> Leaf,
     num_blocks = 2, num_hashes = 1,
     block_tree = (\<lambda>_. Leaf)(7 := Node Leaf \<lparr>b_parent = [1], b_file = 7, b_loff = 0\<rparr> Leaf,
       8 := Node Leaf \<lparr>b_parent = [1], b_file = 8, b_loff = 4096\<rparr> Leaf)\<rparr>"
  by (simp add: two_blocks_def init_hash_tree_def insert_hashed_block_def find_block_list_def
      insert_block_list_def insert_block_into_filerec_def list_dir_def block_dir_def Let_def)

lemma two_blocks_wf: "ht_wf two_blocks"
  by (auto simp: two_blocks_eq ht_wf_def list_wf_def all_blocks_def lt.ordered_Node bt.ordered_Node)

theorem remove_hashed_block_removes_witness:
  "\<exists>r t'. remove_hashed_block two_blocks \<lparr>b_parent = [1], b_file = 8, b_loff = 4096\<rparr> = Some (r, t') \<and>
    all_blocks t' = {\<lparr>b_parent = [1], b_file = 7, b_loff = 0\<rparr>}"
proof -
  let ?b = "\<lparr>b_parent = [1], b_file = 8, b_loff = 4096\<rparr>"
  have "all_blocks two_blocks = {\<lparr>b_parent = [1], b_file = 7, b_loff = 0\<rparr>, ?b}"
    by (simp add: two_blocks_eq all_blocks_def)
  then show ?thesis using remove_hashed_block_removes [OF two_blocks_wf, of ?b] by auto
qed

theorem insert_hashed_block_adds_witness:
  "insert_hashed_block two_blocks [2] 7 0 = None"
  using insert_hashed_block_adds [OF two_blocks_wf, of 7 0 "[2]"]
  by (auto simp: find_filerec_block_def two_blocks_eq block_dir_def split: option.splits)

subsection \<open>Freeing the tree\<close>

lemma free_list_loop_spec:
  assumes "ht_wf t" "find_block_list t d = Some l" "dl_list l = bs" "bs \<noteq> []"
  shows "\<exists>t'. free_list_loop t bs = Some t' \<and> ht_wf t' \<and> num_hashes t' + 1 = num_hashes t"
  using assms
proof (induction bs arbitrary: t l)
  case (Cons b bs)
  have "dl_hash l = d" "list_wf l"
    using Cons(2,3) lt.find_key [of d "ht_root t" l] by (auto simp: find_block_list_def ht_wf_def)
  then have d: "d = b_parent b" using Cons(4) by (simp add: list_wf_def)
  have "b \<in> set (dl_list l)" using Cons(4) by simp
  then obtain r t' where r: "remove_hashed_block t b = Some (r, t')" "ht_wf t'"
    "if dl_list l = [b] then r = 1 \<and> num_hashes t' + 1 = num_hashes t
     else r = 0 \<and> num_hashes t' = num_hashes t \<and>
       (\<exists>l'. find_block_list t' (b_parent b) = Some l' \<and> dl_list l' = remove1 b (dl_list l))"
    using remove_hashed_block_spec [OF Cons(2) Cons(3) [unfolded d]] by blast
  show ?case
  proof (cases "bs = []")
    case True
    then show ?thesis using r Cons(4) by simp
  next
    case False
    then obtain l' where l': "find_block_list t' d = Some l'" "dl_list l' = bs" "r = 0" "num_hashes t' = num_hashes t"
      using r(3) Cons(4) d by auto
    then show ?thesis using Cons(1) [OF r(2) l'(1,2) False] r(1) by simp
  qed
qed simp

text \<open>Freeing the hash tree ends with nothing left in it, and no block left in any file's tree.\<close>

theorem free_hash_tree_empties:
  assumes "ht_wf t" "num_hashes t < fuel"
  shows "\<exists>t'. free_hash_tree fuel t = Some t' \<and> ht_root t' = Leaf \<and> num_blocks t' = 0 \<and> num_hashes t' = 0 \<and>
    (\<forall>f. block_tree t' f = Leaf)"
  using assms
proof (induction fuel arbitrary: t)
  case (Suc fuel)
  show ?case
  proof (cases "rb_first (ht_root t)")
    case None
    then have "ht_root t = Leaf" by simp
    then have "block_tree t f = Leaf" for f
      using Suc(2) by (auto simp: ht_wf_def all_blocks_def)
    then show ?thesis using Suc(2) None by (simp add: ht_wf_def)
  next
    case (Some l)
    have o: "lt.ordered (ht_root t)" "list_wf l"
      using Suc(2) rb_first_in [OF Some] by (auto simp: ht_wf_def)
    have "find_block_list t (dl_hash l) = Some l"
      using rb_first_in [OF Some] lt.find_iff [OF o(1)] by (simp add: find_block_list_def)
    moreover have "dl_list l \<noteq> []" using o(2) by (simp add: list_wf_def)
    ultimately obtain t' where "free_list_loop t (dl_list l) = Some t'" "ht_wf t'" "num_hashes t' + 1 = num_hashes t"
      using free_list_loop_spec [OF Suc(2) _ refl] by blast
    then show ?thesis using Some Suc(1) [of t'] Suc(3) by simp
  qed
qed simp

theorem free_hash_tree_empties_witness:
  "\<exists>t'. free_hash_tree 2 two_blocks = Some t' \<and> ht_root t' = Leaf"
  using free_hash_tree_empties [OF two_blocks_wf, of 2] by (auto simp: two_blocks_eq)

end
