(* ===== verification/ResultsTree.thy ===== *)
theory ResultsTree
  imports RbTree
begin

text \<open>
  \<open>src/results-tree.c\<close>: the groups of duplicate extents. A group is known by its length and digest,
  an extent within it by its file and offset; those are what the pointers of the code stand for. A
  file is a number, its address, by which the code orders extents. The tree of a group's extents
  serves to find duplicates and a first member, so it holds places; the list holds the extents.
  Allocations succeed. Other threads may change the tree where the code does not hold its mutex,
  between the two lookups of \<open>find_alloc_dext\<close>: \<open>other\<close> is what they do there.
\<close>

type_synonym place = "nat \<times> u64"

record extent =
  e_loff :: u64
  e_file :: nat
  e_poff :: u64
  e_plen :: u64
  e_shared_bytes :: u64

record dupe_extents =
  de_num_dupes :: nat
  de_len :: u64
  de_hash :: digest
  de_extents :: "extent list"
  de_extents_root :: "place tree"

record results_tree =
  rt_root :: "dupe_extents tree"
  num_dupes :: nat
  num_extents :: nat

type_synonym group_id = "u64 \<times> digest"

abbreviation place_of :: "extent \<Rightarrow> place" where "place_of e \<equiv> (e_file e, e_loff e)"
abbreviation group_of :: "dupe_extents \<Rightarrow> group_id" where "group_of d \<equiv> (de_len d, de_hash d)"

definition dext_work :: "dupe_extents \<Rightarrow> u64" where
  "dext_work d = de_len d * of_nat (de_num_dupes d - 1)"

definition alloc_extent :: "nat \<Rightarrow> u64 \<Rightarrow> extent" where
  "alloc_extent file loff = \<lparr>e_loff = loff, e_file = file, e_poff = 0, e_plen = 0, e_shared_bytes = 0\<rparr>"

definition extents_rb_cmp :: "place \<Rightarrow> place \<Rightarrow> int" where
  "extents_rb_cmp e1 e2 =
    (if fst e2 < fst e1 then - 1 else if fst e1 < fst e2 then 1
     else if snd e2 < snd e1 then - 1 else if snd e1 < snd e2 then 1 else 0)"

text \<open>The descent compares the node with the new extent: below zero, it goes left.\<close>

definition extent_dir :: "place \<Rightarrow> place \<Rightarrow> int" where
  "extent_dir e tmp = extents_rb_cmp tmp e"

definition insert_extent_rb :: "dupe_extents \<Rightarrow> extent \<Rightarrow> dupe_extents option" where
  "insert_extent_rb d e =
    map_option (\<lambda>t. d\<lparr>de_extents_root := t\<rparr>)
      (rb_insert (extent_dir (place_of e)) (place_of e) (de_extents_root d))"

definition dext_dir :: "group_id \<Rightarrow> dupe_extents \<Rightarrow> int" where
  "dext_dir g tmp =
    (if fst g < de_len tmp then - 1 else if de_len tmp < fst g then 1
     else memcmp (snd g) (de_hash tmp))"

text \<open>\<open>None\<close> is the abort on a duplicate.\<close>

definition insert_dupe_extents :: "results_tree \<Rightarrow> dupe_extents \<Rightarrow> results_tree option" where
  "insert_dupe_extents res d =
    map_option (\<lambda>t. res\<lparr>num_dupes := num_dupes res + 1, rt_root := t\<rparr>)
      (rb_insert (dext_dir (group_of d)) d (rt_root res))"

definition find_dupe_extents :: "results_tree \<Rightarrow> digest \<Rightarrow> u64 \<Rightarrow> dupe_extents option" where
  "find_dupe_extents res digest len = rb_find (dext_dir (len, digest)) (rt_root res)"

text \<open>With it, whether the extent went in rather than being freed as a duplicate.\<close>

definition insert_extent_list_free :: "dupe_extents \<Rightarrow> extent \<Rightarrow> dupe_extents \<times> bool" where
  "insert_extent_list_free d e =
    (case insert_extent_rb d e of
       Some d' \<Rightarrow> (d'\<lparr>de_num_dupes := de_num_dupes d + 1, de_extents := de_extents d @ [e]\<rparr>, True)
     | None \<Rightarrow> (d, False))"

definition dupe_extents_new :: "digest \<Rightarrow> u64 \<Rightarrow> dupe_extents" where
  "dupe_extents_new digest len =
    \<lparr>de_num_dupes = 0, de_len = len, de_hash = digest, de_extents = [], de_extents_root = Leaf\<rparr>"

definition find_alloc_dext ::
  "(results_tree \<Rightarrow> results_tree) \<Rightarrow> results_tree \<Rightarrow> digest \<Rightarrow> u64 \<Rightarrow> results_tree option" where
  "find_alloc_dext other res digest len =
    (case find_dupe_extents res digest len of
       Some _ \<Rightarrow> Some res
     | None \<Rightarrow>
         let res = other res
         in case find_dupe_extents res digest len of
              Some _ \<Rightarrow> Some res
            | None \<Rightarrow> insert_dupe_extents res (dupe_extents_new digest len))"

definition insert_into_group :: "results_tree \<Rightarrow> digest \<Rightarrow> u64 \<Rightarrow> extent \<Rightarrow> results_tree" where
  "insert_into_group res digest len e =
    (case find_dupe_extents res digest len of
       None \<Rightarrow> res
     | Some d \<Rightarrow>
         res\<lparr>rt_root := rb_modify (dext_dir (len, digest)) (\<lambda>d. fst (insert_extent_list_free d e)) (rt_root res),
             num_extents := num_extents res + (if snd (insert_extent_list_free d e) then 1 else 0)\<rparr>)"

definition insert_one_result ::
  "(results_tree \<Rightarrow> results_tree) \<Rightarrow> results_tree \<Rightarrow> digest \<Rightarrow> nat \<Rightarrow> u64 \<Rightarrow> u64 \<Rightarrow> u64 \<Rightarrow> results_tree option" where
  "insert_one_result other res digest file startoff len poff =
    (let e = (alloc_extent file startoff)\<lparr>e_poff := poff, e_plen := len, e_shared_bytes := 0\<rparr>
     in map_option (\<lambda>res. insert_into_group res digest len e) (find_alloc_dext other res digest len))"

definition insert_result ::
  "(results_tree \<Rightarrow> results_tree) \<Rightarrow> results_tree \<Rightarrow> digest \<Rightarrow> nat \<times> nat \<Rightarrow> u64 \<times> u64 \<Rightarrow> u64 \<times> u64 \<Rightarrow>
     results_tree option" where
  "insert_result other res digest recs startoff endoff =
    (let e0 = alloc_extent (fst recs) (fst startoff);
         e1 = alloc_extent (snd recs) (snd startoff);
         len = fst endoff - fst startoff + 1
     in map_option (\<lambda>res. insert_into_group (insert_into_group res digest len e0) digest len e1)
          (find_alloc_dext other res digest len))"

text \<open>
  \<open>remove_extent\<close> on the group: take the extent out, and the last one too when one would be left.
  The results are the count that is left, the number taken out and the group. \<open>None\<close> is the abort.
\<close>

function remove_loop :: "dupe_extents \<Rightarrow> place \<Rightarrow> nat \<Rightarrow> (nat \<times> nat \<times> dupe_extents) option" where
  "remove_loop p extent taken =
    (let n = de_num_dupes p - 1;
         p' = p\<lparr>de_num_dupes := n,
                de_extents := filter (\<lambda>e. place_of e \<noteq> extent) (de_extents p),
                de_extents_root := rb_erase (extent_dir extent) (de_extents_root p)\<rparr>
     in if n = 1
        then (case rb_first (de_extents_root p') of
                None \<Rightarrow> None
              | Some extent' \<Rightarrow> remove_loop p' extent' (taken + 1))
        else Some (n, taken + 1, p'))"
  by pat_completeness auto
termination by (relation "measure (\<lambda>(p, _, _). de_num_dupes p)") auto

declare remove_loop.simps [simp del]

definition remove_extent :: "results_tree \<Rightarrow> group_id \<Rightarrow> place \<Rightarrow> (nat \<times> results_tree) option" where
  "remove_extent res g extent =
    (case rb_find (dext_dir g) (rt_root res) of
       None \<Rightarrow> None
     | Some p \<Rightarrow>
         (case remove_loop p extent 0 of
            None \<Rightarrow> None
          | Some (result, taken, p') \<Rightarrow>
              Some (result,
                if de_num_dupes p' = 0
                then res\<lparr>num_extents := num_extents res - taken, num_dupes := num_dupes res - 1,
                         rt_root := rb_erase (dext_dir g) (rt_root res)\<rparr>
                else res\<lparr>num_extents := num_extents res - taken,
                         rt_root := rb_modify (dext_dir g) (\<lambda>_. p') (rt_root res)\<rparr>)))"

definition init_results_tree :: results_tree where
  "init_results_tree = \<lparr>rt_root = Leaf, num_dupes = 0, num_extents = 0\<rparr>"

text \<open>Both frees run until nothing is left; \<open>None\<close> is also running out of fuel.\<close>

fun dupe_extents_free :: "nat \<Rightarrow> group_id \<Rightarrow> results_tree \<Rightarrow> results_tree option" where
  "dupe_extents_free 0 g res = None"
| "dupe_extents_free (Suc fuel) g res =
    (case rb_find (dext_dir g) (rt_root res) of
       None \<Rightarrow> None
     | Some d \<Rightarrow>
         (case rb_first (de_extents_root d) of
            None \<Rightarrow> None
          | Some extent \<Rightarrow>
              (case remove_extent res g extent of
                 None \<Rightarrow> None
               | Some (cnt, res') \<Rightarrow> if 0 < cnt then dupe_extents_free fuel g res' else Some res')))"

fun free_results_tree :: "nat \<Rightarrow> results_tree \<Rightarrow> results_tree option" where
  "free_results_tree 0 res = None"
| "free_results_tree (Suc fuel) res =
    (case rb_first (rt_root res) of
       None \<Rightarrow> Some res
     | Some de \<Rightarrow>
         (case dupe_extents_free (Suc (de_num_dupes de)) (group_of de) res of
            None \<Rightarrow> None
          | Some res' \<Rightarrow> free_results_tree fuel res'))"

subsection \<open>Both trees are dictionaries\<close>

interpretation ext: rb_dict extent_dir "\<lambda>e. e"
  by unfold_locales (auto simp: extent_dir_def extents_rb_cmp_def prod_eq_iff split: if_split_asm)

interpretation dx: rb_dict dext_dir group_of
proof unfold_locales
  show "dext_dir k x = 0 \<longleftrightarrow> group_of x = k" for k x
    by (auto simp: dext_dir_def prod_eq_iff)
  show "dext_dir k y < 0" if "dext_dir k x < 0" "dext_dir (group_of x) y < 0" for k x y
    using that by (auto simp: dext_dir_def split: if_split_asm intro: memcmp_trans)
  show "0 < dext_dir k x" if "0 < dext_dir k y" "dext_dir (group_of x) y < 0" for k x y
    using that by (auto simp: dext_dir_def split: if_split_asm intro: memcmp_right)
  show "0 < dext_dir (group_of x) y \<longleftrightarrow> dext_dir (group_of y) x < 0" for x y
    by (auto simp: dext_dir_def memcmp_flip)
qed

subsection \<open>Well-formed trees of results\<close>

definition dext_wf :: "dupe_extents \<Rightarrow> bool" where
  "dext_wf d \<longleftrightarrow> de_num_dupes d = length (de_extents d) \<and> ext.ordered (de_extents_root d) \<and>
    mset (inorder (de_extents_root d)) = mset (map place_of (de_extents d))"

definition rt_wf :: "results_tree \<Rightarrow> bool" where
  "rt_wf res \<longleftrightarrow> dx.ordered (rt_root res) \<and> num_dupes res = length (inorder (rt_root res)) \<and>
    num_extents res = sum_list (map de_num_dupes (inorder (rt_root res))) \<and>
    (\<forall>d\<in>set_tree (rt_root res). dext_wf d)"

text \<open>Two or more places, as every group that dedupe acts on, or at least one.\<close>

definition no_empty :: "results_tree \<Rightarrow> bool" where
  "no_empty res \<longleftrightarrow> (\<forall>d\<in>set_tree (rt_root res). 0 < de_num_dupes d)"

text \<open>The abstract view: which place is in which group.\<close>

definition members :: "results_tree \<Rightarrow> (group_id \<times> place) set" where
  "members res = (\<Union>d\<in>set_tree (rt_root res). Pair (group_of d) ` set_tree (de_extents_root d))"

lemma dext_wf_count: "dext_wf d \<Longrightarrow> length (inorder (de_extents_root d)) = de_num_dupes d"
  by (auto simp: dext_wf_def dest: arg_cong [where f = size])

lemma set_inorder_split: "inorder t = xs @ d # ys \<Longrightarrow> set_tree t = insert d (set xs \<union> set ys)"
  by (simp flip: set_inorder)

lemma insert_extent_spec:
  assumes "dext_wf d"
  shows "group_of (fst (insert_extent_list_free d e)) = group_of d"
    "dext_wf (fst (insert_extent_list_free d e))"
    "set_tree (de_extents_root (fst (insert_extent_list_free d e))) =
      insert (place_of e) (set_tree (de_extents_root d))"
    "de_num_dupes (fst (insert_extent_list_free d e)) =
      de_num_dupes d + (if snd (insert_extent_list_free d e) then 1 else 0)"
    "0 < de_num_dupes (fst (insert_extent_list_free d e))"
proof -
  have o: "ext.ordered (de_extents_root d)" using assms by (simp add: dext_wf_def)
  have "group_of (fst (insert_extent_list_free d e)) = group_of d \<and>
    dext_wf (fst (insert_extent_list_free d e)) \<and>
    set_tree (de_extents_root (fst (insert_extent_list_free d e))) =
      insert (place_of e) (set_tree (de_extents_root d)) \<and>
    de_num_dupes (fst (insert_extent_list_free d e)) =
      de_num_dupes d + (if snd (insert_extent_list_free d e) then 1 else 0)"
  proof (cases "rb_insert (extent_dir (place_of e)) (place_of e) (de_extents_root d)")
    case None
    then have "place_of e \<in> set_tree (de_extents_root d)"
      using ext.insert_none [OF o, of "place_of e"] by blast
    with None assms show ?thesis
      by (simp add: insert_extent_list_free_def insert_extent_rb_def insert_absorb)
  next
    case (Some t)
    have "ext.ordered t" "set_tree t = insert (place_of e) (set_tree (de_extents_root d))"
      "mset (inorder t) = add_mset (place_of e) (mset (inorder (de_extents_root d)))"
      using ext.insert_some [OF o, of "place_of e" t] Some by simp_all
    with Some assms show ?thesis
      by (simp add: insert_extent_list_free_def insert_extent_rb_def dext_wf_def)
  qed
  then show "group_of (fst (insert_extent_list_free d e)) = group_of d"
    "dext_wf (fst (insert_extent_list_free d e))"
    "set_tree (de_extents_root (fst (insert_extent_list_free d e))) =
      insert (place_of e) (set_tree (de_extents_root d))"
    "de_num_dupes (fst (insert_extent_list_free d e)) =
      de_num_dupes d + (if snd (insert_extent_list_free d e) then 1 else 0)"
    by simp_all
  then have "length (inorder (de_extents_root (fst (insert_extent_list_free d e)))) =
      de_num_dupes (fst (insert_extent_list_free d e))"
    by (intro dext_wf_count)
  moreover have "inorder (de_extents_root (fst (insert_extent_list_free d e))) \<noteq> []"
    using \<open>set_tree (de_extents_root (fst (insert_extent_list_free d e))) = _\<close>
    by (auto simp flip: set_inorder)
  ultimately show "0 < de_num_dupes (fst (insert_extent_list_free d e))" by (cases "inorder (de_extents_root (fst (insert_extent_list_free d e)))") simp_all
qed

lemma insert_into_group_spec:
  fixes e :: extent
  assumes "rt_wf res" "find_dupe_extents res digest len = Some d"
  defines "res' \<equiv> insert_into_group res digest len e"
  shows "rt_wf res'" "members res' = insert ((len, digest), place_of e) (members res)"
    "find_dupe_extents res' digest len \<noteq> None"
    "(\<forall>x\<in>set_tree (rt_root res). group_of x \<noteq> (len, digest) \<longrightarrow> 0 < de_num_dupes x) \<Longrightarrow> no_empty res'"
proof -
  have o: "dx.ordered (rt_root res)" using assms(1) by (simp add: rt_wf_def)
  obtain xs ys where s: "inorder (rt_root res) = xs @ d # ys"
      "\<forall>x\<in>set xs \<union> set ys. group_of x \<noteq> (len, digest)" "group_of d = (len, digest)"
      "inorder (rb_erase (dext_dir (len, digest)) (rt_root res)) = xs @ ys"
      "\<And>f. inorder (rb_modify (dext_dir (len, digest)) f (rt_root res)) = xs @ f d # ys"
    by (rule dx.found_split [OF o assms(2) [unfolded find_dupe_extents_def]]) (rule that)
  define d' where "d' = fst (insert_extent_list_free d e)"
  have wd: "dext_wf d" using assms(1) s(1) by (simp add: rt_wf_def set_inorder_split)
  note sp = insert_extent_spec [OF wd, of e, folded d'_def]
  have r': "inorder (rt_root res') = xs @ d' # ys"
    "num_extents res' = num_extents res + (if snd (insert_extent_list_free d e) then 1 else 0)"
    "num_dupes res' = num_dupes res"
    "rt_root res' = rb_modify (dext_dir (len, digest)) (\<lambda>d. fst (insert_extent_list_free d e)) (rt_root res)"
    using assms(2) s(5) by (simp_all add: res'_def insert_into_group_def d'_def)
  note t = set_inorder_split [OF s(1)] and t' = set_inorder_split [OF r'(1)]
  have o': "dx.ordered (rt_root res')"
    unfolding r'(4) by (rule dx.modify_ordered [OF o])
      (auto simp: insert_extent_list_free_def insert_extent_rb_def split: option.split)
  show "rt_wf res'"
    using assms(1) o' sp(2,4) by (auto simp: rt_wf_def r'(1-3) s(1) t t')
  show "members res' = insert ((len, digest), place_of e) (members res)"
    using sp(1,3) s(3) unfolding members_def t t' by (simp add: Un_assoc insert_commute)
  have "d' \<in> set_tree (rt_root res')" "group_of d' = (len, digest)" using sp(1) s(3) by (simp_all add: t')
  then show "find_dupe_extents res' digest len \<noteq> None"
    unfolding find_dupe_extents_def dx.find_None [OF o'] by blast
  show "no_empty res'"
    if "\<forall>x\<in>set_tree (rt_root res). group_of x \<noteq> (len, digest) \<longrightarrow> 0 < de_num_dupes x"
    using that s(2) sp(5) by (auto simp: no_empty_def t t')
qed

lemma find_dupe_None:
  "dx.ordered (rt_root res) \<Longrightarrow>
    find_dupe_extents res digest len = None \<longleftrightarrow> (\<forall>d\<in>set_tree (rt_root res). group_of d \<noteq> (len, digest))"
  unfolding find_dupe_extents_def by (rule dx.find_None)

lemma insert_new_group:
  assumes "rt_wf res" "find_dupe_extents res digest len = None"
  obtains res' where "insert_dupe_extents res (dupe_extents_new digest len) = Some res'" "rt_wf res'"
    "find_dupe_extents res' digest len \<noteq> None" "members res' = members res"
    "set_tree (rt_root res') = insert (dupe_extents_new digest len) (set_tree (rt_root res))"
proof -
  have o: "dx.ordered (rt_root res)" using assms(1) by (simp add: rt_wf_def)
  let ?d = "dupe_extents_new digest len"
  have g: "group_of ?d = (len, digest)" by (simp add: dupe_extents_new_def)
  have "rb_insert (dext_dir (group_of ?d)) ?d (rt_root res) \<noteq> None"
    using dx.insert_none [OF o, of ?d] find_dupe_None [OF o, of digest len] assms(2) unfolding g by auto
  then obtain t where t: "rb_insert (dext_dir (group_of ?d)) ?d (rt_root res) = Some t" by auto
  note i = dx.insert_some [OF o t]
  have sz: "length (inorder t) = Suc (length (inorder (rt_root res)))"
    using arg_cong [of _ _ size, OF i [THEN conjunct2, THEN conjunct2, THEN conjunct2]] by simp
  have sm: "sum_list (map de_num_dupes (inorder t)) = sum_list (map de_num_dupes (inorder (rt_root res)))"
  proof -
    have "mset (map de_num_dupes (inorder t)) = add_mset 0 (mset (map de_num_dupes (inorder (rt_root res))))"
      using i by (simp add: dupe_extents_new_def)
    then show ?thesis by (simp flip: sum_mset_sum_list)
  qed
  define res' where "res' = res\<lparr>num_dupes := num_dupes res + 1, rt_root := t\<rparr>"
  have st: "set_tree t = insert ?d (set_tree (rt_root res))" using i by simp
  have ot: "dx.ordered t" using i by simp
  show thesis
  proof (rule that)
    show "insert_dupe_extents res ?d = Some res'"
      using t by (simp add: insert_dupe_extents_def res'_def)
    show "rt_wf res'"
      using assms(1) ot sz sm st by (simp add: rt_wf_def res'_def)
        (simp add: dext_wf_def dupe_extents_new_def)
    show "find_dupe_extents res' digest len \<noteq> None"
      using find_dupe_None [of res' digest len] ot st g by (simp add: res'_def)
    show "members res' = members res"
      using st by (simp add: members_def res'_def) (simp add: dupe_extents_new_def)
    show "set_tree (rt_root res') = insert ?d (set_tree (rt_root res))" by (simp add: res'_def st)
  qed
qed

text \<open>Between its two lookups, \<open>find_alloc_dext\<close> may meet anything another thread did.\<close>

lemma find_alloc_spec:
  assumes "rt_wf res" "no_empty res" "rt_wf (other res)" "no_empty (other res)"
  obtains res' where "find_alloc_dext other res digest len = Some res'" "rt_wf res'"
    "find_dupe_extents res' digest len \<noteq> None" "members res' \<in> {members res, members (other res)}"
    "\<forall>d\<in>set_tree (rt_root res'). group_of d \<noteq> (len, digest) \<longrightarrow> 0 < de_num_dupes d"
proof (cases "find_dupe_extents res digest len")
  case (Some d)
  then show thesis using assms by (intro that [of res]) (auto simp: find_alloc_dext_def no_empty_def)
next
  case None
  show thesis
  proof (cases "find_dupe_extents (other res) digest len")
    case (Some d)
    with None show thesis
      using assms by (intro that [of "other res"]) (auto simp: find_alloc_dext_def no_empty_def)
  next
    case n2: None
    obtain res' where "insert_dupe_extents (other res) (dupe_extents_new digest len) = Some res'"
        "rt_wf res'" "find_dupe_extents res' digest len \<noteq> None" "members res' = members (other res)"
        "set_tree (rt_root res') = insert (dupe_extents_new digest len) (set_tree (rt_root (other res)))"
      by (rule insert_new_group [OF assms(3) n2])
    then show thesis
      using None n2 assms(4)
      by (intro that [of res']) (auto simp: find_alloc_dext_def no_empty_def dupe_extents_new_def)
  qed
qed

lemma insert_result_spec:
  assumes "rt_wf res" "no_empty res" "rt_wf (other res)" "no_empty (other res)"
  shows "\<exists>res'. insert_result other res digest recs startoff endoff = Some res' \<and> rt_wf res' \<and> no_empty res' \<and>
    (let g = (fst endoff - fst startoff + 1, digest)
     in \<exists>m\<in>{members res, members (other res)}.
          members res' = insert (g, (fst recs, fst startoff)) (insert (g, (snd recs, snd startoff)) m))"
proof -
  define len where "len = fst endoff - fst startoff + 1"
  obtain r where r: "find_alloc_dext other res digest len = Some r" "rt_wf r"
    "find_dupe_extents r digest len \<noteq> None" "members r \<in> {members res, members (other res)}"
    "\<forall>d\<in>set_tree (rt_root r). group_of d \<noteq> (len, digest) \<longrightarrow> 0 < de_num_dupes d"
    by (rule find_alloc_spec [where other = other, OF assms])
  from r(3) obtain d where d: "find_dupe_extents r digest len = Some d" by blast
  let ?e0 = "alloc_extent (fst recs) (fst startoff)" and ?e1 = "alloc_extent (snd recs) (snd startoff)"
  note s0 = insert_into_group_spec [OF r(2) d, where e = ?e0]
  from s0(3) obtain d1 where d1: "find_dupe_extents (insert_into_group r digest len ?e0) digest len = Some d1"
    by blast
  note s1 = insert_into_group_spec [OF s0(1) d1, where e = ?e1]
  have "no_empty (insert_into_group r digest len ?e0)" by (rule s0(4)) (use r(5) in blast)
  then have ne: "no_empty (insert_into_group (insert_into_group r digest len ?e0) digest len ?e1)"
    by (intro s1(4)) (simp add: no_empty_def)
  have "insert_result other res digest recs startoff endoff =
      Some (insert_into_group (insert_into_group r digest len ?e0) digest len ?e1)"
    using r(1) by (simp add: insert_result_def Let_def len_def)
  moreover have "members (insert_into_group (insert_into_group r digest len ?e0) digest len ?e1) =
      insert ((len, digest), (fst recs, fst startoff)) (insert ((len, digest), (snd recs, snd startoff)) (members r))"
    unfolding s1(2) s0(2) by (simp add: alloc_extent_def insert_commute)
  ultimately show ?thesis
    using ne s1(1) r(4) unfolding Let_def len_def [symmetric] by blast
qed


lemma init_wf: "rt_wf init_results_tree" "no_empty init_results_tree" "members init_results_tree = {}"
  by (simp_all add: rt_wf_def no_empty_def members_def init_results_tree_def)

text \<open>Another thread that inserts the very group this one is about to.\<close>

definition rival :: "digest \<Rightarrow> u64 \<Rightarrow> results_tree \<Rightarrow> results_tree" where
  "rival digest len res = the (insert_one_result (\<lambda>r. r) res digest 9 0 len 0)"


subsection \<open>Removing extents\<close>

definition without :: "dupe_extents \<Rightarrow> place \<Rightarrow> dupe_extents" where
  "without p e = p\<lparr>de_num_dupes := de_num_dupes p - 1,
     de_extents := filter (\<lambda>x. place_of x \<noteq> e) (de_extents p),
     de_extents_root := rb_erase (extent_dir e) (de_extents_root p)\<rparr>"

lemma remove_loop_eq:
  "remove_loop p e t =
    (if de_num_dupes p - 1 = 1
     then (case rb_first (de_extents_root (without p e)) of
             None \<Rightarrow> None | Some e' \<Rightarrow> remove_loop (without p e) e' (t + 1))
     else Some (de_num_dupes p - 1, t + 1, without p e))"
  by (subst remove_loop.simps) (simp only: Let_def without_def)

lemma remove_loop_step:
  assumes "dext_wf p" "e \<in> set_tree (de_extents_root p)"
  shows "dext_wf (without p e)"
    "set_tree (de_extents_root (without p e)) = set_tree (de_extents_root p) - {e}"
    "Suc (de_num_dupes (without p e)) = de_num_dupes p" "group_of (without p e) = group_of p"
proof -
  have o: "ext.ordered (de_extents_root p)" using assms(1) by (simp add: dext_wf_def)
  have io: "inorder (rb_erase (extent_dir e) (de_extents_root p)) = filter (\<lambda>x. x \<noteq> e) (inorder (de_extents_root p))"
    by (rule ext.erase_inorder [OF o])
  have m: "mset (filter (\<lambda>x. x \<noteq> e) (inorder (de_extents_root p))) =
      mset (map place_of (filter (\<lambda>x. place_of x \<noteq> e) (de_extents p)))"
  proof -
    have "mset (map place_of (filter (\<lambda>x. place_of x \<noteq> e) (de_extents p))) =
        filter_mset (\<lambda>x. x \<noteq> e) (mset (map place_of (de_extents p)))"
      by (simp add: filter_mset_image_mset)
    then show ?thesis using assms(1) by (simp only: dext_wf_def mset_filter)
  qed
  have "length (filter (\<lambda>x. x \<noteq> e) (inorder (de_extents_root p))) = length (inorder (de_extents_root p)) - 1"
  proof -
    have "filter (\<lambda>x. x \<noteq> e) (inorder (de_extents_root p)) = remove1 e (inorder (de_extents_root p))"
      using ext.ordered_distinct [OF o] by (simp add: distinct_remove1_removeAll removeAll_filter_not_eq eq_commute)
    then show ?thesis using assms(2) by (simp add: length_remove1)
  qed
  moreover have "length (filter (\<lambda>x. x \<noteq> e) (inorder (de_extents_root p))) = length (filter (\<lambda>x. place_of x \<noteq> e) (de_extents p))"
    using mset_eq_length [OF m] by simp
  ultimately have len: "length (filter (\<lambda>x. place_of x \<noteq> e) (de_extents p)) = de_num_dupes p - 1"
    using dext_wf_count [OF assms(1)] by simp
  show "dext_wf (without p e)"
    using ext.erase_ordered [OF o, of e] io m len by (simp add: without_def dext_wf_def)
  show "set_tree (de_extents_root (without p e)) = set_tree (de_extents_root p) - {e}"
    using ext.erase_set [OF o, of e] by (auto simp: without_def)
  have "0 < de_num_dupes p"
    using assms(2) dext_wf_count [OF assms(1)] by (cases "de_extents_root p") simp_all
  then show "Suc (de_num_dupes (without p e)) = de_num_dupes p" by (simp add: without_def)
  show "group_of (without p e) = group_of p" by (simp add: without_def)
qed

lemma dext_wf_0: "dext_wf p \<Longrightarrow> de_num_dupes p = 0 \<Longrightarrow> de_extents_root p = Leaf"
  using dext_wf_count [of p] by (cases "de_extents_root p") simp_all

lemma dext_wf_1: "dext_wf p \<Longrightarrow> de_num_dupes p = 1 \<Longrightarrow> \<exists>e. rb_first (de_extents_root p) = Some e"
  using dext_wf_count [of p] rb_first_None [of "de_extents_root p"] by (cases "rb_first (de_extents_root p)") auto

lemma remove_loop_spec:
  assumes "dext_wf p" "e \<in> set_tree (de_extents_root p)"
  shows "\<exists>p'. remove_loop p e t = Some (de_num_dupes p', t + (de_num_dupes p - de_num_dupes p'), p') \<and>
    dext_wf p' \<and> group_of p' = group_of p \<and>
    de_num_dupes p' = (if de_num_dupes p \<le> 2 then 0 else de_num_dupes p - 1) \<and>
    set_tree (de_extents_root p') = (if de_num_dupes p \<le> 2 then {} else set_tree (de_extents_root p) - {e})"
proof -
  define n where "n = de_num_dupes p"
  note q1 = remove_loop_step [OF assms, folded n_def]
  consider "n = 2" | "n = 1" | "2 < n" using q1(3) by linarith
  then show ?thesis
  proof cases
    case 1
    then have c1: "de_num_dupes (without p e) = 1" using q1(3) by simp
    obtain e' where e': "rb_first (de_extents_root (without p e)) = Some e'"
      using dext_wf_1 [OF q1(1) c1] by blast
    note q2 = remove_loop_step [OF q1(1) rb_first_in [OF e']]
    have c2: "de_num_dupes (without (without p e) e') = 0" using q2(3) c1 by simp
    have "remove_loop p e t = remove_loop (without p e) e' (t + 1)"
      using 1 e' by (subst remove_loop_eq) (simp add: n_def)
    also have "\<dots> = Some (0, t + 2, without (without p e) e')"
      using c1 by (subst remove_loop_eq) simp
    finally show ?thesis
      using q1(4) q2(1,4) c2 1 dext_wf_0 [OF q2(1) c2] unfolding n_def
      by (intro exI [of _ "without (without p e) e'"]) simp
  next
    case 2
    then have c1: "de_num_dupes (without p e) = 0" using q1(3) by simp
    have "remove_loop p e t = Some (0, t + 1, without p e)"
      using 2 by (subst remove_loop_eq) (simp add: n_def)
    then show ?thesis
      using q1(1,4) c1 2 dext_wf_0 [OF q1(1) c1] unfolding n_def
      by (intro exI [of _ "without p e"]) simp
  next
    case 3
    have "de_num_dupes p - 1 \<noteq> 1" using 3 unfolding n_def by linarith
    then have "remove_loop p e t = Some (n - 1, t + 1, without p e)"
      by (subst remove_loop_eq) (simp add: n_def)
    moreover have "n - 1 = de_num_dupes (without p e)" "n - de_num_dupes (without p e) = 1" "\<not> n \<le> 2"
      using q1(3) 3 by simp_all
    ultimately show ?thesis
      using q1 unfolding n_def by (intro exI [of _ "without p e"]) simp
  qed
qed

definition places :: "results_tree \<Rightarrow> group_id \<Rightarrow> place set" where
  "places res g = {p. (g, p) \<in> members res}"

lemma places_found:
  assumes "rt_wf res" "rb_find (dext_dir g) (rt_root res) = Some d"
  shows "places res g = set_tree (de_extents_root d)" "card (places res g) = de_num_dupes d"
    "dext_wf d" "group_of d = g"
proof -
  have o: "dx.ordered (rt_root res)" using assms(1) by (simp add: rt_wf_def)
  obtain xs ys where s: "inorder (rt_root res) = xs @ d # ys" "\<forall>x\<in>set xs \<union> set ys. group_of x \<noteq> g"
      "group_of d = g" by (rule dx.found_split [OF o assms(2)]) (rule that)
  show g: "group_of d = g" by (rule s(3))
  show w: "dext_wf d" using assms(1) by (simp add: rt_wf_def set_inorder_split [OF s(1)])
  show p: "places res g = set_tree (de_extents_root d)"
    using s(2,3) unfolding places_def members_def set_inorder_split [OF s(1)] by auto
  have "ext.ordered (de_extents_root d)" using w by (simp add: dext_wf_def)
  then have "card (set (inorder (de_extents_root d))) = length (inorder (de_extents_root d))"
    by (intro distinct_card ext.ordered_distinct)
  then show "card (places res g) = de_num_dupes d"
    using dext_wf_count [OF w] by (simp add: p)
qed

lemma found_of_member:
  assumes "rt_wf res" "(g, e) \<in> members res"
  obtains d where "rb_find (dext_dir g) (rt_root res) = Some d" "e \<in> set_tree (de_extents_root d)"
proof -
  have o: "dx.ordered (rt_root res)" using assms(1) by (simp add: rt_wf_def)
  from assms(2) obtain d where d: "d \<in> set_tree (rt_root res)" "group_of d = g" "e \<in> set_tree (de_extents_root d)"
    by (auto simp: members_def)
  then have "rb_find (dext_dir g) (rt_root res) = Some d" using dx.find_iff [OF o] by blast
  then show thesis using d(3) by (rule that)
qed

lemma remove_extent_spec:
  assumes "rt_wf res" "no_empty res" "rb_find (dext_dir g) (rt_root res) = Some d"
    and "e \<in> set_tree (de_extents_root d)"
  shows "\<exists>res'. remove_extent res g e = Some (if de_num_dupes d \<le> 2 then 0 else de_num_dupes d - 1, res') \<and>
    rt_wf res' \<and> no_empty res' \<and>
    (if de_num_dupes d \<le> 2 then set_tree (rt_root res') = set_tree (rt_root res) - {d}
     else num_dupes res' = num_dupes res \<and>
       (\<exists>d'. rb_find (dext_dir g) (rt_root res') = Some d' \<and> de_num_dupes d' = de_num_dupes d - 1)) \<and>
    members res' = members res - (if de_num_dupes d \<le> 2 then {g} \<times> UNIV else {(g, e)})"
proof -
  have o: "dx.ordered (rt_root res)" using assms(1) by (simp add: rt_wf_def)
  obtain xs ys where s: "inorder (rt_root res) = xs @ d # ys" "\<forall>x\<in>set xs \<union> set ys. group_of x \<noteq> g"
      "group_of d = g" "inorder (rb_erase (dext_dir g) (rt_root res)) = xs @ ys"
      "\<And>f. inorder (rb_modify (dext_dir g) f (rt_root res)) = xs @ f d # ys"
    by (rule dx.found_split [OF o assms(3)]) (rule that)
  note t = set_inorder_split [OF s(1)]
  note w = places_found(3) [OF assms(1,3)]
  obtain p' where p': "remove_loop d e 0 = Some (de_num_dupes p', de_num_dupes d - de_num_dupes p', p')"
      "dext_wf p'" "group_of p' = group_of d"
      "de_num_dupes p' = (if de_num_dupes d \<le> 2 then 0 else de_num_dupes d - 1)"
      "set_tree (de_extents_root p') = (if de_num_dupes d \<le> 2 then {} else set_tree (de_extents_root d) - {e})"
    using remove_loop_spec [OF w assms(4), of 0] by auto
  have others: "\<forall>x\<in>set xs \<union> set ys. dext_wf x \<and> 0 < de_num_dupes x"
    using assms(1,2) by (simp add: rt_wf_def no_empty_def t)
  have nd: "d \<notin> set xs \<union> set ys" using s(2,3) by blast
  show ?thesis
  proof (cases "de_num_dupes d \<le> 2")
    case True
    define res' where "res' = res\<lparr>num_extents := num_extents res - de_num_dupes d,
      num_dupes := num_dupes res - 1, rt_root := rb_erase (dext_dir g) (rt_root res)\<rparr>"
    have r: "remove_extent res g e = Some (0, res')"
      using p'(1,4) True assms(3) by (simp add: remove_extent_def res'_def)
    have st: "set_tree (rt_root res') = set xs \<union> set ys"
      using arg_cong [OF s(4), of set] by (simp add: res'_def)
    have "rt_wf res'"
      using assms(1) dx.erase_ordered [OF o, of g] s(1,4) others st
      by (simp add: rt_wf_def res'_def del: length_inorder)
    moreover have "no_empty res'" using others st by (simp add: no_empty_def)
    moreover have "members res' = members res - {g} \<times> UNIV"
      using s(2,3) unfolding members_def st t by auto
    ultimately show ?thesis using r True st t nd by (intro exI [of _ res']) auto
  next
    case False
    define res' where "res' = res\<lparr>num_extents := num_extents res - 1,
      rt_root := rb_modify (dext_dir g) (\<lambda>_. p') (rt_root res)\<rparr>"
    have n: "de_num_dupes p' = de_num_dupes d - 1" "de_num_dupes d - de_num_dupes p' = 1" "0 < de_num_dupes p'"
      using p'(4) False by simp_all
    have r: "remove_extent res g e = Some (de_num_dupes d - 1, res')"
      using p'(1) n assms(3) by (simp add: remove_extent_def res'_def)
    have io: "inorder (rt_root res') = xs @ p' # ys" using s(5) by (simp add: res'_def)
    note st = set_inorder_split [OF io]
    have o': "dx.ordered (rt_root res')"
      using dx.modify_ordered [OF o, of g "\<lambda>_. p'"] p'(3) s(3) by (simp add: res'_def)
    have "rt_wf res'"
      unfolding rt_wf_def io st using assms(1) o' s(1) others p'(2) n False
      by (simp add: rt_wf_def res'_def del: length_inorder)
    moreover have "no_empty res'" using others st n by (simp add: no_empty_def)
    moreover have "rb_find (dext_dir g) (rt_root res') = Some p'"
      using p'(3) s(3) dx.find_iff [OF o', of g p'] st by simp
    moreover have "members res' = members res - {(g, e)}"
      using s(2,3) p'(3,5) False assms(4) unfolding members_def st t by auto
    moreover have "num_dupes res' = num_dupes res" by (simp add: res'_def)
    ultimately show ?thesis using r False n by (intro exI [of _ res']) auto
  qed
qed

text \<open>C24: removing an extent keeps the tree and its counts right, and never leaves a group of one: the
  group keeps its other members when there are two or more, and goes away otherwise; the result is
  the size that is left.\<close>

theorem remove_extent_no_singletons:
  assumes "rt_wf res" "no_empty res" "(g, e) \<in> members res"
  shows "\<exists>res'. remove_extent res g e = Some (card (places res' g), res') \<and> rt_wf res' \<and> no_empty res' \<and>
    members res' = members res - (if card (places res g) \<le> 2 then {g} \<times> UNIV else {(g, e)})"
proof -
  obtain d where d: "rb_find (dext_dir g) (rt_root res) = Some d" "e \<in> set_tree (de_extents_root d)"
    by (rule found_of_member [OF assms(1,3)])
  note pl = places_found [OF assms(1) d(1)]
  obtain res' where r: "remove_extent res g e = Some (if de_num_dupes d \<le> 2 then 0 else de_num_dupes d - 1, res')"
    "rt_wf res'" "no_empty res'"
    "members res' = members res - (if de_num_dupes d \<le> 2 then {g} \<times> UNIV else {(g, e)})"
    using remove_extent_spec [OF assms(1,2) d] by blast
  have "places res' g = (if de_num_dupes d \<le> 2 then {} else places res g - {e})"
    by (auto simp: places_def r(4))
  then have "card (places res' g) = (if de_num_dupes d \<le> 2 then 0 else de_num_dupes d - 1)"
    using d(2) pl by (simp add: card_Diff_singleton_if)
  then show ?thesis using r pl(2) by auto
qed

definition pair_results :: results_tree where
  "pair_results = the (insert_result (\<lambda>r. r) init_results_tree [1] (7, 8) (0, 0) (4095, 4095))"

lemma pair_results: "rt_wf pair_results" "no_empty pair_results"
  "members pair_results = {((4096, [1]), (7, 0)), ((4096, [1]), (8, 0))}"
proof -
  obtain r where "insert_result (\<lambda>r. r) init_results_tree [1] (7, 8) (0, 0) (4095, 4095) = Some r"
      "rt_wf r" "no_empty r" "members r = {((4096, [1]), (7, 0)), ((4096, [1]), (8, 0))}"
    using insert_result_spec [of init_results_tree "\<lambda>r. r" "[1]" "(7, 8)" "(0, 0)" "(4095, 4095)"]
    by (auto simp: init_wf Let_def)
  then show "rt_wf pair_results" "no_empty pair_results"
    "members pair_results = {((4096, [1]), (7, 0)), ((4096, [1]), (8, 0))}"
    by (simp_all add: pair_results_def)
qed

theorem remove_extent_no_singletons_witness:
  "\<exists>res'. remove_extent pair_results (4096, [1]) (8, 0) = Some (0, res') \<and> members res' = {}"
proof -
  have m: "((4096, [1]), (8, 0)) \<in> members pair_results" by (simp add: pair_results)
  have "places pair_results (4096, [1]) = {(7, 0), (8, 0)}" by (auto simp: places_def pair_results)
  then have c: "card (places pair_results (4096, [1])) \<le> 2" by simp
  obtain res' where "remove_extent pair_results (4096, [1]) (8, 0) = Some (card (places res' (4096, [1])), res')"
      "members res' = members pair_results - {(4096, [1])} \<times> UNIV"
    using remove_extent_no_singletons [OF pair_results(1,2) m] c by auto
  moreover have "members pair_results - {(4096, [1])} \<times> UNIV = {}" by (auto simp: pair_results)
  ultimately show ?thesis by (auto simp: places_def)
qed

text \<open>Freeing a group, and the whole tree.\<close>

lemma dupe_extents_free_spec:
  assumes "rt_wf res" "no_empty res" "rb_find (dext_dir g) (rt_root res) = Some d" "de_num_dupes d \<le> fuel"
  shows "\<exists>res'. dupe_extents_free fuel g res = Some res' \<and> rt_wf res' \<and> no_empty res' \<and>
    members res' = members res - {g} \<times> UNIV \<and> num_dupes res' + 1 = num_dupes res"
  using assms
proof (induction fuel arbitrary: res d)
  case 0
  then have "d \<in> set_tree (rt_root res)" by (metis dx.find_key)
  with 0 show ?case by (auto simp: no_empty_def)
next
  case (Suc fuel)
  have o: "dx.ordered (rt_root res)" using Suc(2) by (simp add: rt_wf_def)
  have d: "d \<in> set_tree (rt_root res)" using Suc(4) by (metis dx.find_key)
  then have "0 < de_num_dupes d" using Suc(3) by (simp add: no_empty_def)
  moreover have w: "dext_wf d" by (rule places_found(3) [OF Suc(2,4)])
  ultimately obtain e where e: "rb_first (de_extents_root d) = Some e"
    using dext_wf_count [OF w] by (cases "rb_first (de_extents_root d)") auto
  obtain res' where r: "remove_extent res g e = Some (if de_num_dupes d \<le> 2 then 0 else de_num_dupes d - 1, res')"
    "rt_wf res'" "no_empty res'"
    "if de_num_dupes d \<le> 2 then set_tree (rt_root res') = set_tree (rt_root res) - {d}
     else num_dupes res' = num_dupes res \<and>
       (\<exists>d'. rb_find (dext_dir g) (rt_root res') = Some d' \<and> de_num_dupes d' = de_num_dupes d - 1)"
    "members res' = members res - (if de_num_dupes d \<le> 2 then {g} \<times> UNIV else {(g, e)})"
    using remove_extent_spec [OF Suc(2-4) rb_first_in [OF e]] by blast
  have cnt: "num_dupes s = card (set_tree (rt_root s))" if "rt_wf s" for s
    using that dx.ordered_distinct [of "rt_root s"] distinct_card [of "inorder (rt_root s)"]
    by (simp add: rt_wf_def)
  show ?case
  proof (cases "de_num_dupes d \<le> 2")
    case True
    have "num_dupes res' + 1 = num_dupes res"
      using r(4) True d cnt [OF r(2)] cnt [OF Suc(2)] 
      card_Suc_Diff1 [of "set_tree (rt_root res)" d] by simp
    with True show ?thesis using Suc(4) e r by simp
  next
    case False
    then obtain d' where d': "rb_find (dext_dir g) (rt_root res') = Some d'" "de_num_dupes d' \<le> fuel"
      using r(4) Suc(5) by auto
    obtain r2 where "dupe_extents_free fuel g res' = Some r2" "rt_wf r2" "no_empty r2"
      "members r2 = members res' - {g} \<times> UNIV" "num_dupes r2 + 1 = num_dupes res'"
      using Suc(1) [OF r(2,3) d'] by blast
    moreover have "num_dupes res' = num_dupes res"
      using r(4) False by simp
    moreover have "members res' - {g} \<times> UNIV = members res - {g} \<times> UNIV"
      unfolding r(5) using False by auto
    moreover have "0 < de_num_dupes d - 1" using False by simp
    ultimately show ?thesis using Suc(4) e r(1) False by simp
  qed
qed

lemma free_results_tree_spec:
  assumes "rt_wf res" "no_empty res" "num_dupes res < fuel"
  shows "free_results_tree fuel res = Some init_results_tree"
  using assms
proof (induction fuel arbitrary: res)
  case (Suc fuel)
  show ?case
  proof (cases "rb_first (rt_root res)")
    case None
    with Suc(2) show ?thesis by (cases res) (simp add: rt_wf_def init_results_tree_def)
  next
    case (Some de)
    have o: "dx.ordered (rt_root res)" using Suc(2) by (simp add: rt_wf_def)
    have f: "rb_find (dext_dir (group_of de)) (rt_root res) = Some de"
      using rb_first_in [OF Some] dx.find_iff [OF o] by blast
    obtain res' where "dupe_extents_free (Suc (de_num_dupes de)) (group_of de) res = Some res'"
      "rt_wf res'" "no_empty res'" "num_dupes res' + 1 = num_dupes res"
      using dupe_extents_free_spec [OF Suc(2,3) f, of "Suc (de_num_dupes de)"] by auto
    then show ?thesis using Some Suc(1) [of res'] Suc(4) by simp
  qed
qed simp

text \<open>Freeing the results ends, and leaves nothing: no group, no extent, counts at zero.\<close>

theorem free_results_tree_empties:
  assumes "rt_wf res" "no_empty res" "num_dupes res < fuel"
  shows "free_results_tree fuel res = Some init_results_tree"
  by (rule free_results_tree_spec [OF assms])

theorem free_results_tree_empties_witness:
  "free_results_tree (Suc (num_dupes pair_results)) pair_results = Some init_results_tree"
  by (rule free_results_tree_empties) (simp_all add: pair_results)

end
