(* ===== verification/FindDupes.thy ===== *)
theory FindDupes
  imports HashTree ResultsTree
begin

text \<open>
  \<open>src/find_dupes.c\<close>: looking for further duplicates inside extents that are not duplicates as a
  whole. The blocks are those of the hash tree; a block and its neighbours in a file are nodes of
  the file's block tree. \<open>fsize\<close> gives the files' sizes and \<open>bs\<close> is the global \<open>blocksize\<close>. The match
  identifier is a running checksum over the digests of the matched blocks: \<open>csum\<close>, a parameter.
  Reading a file's extents from the database and the pool of search threads are not modelled here;
  the results tree carries the interference of other threads (\<open>other\<close>). The two loops of a
  comparison advance through the trees; they carry fuel, and \<open>compare_extents_returns\<close> shows how
  much is enough. \<open>None\<close> is an abort or running out of fuel.
\<close>

definition block_len :: "u64 \<Rightarrow> (nat \<Rightarrow> u64) \<Rightarrow> file_block \<Rightarrow> u64" where
  "block_len bs fsize b =
    (if b_loff b + bs \<le> fsize (b_file b) then bs
     else if fsize (b_file b) \<le> b_loff b then 0
     else (fsize (b_file b) - b_loff b) mod bs)"

definition next_block :: "hash_tree \<Rightarrow> file_block \<Rightarrow> file_block option" where
  "next_block t b = rb_next (block_dir (b_loff b)) None (block_tree t (b_file b))"

definition end_of_block_list :: "hash_tree \<Rightarrow> file_block \<Rightarrow> bool" where
  "end_of_block_list t b \<longleftrightarrow> next_block t b = None"

definition get_next_block :: "hash_tree \<Rightarrow> file_block \<Rightarrow> file_block" where
  "get_next_block t b = (case next_block t b of Some n \<Rightarrow> n | None \<Rightarrow> b)"

record match =
  m_start :: "file_block \<times> file_block"
  m_end :: "file_block \<times> file_block"
  m_digests :: "digest list"

text \<open>\<open>eoff\<close> of a last block.\<close>

definition last_byte :: "u64 \<Rightarrow> (nat \<Rightarrow> u64) \<Rightarrow> file_block \<Rightarrow> u64" where
  "last_byte bs fsize b = block_len bs fsize b + b_loff b - 1"

definition record_match ::
  "(results_tree \<Rightarrow> results_tree) \<Rightarrow> (digest list \<Rightarrow> digest) \<Rightarrow> u64 \<Rightarrow> (nat \<Rightarrow> u64) \<Rightarrow> nat \<Rightarrow> nat \<Rightarrow>
     results_tree \<Rightarrow> match \<Rightarrow> results_tree option" where
  "record_match other csum bs fsize orig walk res m =
    (let s = m_start m; e = m_end m
     in if b_file (fst s) \<noteq> orig \<or> b_file (snd s) \<noteq> walk then None
        else insert_result other res (csum (m_digests m)) (b_file (fst s), b_file (snd s))
               (b_loff (fst s), b_loff (snd s)) (last_byte bs fsize (fst e), last_byte bs fsize (snd e)))"

text \<open>The fast-forward: \<open>Some None\<close> when it runs off either tree.\<close>

fun skip_loop ::
  "nat \<Rightarrow> hash_tree \<Rightarrow> u64 \<Rightarrow> file_block \<Rightarrow> file_block \<Rightarrow> (file_block \<times> file_block) option option" where
  "skip_loop 0 t extent_end orig block = None"
| "skip_loop (Suc fuel) t extent_end orig block =
    (if b_parent block \<noteq> b_parent orig \<and> b_loff block < extent_end then
       if end_of_block_list t orig \<or> end_of_block_list t block then Some None
       else skip_loop fuel t extent_end (get_next_block t orig) (get_next_block t block)
     else Some (Some (orig, block)))"

text \<open>The match: the last pair that agreed, the digests so far, where it stopped, \<open>matchmore\<close>.\<close>

fun match_loop ::
  "nat \<Rightarrow> hash_tree \<Rightarrow> u64 \<Rightarrow> u64 \<Rightarrow> (file_block \<times> file_block) option \<Rightarrow> digest list \<Rightarrow>
     file_block \<Rightarrow> file_block \<Rightarrow>
     ((file_block \<times> file_block) option \<times> digest list \<times> file_block \<times> bool) option" where
  "match_loop 0 t bs extent_end ends ds orig block = None"
| "match_loop (Suc fuel) t bs extent_end ends ds orig block =
    (if b_parent block = b_parent orig \<and> b_loff block < extent_end then
       let ends = Some (orig, block); ds = ds @ [b_parent block]
       in if end_of_block_list t orig \<or> end_of_block_list t block then Some (ends, ds, block, False)
          else let orig_blkno = b_loff orig; walk_blkno = b_loff block;
                   orig = get_next_block t orig; block = get_next_block t block
               in if b_loff orig \<noteq> orig_blkno + bs \<or> b_loff block \<noteq> walk_blkno + bs
                  then Some (ends, ds, block, False)
                  else match_loop fuel t bs extent_end ends ds orig block
     else Some (ends, ds, block, True))"

text \<open>The comparison of two files from a pair of blocks on; the matches it records, in order.\<close>

fun compare_loop ::
  "nat \<Rightarrow> hash_tree \<Rightarrow> u64 \<Rightarrow> (nat \<Rightarrow> u64) \<Rightarrow> u64 \<Rightarrow> file_block \<Rightarrow> file_block \<Rightarrow> match list option" where
  "compare_loop 0 t bs fsize extent_end orig block = None"
| "compare_loop (Suc fuel) t bs fsize extent_end orig block =
    (case skip_loop fuel t extent_end orig block of
       None \<Rightarrow> None
     | Some None \<Rightarrow> Some []
     | Some (Some start) \<Rightarrow>
         (case match_loop fuel t bs extent_end None [] (fst start) (snd start) of
            None \<Rightarrow> None
          | Some (None, _, _, _) \<Rightarrow> Some []
          | Some (Some ends, ds, block', matchmore) \<Rightarrow>
              if extent_end < last_byte bs fsize (snd ends) then Some []
              else let m = \<lparr>m_start = start, m_end = ends, m_digests = ds\<rparr>
                   in if \<not> matchmore then Some [m]
                      else if end_of_block_list t (fst ends) \<or> end_of_block_list t (snd ends) then Some [m]
                      else if extent_end < b_loff block' then Some [m]
                      else map_option (\<lambda>ms. m # ms)
                             (compare_loop fuel t bs fsize extent_end
                                (get_next_block t (fst ends)) (get_next_block t (snd ends)))))"

fun record_all ::
  "(results_tree \<Rightarrow> results_tree) \<Rightarrow> (digest list \<Rightarrow> digest) \<Rightarrow> u64 \<Rightarrow> (nat \<Rightarrow> u64) \<Rightarrow> nat \<Rightarrow> nat \<Rightarrow>
     results_tree \<Rightarrow> match list \<Rightarrow> results_tree option" where
  "record_all other csum bs fsize orig walk res [] = Some res"
| "record_all other csum bs fsize orig walk res (m # ms) =
    Option.bind (record_match other csum bs fsize orig walk res m)
      (\<lambda>res. record_all other csum bs fsize orig walk res ms)"

definition compare_extents ::
  "nat \<Rightarrow> (results_tree \<Rightarrow> results_tree) \<Rightarrow> (digest list \<Rightarrow> digest) \<Rightarrow> u64 \<Rightarrow> (nat \<Rightarrow> u64) \<Rightarrow> hash_tree \<Rightarrow>
     nat \<Rightarrow> file_block \<Rightarrow> nat \<Rightarrow> file_block \<Rightarrow> u64 \<Rightarrow> results_tree \<Rightarrow> results_tree option" where
  "compare_extents fuel other csum bs fsize t orig_file orig walk_file block search_len res =
    Option.bind (compare_loop fuel t bs fsize (b_loff block + search_len - 1) orig block)
      (\<lambda>ms. record_all other csum bs fsize orig_file walk_file res ms)"

fun search_list ::
  "nat \<Rightarrow> (results_tree \<Rightarrow> results_tree) \<Rightarrow> (digest list \<Rightarrow> digest) \<Rightarrow> u64 \<Rightarrow> (nat \<Rightarrow> u64) \<Rightarrow> hash_tree \<Rightarrow> bool \<Rightarrow>
     nat \<Rightarrow> file_block \<Rightarrow> u64 \<Rightarrow> results_tree \<Rightarrow> file_block list \<Rightarrow> results_tree option" where
  "search_list fuel other csum bs fsize t same_file file block len res [] = Some res"
| "search_list fuel other csum bs fsize t same_file file block len res (found # rest) =
    (if found = block then search_list fuel other csum bs fsize t same_file file block len res rest
     else if \<not> same_file \<and> file = b_file found
     then search_list fuel other csum bs fsize t same_file file block len res rest
     else Option.bind (compare_extents fuel other csum bs fsize t file block (b_file found) found len res)
            (\<lambda>res. search_list fuel other csum bs fsize t same_file file block len res rest))"

text \<open>\<open>same_file\<close> is the option \<open>dedupe_same_file\<close>.\<close>

definition search_extent ::
  "nat \<Rightarrow> (results_tree \<Rightarrow> results_tree) \<Rightarrow> (digest list \<Rightarrow> digest) \<Rightarrow> u64 \<Rightarrow> (nat \<Rightarrow> u64) \<Rightarrow> hash_tree \<Rightarrow> bool \<Rightarrow>
     nat \<Rightarrow> u64 \<Rightarrow> u64 \<Rightarrow> results_tree \<Rightarrow> results_tree option" where
  "search_extent fuel other csum bs fsize t same_file file loff len res =
    (case find_filerec_block t file loff of
       None \<Rightarrow> Some res
     | Some block \<Rightarrow>
         (case find_block_list t (b_parent block) of
            None \<Rightarrow> None
          | Some blocklist \<Rightarrow>
              search_list fuel other csum bs fsize t same_file file block len res (dl_list blocklist)))"

text \<open>The extents of a file that the database reports as not duplicated.\<close>

fun search_file_extents ::
  "nat \<Rightarrow> (results_tree \<Rightarrow> results_tree) \<Rightarrow> (digest list \<Rightarrow> digest) \<Rightarrow> u64 \<Rightarrow> (nat \<Rightarrow> u64) \<Rightarrow> hash_tree \<Rightarrow> bool \<Rightarrow>
     nat \<Rightarrow> (u64 \<times> u64) list \<Rightarrow> results_tree \<Rightarrow> results_tree option" where
  "search_file_extents fuel other csum bs fsize t same_file file [] res = Some res"
| "search_file_extents fuel other csum bs fsize t same_file file ((loff, len) # es) res =
    Option.bind (search_extent fuel other csum bs fsize t same_file file loff len res)
      (search_file_extents fuel other csum bs fsize t same_file file es)"

text \<open>
  Which files of the list are searched at all: not the empty ones, and not those without a block in
  this window. The searches run on a pool, in any order; here in the order of the list.
\<close>

fun find_additional_dedupe ::
  "nat \<Rightarrow> (results_tree \<Rightarrow> results_tree) \<Rightarrow> (digest list \<Rightarrow> digest) \<Rightarrow> u64 \<Rightarrow> (nat \<Rightarrow> u64) \<Rightarrow> hash_tree \<Rightarrow> bool \<Rightarrow>
     (nat \<Rightarrow> (u64 \<times> u64) list) \<Rightarrow> nat list \<Rightarrow> results_tree \<Rightarrow> results_tree option" where
  "find_additional_dedupe fuel other csum bs fsize t same_file nondupe [] res = Some res"
| "find_additional_dedupe fuel other csum bs fsize t same_file nondupe (file # files) res =
    (if fsize file = 0 \<or> block_tree t file = Leaf
     then find_additional_dedupe fuel other csum bs fsize t same_file nondupe files res
     else Option.bind (search_file_extents fuel other csum bs fsize t same_file file (nondupe file) res)
            (find_additional_dedupe fuel other csum bs fsize t same_file nondupe files))"

subsection \<open>Walking a file's blocks\<close>

definition blocks_after :: "hash_tree \<Rightarrow> file_block \<Rightarrow> nat" where
  "blocks_after t b = card {c \<in> all_blocks t. b_file c = b_file b \<and> b_loff b < b_loff c}"

lemma finite_file_blocks: "ht_wf t \<Longrightarrow> finite {c \<in> all_blocks t. b_file c = f \<and> P c}"
proof -
  assume "ht_wf t"
  then have "{c \<in> all_blocks t. b_file c = f \<and> P c} \<subseteq> set_tree (block_tree t f)" by (auto simp: ht_wf_def)
  then show ?thesis by (rule finite_subset) simp
qed

lemma get_next_block_spec:
  assumes "ht_wf t" "b \<in> all_blocks t" "\<not> end_of_block_list t b"
  shows "get_next_block t b \<in> all_blocks t" "b_file (get_next_block t b) = b_file b"
    "blocks_after t (get_next_block t b) < blocks_after t b"
proof -
  have o: "bt.ordered (block_tree t (b_file b))"
    and st: "set_tree (block_tree t (b_file b)) = {c \<in> all_blocks t. b_file c = b_file b}"
    using assms(1) by (simp_all add: ht_wf_def)
  have "b \<in> set (inorder (block_tree t (b_file b)))" using st assms(2) by simp
  then obtain xs ys where xy: "inorder (block_tree t (b_file b)) = xs @ b # ys" by (meson split_list)
  have nx: "next_block t b = (case ys of [] \<Rightarrow> None | y # _ \<Rightarrow> Some y)"
    unfolding next_block_def by (rule bt.next_inorder [OF o xy])
  then obtain n zs where n: "ys = n # zs" "next_block t b = Some n"
    using assms(3) by (cases ys) (simp_all add: end_of_block_list_def)
  have nb: "get_next_block t b = n" using n by (simp add: get_next_block_def)
  have "n \<in> set_tree (block_tree t (b_file b))" using arg_cong [OF xy, of set] n(1) by simp
  then have m: "n \<in> all_blocks t" "b_file n = b_file b" unfolding st by simp_all
  have "block_dir (b_loff b) n < 0" using o unfolding bt.ordered_def xy n(1) by (simp add: sorted_wrt_append)
  then have lt: "b_loff b < b_loff n" by (simp add: block_dir_def split: if_split_asm)
  show "get_next_block t b \<in> all_blocks t" "b_file (get_next_block t b) = b_file b"
    using m by (simp_all add: nb)
  have "{c \<in> all_blocks t. b_file c = b_file n \<and> b_loff n < b_loff c}
      \<subset> {c \<in> all_blocks t. b_file c = b_file b \<and> b_loff b < b_loff c}"
    using lt m by auto
  then show "blocks_after t (get_next_block t b) < blocks_after t b"
    unfolding nb blocks_after_def by (intro psubset_card_mono finite_file_blocks [OF assms(1)])
qed

text \<open>A run of blocks of one file, each a block size after the one before, with their digests.\<close>

inductive run :: "hash_tree \<Rightarrow> u64 \<Rightarrow> nat \<Rightarrow> file_block \<Rightarrow> file_block \<Rightarrow> digest list \<Rightarrow> bool"
  for t bs f where
  single: "b \<in> all_blocks t \<Longrightarrow> b_file b = f \<Longrightarrow> run t bs f b b [b_parent b]"
| more: "run t bs f s e ds \<Longrightarrow> b \<in> all_blocks t \<Longrightarrow> b_file b = f \<Longrightarrow> b_loff b = b_loff e + bs \<Longrightarrow>
    run t bs f s b (ds @ [b_parent b])"

lemma run_ends: "run t bs f s e ds \<Longrightarrow>
    s \<in> all_blocks t \<and> e \<in> all_blocks t \<and> b_file s = f \<and> b_file e = f \<and> ds \<noteq> []"
  by (induction rule: run.induct) auto

text \<open>Its last block starts as many block sizes after its first as it has blocks before the last.\<close>

lemma run_length: "run t bs f s e ds \<Longrightarrow> b_loff e = b_loff s + of_nat (length ds - 1) * bs"
proof (induction rule: run.induct)
  case (more s e ds b)
  then have "ds \<noteq> []" using run_ends by blast
  then have "(of_nat (length ds) :: u64) = of_nat (length ds - 1) + 1" by (cases ds) simp_all
  then show ?case using more by (simp add: algebra_simps)
qed simp

lemma skip_loop_spec:
  assumes "ht_wf t"
  shows "orig \<in> all_blocks t \<Longrightarrow> block \<in> all_blocks t \<Longrightarrow> blocks_after t block < fuel \<Longrightarrow>
    \<exists>r. skip_loop fuel t ee orig block = Some r \<and>
      (case r of None \<Rightarrow> True
       | Some (o', b') \<Rightarrow> o' \<in> all_blocks t \<and> b' \<in> all_blocks t \<and> b_file o' = b_file orig \<and> b_file b' = b_file block \<and>
           blocks_after t b' \<le> blocks_after t block)"
proof (induction fuel arbitrary: orig block)
  case (Suc fuel)
  show ?case
  proof (cases "b_parent block \<noteq> b_parent orig \<and> b_loff block < ee \<and>
      \<not> end_of_block_list t orig \<and> \<not> end_of_block_list t block")
    case True
    note no = get_next_block_spec [OF assms Suc(2)] and nb = get_next_block_spec [OF assms Suc(3)]
    from Suc(1) [OF no(1) nb(1)] no nb True Suc(4) obtain r where
      "skip_loop fuel t ee (get_next_block t orig) (get_next_block t block) = Some r"
      "case r of None \<Rightarrow> True
       | Some (o', b') \<Rightarrow> o' \<in> all_blocks t \<and> b' \<in> all_blocks t \<and> b_file o' = b_file (get_next_block t orig) \<and>
           b_file b' = b_file (get_next_block t block) \<and> blocks_after t b' \<le> blocks_after t (get_next_block t block)"
      by auto
    then show ?thesis using True no nb by (auto split: option.splits intro: order_trans)
  next
    case False
    then show ?thesis using Suc(2,3) by auto
  qed
qed simp

text \<open>What the match loop keeps: the pairs that agreed so far, and that it stands right after them.\<close>

definition match_inv ::
  "hash_tree \<Rightarrow> u64 \<Rightarrow> nat \<Rightarrow> nat \<Rightarrow> file_block \<Rightarrow> file_block \<Rightarrow> (file_block \<times> file_block) option \<Rightarrow> digest list \<Rightarrow> bool" where
  "match_inv t bs fo fw s0 s1 ends ds \<longleftrightarrow>
    (case ends of None \<Rightarrow> ds = [] | Some (e0, e1) \<Rightarrow> run t bs fo s0 e0 ds \<and> run t bs fw s1 e1 ds)"

definition stands_after ::
  "u64 \<Rightarrow> file_block \<Rightarrow> file_block \<Rightarrow> (file_block \<times> file_block) option \<Rightarrow> file_block \<Rightarrow> file_block \<Rightarrow> bool" where
  "stands_after bs s0 s1 ends orig block \<longleftrightarrow>
    (case ends of None \<Rightarrow> orig = s0 \<and> block = s1
     | Some (e0, e1) \<Rightarrow> b_loff orig = b_loff e0 + bs \<and> b_loff block = b_loff e1 + bs)"

lemma match_inv_step:
  assumes "match_inv t bs (b_file orig) (b_file block) s0 s1 ends ds" "stands_after bs s0 s1 ends orig block"
    and "orig \<in> all_blocks t" "block \<in> all_blocks t" "b_parent block = b_parent orig"
  shows "match_inv t bs (b_file orig) (b_file block) s0 s1 (Some (orig, block)) (ds @ [b_parent block])"
proof (cases ends)
  case None
  then show ?thesis
    using assms run.single [of orig t "b_file orig" bs] run.single [of block t "b_file block" bs]
    by (simp add: match_inv_def stands_after_def)
next
  case (Some e)
  obtain e0 e1 where e: "e = (e0, e1)" by fastforce
  have r: "run t bs (b_file orig) s0 e0 ds" "run t bs (b_file block) s1 e1 ds"
    and l: "b_loff orig = b_loff e0 + bs" "b_loff block = b_loff e1 + bs"
    using assms(1,2) by (simp_all add: Some e match_inv_def stands_after_def)
  have "run t bs (b_file orig) s0 orig (ds @ [b_parent orig])"
    by (rule run.more [OF r(1) assms(3) refl l(1)])
  moreover have "run t bs (b_file block) s1 block (ds @ [b_parent block])"
    by (rule run.more [OF r(2) assms(4) refl l(2)])
  ultimately show ?thesis using assms(5) by (simp add: match_inv_def)
qed

lemma match_loop_spec:
  assumes "ht_wf t"
  shows "orig \<in> all_blocks t \<Longrightarrow> block \<in> all_blocks t \<Longrightarrow> blocks_after t block < fuel \<Longrightarrow>
    match_inv t bs (b_file orig) (b_file block) s0 s1 ends ds \<Longrightarrow> stands_after bs s0 s1 ends orig block \<Longrightarrow>
    \<exists>ends' ds' b' m. match_loop fuel t bs ee ends ds orig block = Some (ends', ds', b', m) \<and>
      match_inv t bs (b_file orig) (b_file block) s0 s1 ends' ds' \<and>
      (case ends' of None \<Rightarrow> True
       | Some (e0, e1) \<Rightarrow> ends' = ends \<or> blocks_after t e1 \<le> blocks_after t block)"
proof (induction fuel arbitrary: orig block ends ds)
  case (Suc fuel)
  show ?case
  proof (cases "b_parent block = b_parent orig \<and> b_loff block < ee")
    case False
    then have "match_loop (Suc fuel) t bs ee ends ds orig block = Some (ends, ds, block, True)"
      by auto
    then show ?thesis using Suc(5) by (auto split: option.split)
  next
    case True
    let ?ends = "Some (orig, block)" and ?ds = "ds @ [b_parent block]"
    let ?o = "get_next_block t orig" and ?b = "get_next_block t block"
    have inv: "match_inv t bs (b_file orig) (b_file block) s0 s1 ?ends ?ds"
      using True by (intro match_inv_step [OF Suc(5,6,2,3)]) simp
    show ?thesis
    proof (cases "end_of_block_list t orig \<or> end_of_block_list t block")
      case e: True
      then have "match_loop (Suc fuel) t bs ee ends ds orig block = Some (?ends, ?ds, block, False)"
        using True by (simp add: Let_def)
      then show ?thesis using inv by auto
    next
      case e: False
      then have no: "?o \<in> all_blocks t" "b_file ?o = b_file orig"
        and nb: "?b \<in> all_blocks t" "b_file ?b = b_file block" "blocks_after t ?b < blocks_after t block"
        using get_next_block_spec [OF assms Suc(2)] get_next_block_spec [OF assms Suc(3)] by simp_all
      show ?thesis
      proof (cases "b_loff ?o \<noteq> b_loff orig + bs \<or> b_loff ?b \<noteq> b_loff block + bs")
        case c: True
        then have "match_loop (Suc fuel) t bs ee ends ds orig block = Some (?ends, ?ds, ?b, False)"
          using True e by (simp add: Let_def)
        then show ?thesis using inv by auto
      next
        case c: False
        then have st: "stands_after bs s0 s1 ?ends ?o ?b" by (simp add: stands_after_def)
        have eq: "match_loop (Suc fuel) t bs ee ends ds orig block = match_loop fuel t bs ee ?ends ?ds ?o ?b"
          using True e c by (simp add: Let_def)
        from Suc(1) [OF no(1) nb(1) _ _ st, unfolded no nb(2), OF _ inv] nb(3) Suc(4)
        obtain ends' ds' b' m where r: "match_loop fuel t bs ee ?ends ?ds ?o ?b = Some (ends', ds', b', m)"
          "match_inv t bs (b_file orig) (b_file block) s0 s1 ends' ds'"
          "case ends' of None \<Rightarrow> True
           | Some (e0, e1) \<Rightarrow> ends' = ?ends \<or> blocks_after t e1 \<le> blocks_after t ?b"
          by auto
        show ?thesis
          unfolding eq using r nb(3) by (auto split: option.splits)
      qed
    qed
  qed
qed simp

text \<open>What a recorded match is: two runs of blocks with the same digests, inside the extent searched.\<close>

definition sound_match :: "hash_tree \<Rightarrow> u64 \<Rightarrow> (nat \<Rightarrow> u64) \<Rightarrow> u64 \<Rightarrow> nat \<Rightarrow> nat \<Rightarrow> match \<Rightarrow> bool" where
  "sound_match t bs fsize extent_end fo fw m \<longleftrightarrow>
    run t bs fo (fst (m_start m)) (fst (m_end m)) (m_digests m) \<and>
    run t bs fw (snd (m_start m)) (snd (m_end m)) (m_digests m) \<and>
    last_byte bs fsize (snd (m_end m)) \<le> extent_end"

lemma compare_loop_spec:
  assumes "ht_wf t"
  shows "orig \<in> all_blocks t \<Longrightarrow> block \<in> all_blocks t \<Longrightarrow> blocks_after t block + 1 < fuel \<Longrightarrow>
    \<exists>ms. compare_loop fuel t bs fsize ee orig block = Some ms \<and>
      list_all (sound_match t bs fsize ee (b_file orig) (b_file block)) ms"
proof (induction fuel arbitrary: orig block)
  case (Suc fuel)
  have f: "blocks_after t block < fuel" using Suc(4) by simp
  from skip_loop_spec [OF assms Suc(2,3) f, of ee] obtain r where
    skip: "skip_loop fuel t ee orig block = Some r"
    "case r of None \<Rightarrow> True
     | Some (o', b') \<Rightarrow> o' \<in> all_blocks t \<and> b' \<in> all_blocks t \<and> b_file o' = b_file orig \<and> b_file b' = b_file block \<and>
         blocks_after t b' \<le> blocks_after t block" by blast
  show ?case
  proof (cases r)
    case None
    then show ?thesis using skip(1) by simp
  next
    case (Some st)
    obtain s0 s1 where st: "st = (s0, s1)" by fastforce
    have s: "s0 \<in> all_blocks t" "s1 \<in> all_blocks t" "b_file s0 = b_file orig" "b_file s1 = b_file block"
      "blocks_after t s1 < fuel" "blocks_after t s1 \<le> blocks_after t block"
      using skip(2) f by (simp_all add: Some st)
    obtain ends ds b' more where m: "match_loop fuel t bs ee None [] s0 s1 = Some (ends, ds, b', more)"
      "match_inv t bs (b_file orig) (b_file block) s0 s1 ends ds"
      "case ends of None \<Rightarrow> True | Some (e0, e1) \<Rightarrow> ends = None \<or> blocks_after t e1 \<le> blocks_after t s1"
      using match_loop_spec [OF assms s(1,2,5), of bs s0 s1 None "[]" ee] s(3,4)
      by (auto simp: match_inv_def stands_after_def)
    show ?thesis
    proof (cases ends)
      case None
      then show ?thesis using skip(1) m(1) by (simp add: Some st)
    next
      case e: (Some e)
      obtain e0 e1 where e01: "e = (e0, e1)" by fastforce
      have r: "run t bs (b_file orig) s0 e0 ds" "run t bs (b_file block) s1 e1 ds"
        using m(2) by (simp_all add: e e01 match_inv_def)
      note r0 = run_ends [OF r(1)] and r1 = run_ends [OF r(2)]
      have le: "blocks_after t e1 \<le> blocks_after t block" using m(3) s(6) by (simp add: e e01)
      define mt where "mt = \<lparr>m_start = (s0, s1), m_end = (e0, e1), m_digests = ds\<rparr>"
      show ?thesis
      proof (cases "ee < last_byte bs fsize e1")
        case True
        then show ?thesis using skip(1) m(1) by (simp add: Some st e e01)
      next
        case False
        then have sm: "sound_match t bs fsize ee (b_file orig) (b_file block) mt"
          using r by (simp add: sound_match_def mt_def)
        show ?thesis
        proof (cases "\<not> more \<or> end_of_block_list t e0 \<or> end_of_block_list t e1 \<or> ee < b_loff b'")
          case True
          then have "compare_loop (Suc fuel) t bs fsize ee orig block = Some [mt]"
            using skip(1) m(1) False by (auto simp: Some st e e01 mt_def Let_def)
          then show ?thesis using sm by simp
        next
          case go: False
          note n0 = get_next_block_spec [of t e0, OF assms] and n1 = get_next_block_spec [of t e1, OF assms]
          have nx: "get_next_block t e0 \<in> all_blocks t" "get_next_block t e1 \<in> all_blocks t"
            "b_file (get_next_block t e0) = b_file orig" "b_file (get_next_block t e1) = b_file block"
            "blocks_after t (get_next_block t e1) + 1 < fuel"
            using n0 n1 r0 r1 go le f by simp_all
          obtain ms where "compare_loop fuel t bs fsize ee (get_next_block t e0) (get_next_block t e1) = Some ms"
            "list_all (sound_match t bs fsize ee (b_file orig) (b_file block)) ms"
            using Suc(1) [OF nx(1,2,5)] nx(3,4) by auto
          moreover have "compare_loop (Suc fuel) t bs fsize ee orig block =
              map_option (\<lambda>ms. mt # ms)
                (compare_loop fuel t bs fsize ee (get_next_block t e0) (get_next_block t e1))"
            using skip(1) m(1) False go by (simp add: Some st e e01 mt_def)
          ultimately show ?thesis using sm by simp
        qed
      qed
    qed
  qed
qed simp

lemma blocks_after_le: "ht_wf t \<Longrightarrow> b \<in> all_blocks t \<Longrightarrow> blocks_after t b < size (block_tree t (b_file b))"
proof -
  assume w: "ht_wf t" and b: "b \<in> all_blocks t"
  have st: "set_tree (block_tree t (b_file b)) = {c \<in> all_blocks t. b_file c = b_file b}"
    and o: "bt.ordered (block_tree t (b_file b))" using w by (simp_all add: ht_wf_def)
  have "{c \<in> all_blocks t. b_file c = b_file b \<and> b_loff b < b_loff c} \<subset> set_tree (block_tree t (b_file b))"
    using b unfolding st by auto
  then have "blocks_after t b < card (set_tree (block_tree t (b_file b)))"
    unfolding blocks_after_def by (intro psubset_card_mono) simp_all
  also have "\<dots> = size (block_tree t (b_file b))"
    using distinct_card [OF bt.ordered_distinct [OF o]] by simp
  finally show ?thesis .
qed

text \<open>C21: every match that a comparison of two files hands to the results is a run of blocks in each
  file, contiguous, with the same digest block for block, that ends inside the extent searched; and
  the comparison does end.\<close>

theorem compare_loop_sound:
  assumes "ht_wf t" "orig \<in> all_blocks t" "block \<in> all_blocks t"
    and "size (block_tree t (b_file block)) < fuel"
  shows "\<exists>ms. compare_loop fuel t bs fsize extent_end orig block = Some ms \<and>
    list_all (sound_match t bs fsize extent_end (b_file orig) (b_file block)) ms"
proof (rule compare_loop_spec [OF assms(1-3)])
  show "blocks_after t block + 1 < fuel" using blocks_after_le [OF assms(1,3)] assms(4) by simp
qed

theorem compare_loop_sound_witness:
  "\<exists>ms. compare_loop 2 two_blocks 4096 (\<lambda>_. 8192) 8191
     \<lparr>b_parent = [1], b_file = 7, b_loff = 0\<rparr> \<lparr>b_parent = [1], b_file = 8, b_loff = 4096\<rparr> = Some ms \<and>
     list_all (sound_match two_blocks 4096 (\<lambda>_. 8192) 8191 7 8) ms"
proof -
  let ?a = "\<lparr>b_parent = [1], b_file = 7, b_loff = 0\<rparr>" and ?b = "\<lparr>b_parent = [1], b_file = 8, b_loff = 4096\<rparr>"
  have "?a \<in> all_blocks two_blocks" "?b \<in> all_blocks two_blocks"
    "size (block_tree two_blocks (b_file ?b)) < 2"
    by (simp_all add: two_blocks_eq all_blocks_def)
  from compare_loop_sound [OF two_blocks_wf this, of 4096 "\<lambda>_. 8192" 8191] show ?thesis by simp
qed

subsection \<open>The search as a whole\<close>

definition keeps_results :: "(results_tree \<Rightarrow> results_tree) \<Rightarrow> bool" where
  "keeps_results other \<longleftrightarrow> (\<forall>r. rt_wf r \<and> no_empty r \<longrightarrow> rt_wf (other r) \<and> no_empty (other r))"

lemma insert_result_wf:
  assumes "rt_wf res" "no_empty res" "rt_wf (other res)" "no_empty (other res)"
  shows "\<exists>res'. insert_result other res digest recs soff eoff = Some res' \<and> rt_wf res' \<and> no_empty res'"
  using insert_result_spec [OF assms(1,2), of other, OF assms(3,4)] by blast

lemma record_all_spec:
  assumes "keeps_results other"
  shows "rt_wf res \<Longrightarrow> no_empty res \<Longrightarrow> list_all (sound_match t bs fsize ee fo fw) ms \<Longrightarrow>
    \<exists>res'. record_all other csum bs fsize fo fw res ms = Some res' \<and> rt_wf res' \<and> no_empty res'"
proof (induction ms arbitrary: res)
  case (Cons m ms)
  have f: "b_file (fst (m_start m)) = fo" "b_file (snd (m_start m)) = fw"
    using Cons(4) run_ends [of t bs fo] run_ends [of t bs fw] by (auto simp: sound_match_def)
  have "rt_wf (other res)" "no_empty (other res)" using assms Cons(2,3) by (simp_all add: keeps_results_def)
  note w = this
  have rm: "record_match other csum bs fsize fo fw res m = insert_result other res (csum (m_digests m))
      (fo, fw) (b_loff (fst (m_start m)), b_loff (snd (m_start m)))
      (last_byte bs fsize (fst (m_end m)), last_byte bs fsize (snd (m_end m)))"
    using f by (simp add: record_match_def Let_def)
  obtain res1 where "record_match other csum bs fsize fo fw res m = Some res1" "rt_wf res1" "no_empty res1"
    unfolding rm using insert_result_wf [where other = other, OF Cons(2,3) w] by blast
  then show ?case using Cons(1) [of res1] Cons(4) by simp
qed simp

lemma compare_extents_spec:
  assumes "ht_wf t" "orig \<in> all_blocks t" "block \<in> all_blocks t"
    and "size (block_tree t (b_file block)) < fuel" "keeps_results other" "rt_wf res" "no_empty res"
  shows "\<exists>res'. compare_extents fuel other csum bs fsize t (b_file orig) orig (b_file block) block len res = Some res' \<and>
    rt_wf res' \<and> no_empty res'"
proof -
  have "blocks_after t block + 1 < fuel" using blocks_after_le [OF assms(1,3)] assms(4) by simp
  from compare_loop_spec [OF assms(1-3) this] record_all_spec [OF assms(5-7)] show ?thesis
    unfolding compare_extents_def by (metis Option.bind.bind_lunit)
qed

lemma search_list_spec:
  assumes "ht_wf t" "block \<in> all_blocks t" "b_file block = file" "keeps_results other"
  shows "set bs' \<subseteq> all_blocks t \<Longrightarrow> \<forall>f. size (block_tree t f) < fuel \<Longrightarrow> rt_wf res \<Longrightarrow> no_empty res \<Longrightarrow>
    \<exists>res'. search_list fuel other csum bs fsize t same file block len res bs' = Some res' \<and> rt_wf res' \<and> no_empty res'"
proof (induction bs' arbitrary: res)
  case (Cons b bs')
  show ?case
  proof (cases "b = block \<or> \<not> same \<and> file = b_file b")
    case True
    then show ?thesis using Cons by auto
  next
    case False
    have "b \<in> all_blocks t" "size (block_tree t (b_file b)) < fuel" using Cons(2,3) by simp_all
    from compare_extents_spec [OF assms(1,2) this assms(4) Cons(4,5), unfolded assms(3)]
    obtain res1 where "compare_extents fuel other csum bs fsize t file block (b_file b) b len res = Some res1"
      "rt_wf res1" "no_empty res1" by blast
    then show ?thesis using Cons(1) [of res1] Cons(2,3) False by auto
  qed
qed simp

lemma search_extent_spec:
  assumes "ht_wf t" "keeps_results other" "\<forall>f. size (block_tree t f) < fuel" "rt_wf res" "no_empty res"
  shows "\<exists>res'. search_extent fuel other csum bs fsize t same file loff len res = Some res' \<and> rt_wf res' \<and> no_empty res'"
proof (cases "find_filerec_block t file loff")
  case None
  then show ?thesis using assms by (simp add: search_extent_def)
next
  case (Some b)
  then have "b \<in> set_tree (block_tree t file)" unfolding find_filerec_block_def using bt.find_key by blast
  then have b: "b \<in> all_blocks t" "b_file b = file" using assms(1) by (simp_all add: ht_wf_def)
  obtain l where l: "find_block_list t (b_parent b) = Some l" "b \<in> set (dl_list l)"
    by (rule ht_find_of_block [OF assms(1) b(1)])
  have "l \<in> set_tree (ht_root t)" using l(1) lt.find_key by (metis find_block_list_def)
  then have "set (dl_list l) \<subseteq> all_blocks t" by (auto simp: all_blocks_def)
  from search_list_spec [OF assms(1) b assms(2) this assms(3-5)] show ?thesis
    using Some l(1) by (simp add: search_extent_def)
qed

lemma search_file_extents_spec:
  assumes "ht_wf t" "keeps_results other" "\<forall>f. size (block_tree t f) < fuel"
  shows "rt_wf res \<Longrightarrow> no_empty res \<Longrightarrow>
    \<exists>res'. search_file_extents fuel other csum bs fsize t same file es res = Some res' \<and> rt_wf res' \<and> no_empty res'"
proof (induction es arbitrary: res)
  case (Cons e es)
  obtain loff len where e: "e = (loff, len)" by fastforce
  obtain res1 where "search_extent fuel other csum bs fsize t same file loff len res = Some res1" "rt_wf res1" "no_empty res1"
    using search_extent_spec [OF assms Cons(2,3)] by blast
  then show ?case using Cons(1) by (simp add: e)
qed simp

text \<open>C25: the search for additional duplicates ends for every list of files and whatever the database
  reports, with a results tree whose counts are right and without an empty group, while other
  threads insert results of their own.\<close>

theorem find_additional_dedupe_returns:
  assumes "ht_wf t" "keeps_results other" "\<forall>f. size (block_tree t f) < fuel" "rt_wf res" "no_empty res"
  shows "\<exists>res'. find_additional_dedupe fuel other csum bs fsize t same nondupe files res = Some res' \<and>
    rt_wf res' \<and> no_empty res'"
  using assms(4,5)
proof (induction files arbitrary: res)
  case (Cons f fs)
  show ?case
  proof (cases "fsize f = 0 \<or> block_tree t f = Leaf")
    case True
    then show ?thesis using Cons by auto
  next
    case False
    obtain res1 where "search_file_extents fuel other csum bs fsize t same f (nondupe f) res = Some res1" "rt_wf res1" "no_empty res1"
      using search_file_extents_spec [OF assms(1-3) Cons(2,3)] by blast
    then show ?thesis using Cons(1) False by simp
  qed
qed simp

theorem find_additional_dedupe_returns_witness:
  "\<exists>res'. find_additional_dedupe 2 (\<lambda>r. r) concat 4096 (\<lambda>_. 8192) two_blocks True (\<lambda>_. [(0, 8192)]) [7, 8]
    init_results_tree = Some res' \<and> rt_wf res'"
proof -
  have "\<forall>f. size (block_tree two_blocks f) < 2" by (simp add: two_blocks_eq)
  then show ?thesis
    using find_additional_dedupe_returns [OF two_blocks_wf _ _ init_wf(1,2), of "\<lambda>r. r" 2 concat 4096
        "\<lambda>_. 8192" True "\<lambda>_. [(0, 8192)]" "[7, 8]"]
    unfolding keeps_results_def by blast
qed

end
