(* ===== verification/Filerec.thy ===== *)
theory Filerec
  imports RbTree
begin

text \<open>
  \<open>src/filerec.c\<close>: the files of the dedupe phase. A file record is known by its address, a number;
  \<open>heap\<close> holds the records that are allocated. \<open>filerec_head\<close> is the global list, newest first, and
  \<open>by_fileid\<close> the tree. The allocator gives the address of a new record (\<open>ptr\<close>) and never fails; the
  kernel's \<open>open\<close> and \<open>close\<close>, and whether a file still has blocks in its tree, are parameters.
  \<open>None\<close> is an abort.
\<close>

record filerec =
  fr_fd :: int
  fd_refs :: nat
  fr_refs :: nat
  filename :: string
  fileid :: int
  fr_size :: u64

record filerecs =
  heap :: "nat \<Rightarrow> filerec option"
  by_fileid :: "(int \<times> nat) tree"
  filerec_head :: "nat list"
  num_filerecs :: nat

definition init_filerec :: filerecs where
  "init_filerec = \<lparr>heap = Map.empty, by_fileid = Leaf, filerec_head = [], num_filerecs = 0\<rparr>"

definition cmp_filerecs :: "int \<Rightarrow> int \<Rightarrow> int" where
  "cmp_filerecs file1_fileid file2_fileid =
    (if file1_fileid < file2_fileid then - 1 else if file2_fileid < file1_fileid then 1 else 0)"

text \<open>Below zero the descent goes left, so the larger id is on the left.\<close>

definition fileid_dir :: "int \<Rightarrow> int \<times> nat \<Rightarrow> int" where
  "fileid_dir fno tmp = cmp_filerecs (fst tmp) fno"

definition insert_filerec :: "filerecs \<Rightarrow> nat \<Rightarrow> int \<Rightarrow> filerecs option" where
  "insert_filerec s ptr fno =
    map_option (\<lambda>t. s\<lparr>by_fileid := t\<rparr>) (rb_insert (fileid_dir fno) (fno, ptr) (by_fileid s))"

definition filerec_find :: "filerecs \<Rightarrow> int \<Rightarrow> nat option" where
  "filerec_find s fno = map_option snd (rb_find (fileid_dir fno) (by_fileid s))"

definition filerec_alloc_insert :: "filerecs \<Rightarrow> nat \<Rightarrow> string \<Rightarrow> int \<Rightarrow> u64 \<Rightarrow> filerecs option" where
  "filerec_alloc_insert s ptr name fno sz =
    (let file = \<lparr>fr_fd = - 1, fd_refs = 0, fr_refs = 0, filename = name, fileid = fno, fr_size = sz\<rparr>
     in map_option (\<lambda>s. s\<lparr>filerec_head := ptr # filerec_head s, num_filerecs := num_filerecs s + 1\<rparr>)
          (insert_filerec (s\<lparr>heap := (heap s)(ptr \<mapsto> file)\<rparr>) ptr fno))"

definition filerec_new :: "filerecs \<Rightarrow> nat \<Rightarrow> string \<Rightarrow> int \<Rightarrow> u64 \<Rightarrow> filerecs option" where
  "filerec_new s ptr name fno sz = filerec_alloc_insert s ptr name fno sz"

definition filerec_free :: "filerecs \<Rightarrow> nat \<Rightarrow> filerecs" where
  "filerec_free s ptr =
    (case heap s ptr of
       None \<Rightarrow> s
     | Some file \<Rightarrow>
         s\<lparr>filerec_head := remove1 ptr (filerec_head s),
           by_fileid := rb_erase (fileid_dir (fileid file)) (by_fileid s),
           heap := (heap s)(ptr := None), num_filerecs := num_filerecs s - 1\<rparr>)"

definition filerec_get :: "filerecs \<Rightarrow> nat \<Rightarrow> filerecs" where
  "filerec_get s ptr =
    s\<lparr>heap := (heap s)(ptr := map_option (\<lambda>f. f\<lparr>fr_refs := fr_refs f + 1\<rparr>) (heap s ptr))\<rparr>"

definition filerec_put :: "filerecs \<Rightarrow> nat \<Rightarrow> filerecs option" where
  "filerec_put s ptr =
    (case heap s ptr of
       None \<Rightarrow> None
     | Some file \<Rightarrow>
         if fr_refs file = 0 then None
         else let s = s\<lparr>heap := (heap s)(ptr \<mapsto> file\<lparr>fr_refs := fr_refs file - 1\<rparr>)\<rparr>
              in Some (if fr_refs file - 1 = 0 then filerec_free s ptr else s))"

text \<open>\<open>empty_tree\<close> tells whether a file's block tree is empty.\<close>

fun free_unreferenced_loop :: "(nat \<Rightarrow> bool) \<Rightarrow> filerecs \<Rightarrow> nat list \<Rightarrow> filerecs option" where
  "free_unreferenced_loop empty_tree s [] = Some s"
| "free_unreferenced_loop empty_tree s (ptr # rest) =
    (case heap s ptr of
       None \<Rightarrow> None
     | Some file \<Rightarrow>
         if fr_refs file \<noteq> 0 then free_unreferenced_loop empty_tree s rest
         else if \<not> empty_tree ptr then None
         else free_unreferenced_loop empty_tree (filerec_free s ptr) rest)"

definition filerec_free_unreferenced :: "(nat \<Rightarrow> bool) \<Rightarrow> filerecs \<Rightarrow> filerecs option" where
  "filerec_free_unreferenced empty_tree s = free_unreferenced_loop empty_tree s (filerec_head s)"

definition free_all_filerecs :: "filerecs \<Rightarrow> filerecs" where
  "free_all_filerecs s = fold (\<lambda>ptr s. filerec_free s ptr) (filerec_head s) s"

subsection \<open>Descriptors\<close>

type_synonym 'k kopen = "'k \<Rightarrow> string \<Rightarrow> (int + int) \<times> 'k"
type_synonym 'k kclose = "'k \<Rightarrow> int \<Rightarrow> 'k"

text \<open>The result is 0 or an errno.\<close>

definition filerec_open :: "'k kopen \<Rightarrow> 'k \<Rightarrow> filerecs \<Rightarrow> nat \<Rightarrow> (int \<times> filerecs \<times> 'k) option" where
  "filerec_open kopen k s ptr =
    (case heap s ptr of
       None \<Rightarrow> None
     | Some file \<Rightarrow>
         if fd_refs file = 0 then
           (if fr_fd file \<noteq> - 1 then None
            else case kopen k (filename file) of
                   (Inl err, k) \<Rightarrow> Some (err, s, k)
                 | (Inr fd, k) \<Rightarrow>
                     Some (0, s\<lparr>heap := (heap s)(ptr \<mapsto> file\<lparr>fr_fd := fd, fd_refs := fd_refs file + 1\<rparr>)\<rparr>, k))
         else Some (0, s\<lparr>heap := (heap s)(ptr \<mapsto> file\<lparr>fd_refs := fd_refs file + 1\<rparr>)\<rparr>, k))"

definition filerec_close :: "'k kclose \<Rightarrow> 'k \<Rightarrow> filerecs \<Rightarrow> nat \<Rightarrow> (filerecs \<times> 'k) option" where
  "filerec_close kclose k s ptr =
    (case heap s ptr of
       None \<Rightarrow> None
     | Some file \<Rightarrow>
         if fr_fd file = - 1 \<or> fd_refs file = 0 then None
         else if fd_refs file - 1 = 0
         then Some (s\<lparr>heap := (heap s)(ptr \<mapsto> file\<lparr>fd_refs := 0, fr_fd := - 1\<rparr>)\<rparr>, kclose k (fr_fd file))
         else Some (s\<lparr>heap := (heap s)(ptr \<mapsto> file\<lparr>fd_refs := fd_refs file - 1\<rparr>)\<rparr>, k))"

text \<open>A token is the file it stands for.\<close>

definition token_dir :: "nat \<Rightarrow> nat \<Rightarrow> int" where
  "token_dir file t = (if file < t then - 1 else if t < file then 1 else 0)"

definition find_filerec_token_rb :: "nat tree \<Rightarrow> nat \<Rightarrow> nat option" where
  "find_filerec_token_rb root file = rb_find (token_dir file) root"

definition insert_filerec_token_rb :: "nat tree \<Rightarrow> nat \<Rightarrow> nat tree option" where
  "insert_filerec_token_rb root file = rb_insert (token_dir file) file root"

definition filerec_open_once ::
  "'k kopen \<Rightarrow> 'k \<Rightarrow> filerecs \<Rightarrow> nat tree \<Rightarrow> nat \<Rightarrow> (int \<times> filerecs \<times> nat tree \<times> 'k) option" where
  "filerec_open_once kopen k s open_files file =
    (if find_filerec_token_rb open_files file \<noteq> None then Some (0, s, open_files, k)
     else case filerec_open kopen k s file of
            None \<Rightarrow> None
          | Some (ret, s, k) \<Rightarrow>
              if ret \<noteq> 0 then Some (ret, s, open_files, k)
              else map_option (\<lambda>open_files. (0, s, open_files, k)) (insert_filerec_token_rb open_files file))"

fun filerec_close_open_list ::
  "nat \<Rightarrow> 'k kclose \<Rightarrow> 'k \<Rightarrow> filerecs \<Rightarrow> nat tree \<Rightarrow> (filerecs \<times> 'k) option" where
  "filerec_close_open_list 0 kclose k s open_files = None"
| "filerec_close_open_list (Suc fuel) kclose k s open_files =
    (case rb_first open_files of
       None \<Rightarrow> Some (s, k)
     | Some file \<Rightarrow>
         (case filerec_close kclose k s file of
            None \<Rightarrow> None
          | Some (s, k) \<Rightarrow>
              filerec_close_open_list fuel kclose k s (rb_erase (token_dir file) open_files)))"

text \<open>\<open>first_poff\<close> is \<open>fiemap_first_extent_poff\<close> on the open descriptor.\<close>

definition fiemap_scan_extent ::
  "'k kopen \<Rightarrow> 'k kclose \<Rightarrow> ('k \<Rightarrow> int \<Rightarrow> u64 option \<times> 'k) \<Rightarrow> 'k \<Rightarrow> filerecs \<Rightarrow> nat \<Rightarrow>
     (int \<times> u64 option \<times> filerecs \<times> 'k) option" where
  "fiemap_scan_extent kopen kclose first_poff k s file =
    (case filerec_open kopen k s file of
       None \<Rightarrow> None
     | Some (ret, s, k) \<Rightarrow>
         if ret \<noteq> 0 then Some (ret, None, s, k)
         else (case heap s file of
                 None \<Rightarrow> None
               | Some f \<Rightarrow>
                   let (poff, k) = first_poff k (fr_fd f)
                   in map_option (\<lambda>(s, k). (if poff = None then - 1 else 0, poff, s, k))
                        (filerec_close kclose k s file)))"

subsection \<open>Both trees are dictionaries\<close>

interpretation fid: rb_dict fileid_dir fst
  by unfold_locales (auto simp: fileid_dir_def cmp_filerecs_def split: if_split_asm)

interpretation tok: rb_dict token_dir "\<lambda>f. f"
  by unfold_locales (auto simp: token_dir_def split: if_split_asm)

subsection \<open>The records, the list and the tree agree\<close>

definition ids :: "filerecs \<Rightarrow> nat \<Rightarrow> int option" where
  "ids s p = map_option fileid (heap s p)"

definition files_wf :: "filerecs \<Rightarrow> bool" where
  "files_wf s \<longleftrightarrow> distinct (filerec_head s) \<and> set (filerec_head s) = dom (ids s) \<and>
    num_filerecs s = length (filerec_head s) \<and> fid.ordered (by_fileid s) \<and>
    set_tree (by_fileid s) = {(i, p). ids s p = Some i} \<and>
    (\<forall>p q i. ids s p = Some i \<and> ids s q = Some i \<longrightarrow> p = q)"

lemma files_wfD:
  assumes "files_wf s"
  shows "distinct (filerec_head s)" "set (filerec_head s) = dom (ids s)"
    "num_filerecs s = length (filerec_head s)" "fid.ordered (by_fileid s)"
    "set_tree (by_fileid s) = {(i, p). ids s p = Some i}"
    "ids s p = Some i \<Longrightarrow> ids s q = Some i \<Longrightarrow> p = q"
  using assms unfolding files_wf_def by blast+

lemma files_wfI:
  assumes "distinct (filerec_head s)" "set (filerec_head s) = dom (ids s)"
    "num_filerecs s = length (filerec_head s)" "fid.ordered (by_fileid s)"
    "set_tree (by_fileid s) = {(i, p). ids s p = Some i}"
    "\<And>p q i. ids s p = Some i \<Longrightarrow> ids s q = Some i \<Longrightarrow> p = q"
  shows "files_wf s"
  using assms unfolding files_wf_def by blast

lemma init_files_wf: "files_wf init_filerec"
  by (simp add: files_wf_def init_filerec_def ids_def [abs_def])

lemma filerec_find_iff:
  assumes "files_wf s"
  shows "filerec_find s fno = Some p \<longleftrightarrow> ids s p = Some fno"
proof -
  have o: "fid.ordered (by_fileid s)" using assms by (simp add: files_wf_def)
  have "filerec_find s fno = Some p \<longleftrightarrow> rb_find (fileid_dir fno) (by_fileid s) = Some (fno, p)"
    using fid.find_key [of fno "by_fileid s"] by (auto simp: filerec_find_def)
  also have "\<dots> \<longleftrightarrow> (fno, p) \<in> set_tree (by_fileid s)" using fid.find_iff [OF o] by simp
  finally show ?thesis using assms by (auto simp: files_wf_def)
qed

text \<open>Changing what a record counts, and not which file it is, changes nothing here.\<close>

lemma files_wf_upd:
  assumes "files_wf s" "heap s p = Some f" "fileid f' = fileid f"
  shows "files_wf (s\<lparr>heap := (heap s)(p \<mapsto> f')\<rparr>)"
proof -
  have "ids (s\<lparr>heap := (heap s)(p \<mapsto> f')\<rparr>) = ids s"
    using assms(2,3) by (auto simp: ids_def)
  then show ?thesis using assms(1) by (simp add: files_wf_def)
qed

lemma filerec_new_spec:
  fixes name :: string and fno :: int and sz :: u64
  assumes "files_wf s" "heap s ptr = None"
  defines "new \<equiv> \<lparr>fr_fd = - 1, fd_refs = 0, fr_refs = 0, filename = name, fileid = fno, fr_size = sz\<rparr>"
  shows "case filerec_new s ptr name fno sz of
      None \<Rightarrow> filerec_find s fno \<noteq> None
    | Some s' \<Rightarrow> filerec_find s fno = None \<and> files_wf s' \<and> heap s' = (heap s)(ptr \<mapsto> new)"
proof -
  have o: "fid.ordered (by_fileid s)" and st: "set_tree (by_fileid s) = {(i, p). ids s p = Some i}"
    using assms(1) by (simp_all add: files_wf_def)
  have none: "rb_insert (fileid_dir fno) (fno, ptr) (by_fileid s) = None \<longleftrightarrow> filerec_find s fno \<noteq> None"
    using fid.insert_none [OF o, of "(fno, ptr)"] fid.find_None [OF o, of fno] by (simp add: filerec_find_def)
  show ?thesis
  proof (cases "rb_insert (fileid_dir fno) (fno, ptr) (by_fileid s)")
    case None
    then show ?thesis using none by (simp add: filerec_new_def filerec_alloc_insert_def insert_filerec_def Let_def)
  next
    case (Some t)
    define s' where "s' = s\<lparr>heap := (heap s)(ptr \<mapsto> new), by_fileid := t, filerec_head := ptr # filerec_head s,
        num_filerecs := num_filerecs s + 1\<rparr>"
    have r: "filerec_new s ptr name fno sz = Some s'"
      using Some by (simp add: filerec_new_def filerec_alloc_insert_def insert_filerec_def Let_def s'_def new_def)
    have ff: "filerec_find s fno = None" using none Some by auto
    then have fresh: "ids s p \<noteq> Some fno" for p using filerec_find_iff [OF assms(1), of fno p] by simp
    have i: "fid.ordered t" "set_tree t = insert (fno, ptr) (set_tree (by_fileid s))"
      using fid.insert_some [OF o, of "(fno, ptr)" t] Some by simp_all
    have ids: "ids s' = (ids s)(ptr \<mapsto> fno)" by (auto simp: ids_def s'_def new_def)
    have np: "ids s ptr = None" using assms(2) by (simp add: ids_def)
    note w = files_wfD [OF assms(1)]
    have "files_wf s'"
    proof (rule files_wfI)
      show "distinct (filerec_head s')" using w(1,2) np by (simp add: s'_def domIff)
      show "set (filerec_head s') = dom (ids s')" unfolding ids using w(2) by (simp add: s'_def)
      show "num_filerecs s' = length (filerec_head s')" using w(3) by (simp add: s'_def)
      show "fid.ordered (by_fileid s')" using i(1) by (simp add: s'_def)
      have "by_fileid s' = t" by (simp add: s'_def)
      then show "set_tree (by_fileid s') = {(i, p). ids s' p = Some i}"
        unfolding ids using i(2) w(5) np by (auto split: if_split_asm)
      show "p = q" if "ids s' p = Some i" "ids s' q = Some i" for p q i
      proof (cases "p = ptr \<or> q = ptr")
        case True
        then show ?thesis using that fresh unfolding ids by (auto split: if_split_asm)
      next
        case False
        then show ?thesis using that w(6) unfolding ids by simp
      qed
    qed
    then show ?thesis using r ff by (simp add: s'_def)
  qed
qed

lemma filerec_free_spec:
  assumes "files_wf s" "heap s p = Some f"
  shows "files_wf (filerec_free s p)" "heap (filerec_free s p) = (heap s)(p := None)"
    "filerec_head (filerec_free s p) = remove1 p (filerec_head s)"
proof -
  have o: "fid.ordered (by_fileid s)" and st: "set_tree (by_fileid s) = {(i, p). ids s p = Some i}"
    and d: "distinct (filerec_head s)" "set (filerec_head s) = dom (ids s)"
    using assms(1) by (simp_all add: files_wf_def)
  have ip: "ids s p = Some (fileid f)" using assms(2) by (simp add: ids_def)
  have e: "filerec_free s p = s\<lparr>filerec_head := remove1 p (filerec_head s),
      by_fileid := rb_erase (fileid_dir (fileid f)) (by_fileid s),
      heap := (heap s)(p := None), num_filerecs := num_filerecs s - 1\<rparr>"
    using assms(2) by (simp add: filerec_free_def)
  show "heap (filerec_free s p) = (heap s)(p := None)"
    "filerec_head (filerec_free s p) = remove1 p (filerec_head s)" by (simp_all add: e)
  have ids: "ids (filerec_free s p) = (ids s)(p := None)" by (auto simp: e ids_def)
  note w = files_wfD [OF assms(1)]
  have p: "p \<in> set (filerec_head s)" using w(2) ip by blast
  show "files_wf (filerec_free s p)"
  proof (rule files_wfI)
    show "distinct (filerec_head (filerec_free s p))" using w(1) by (simp add: e)
    show "set (filerec_head (filerec_free s p)) = dom (ids (filerec_free s p))"
      unfolding ids using w(1,2) by (simp add: e)
    show "num_filerecs (filerec_free s p) = length (filerec_head (filerec_free s p))"
      using w(3) p by (simp add: e length_remove1)
    show "fid.ordered (by_fileid (filerec_free s p))" using fid.erase_ordered [OF o] by (simp add: e)
    have "by_fileid (filerec_free s p) = rb_erase (fileid_dir (fileid f)) (by_fileid s)" by (simp add: e)
    then have "set_tree (by_fileid (filerec_free s p)) = {(i, q). ids s q = Some i \<and> i \<noteq> fileid f}"
      using fid.erase_set [OF o, of "fileid f"] w(5) by auto
    also have "\<dots> = {(i, q). ids s q = Some i \<and> q \<noteq> p}"
    proof -
      have "ids s q = Some i \<Longrightarrow> i = fileid f \<longleftrightarrow> q = p" for q i using w(6) [OF ip, of q] ip by auto
      then show ?thesis by blast
    qed
    finally show "set_tree (by_fileid (filerec_free s p)) = {(i, q). ids (filerec_free s p) q = Some i}"
      unfolding ids by auto
    show "q = r" if "ids (filerec_free s p) q = Some i" "ids (filerec_free s p) r = Some i" for q r i
      using that w(6) unfolding ids by (auto split: if_split_asm)
  qed
qed

subsection \<open>Freeing what nothing references\<close>

lemma free_unreferenced_loop_spec:
  assumes "files_wf s" "set ps \<subseteq> dom (heap s)" "distinct ps"
    and "\<forall>p\<in>set ps. \<forall>f. heap s p = Some f \<and> fr_refs f = 0 \<longrightarrow> empty_tree p"
  shows "\<exists>s'. free_unreferenced_loop empty_tree s ps = Some s' \<and> files_wf s' \<and>
    heap s' = (\<lambda>p. if p \<in> set ps \<and> (\<exists>f. heap s p = Some f \<and> fr_refs f = 0) then None else heap s p)"
  using assms
proof (induction ps arbitrary: s)
  case (Cons p ps)
  from Cons(3) obtain f where f: "heap s p = Some f" by auto
  show ?case
  proof (cases "fr_refs f = 0")
    case False
    from Cons(1) [OF Cons(2)] Cons(3-5) obtain s' where
      "free_unreferenced_loop empty_tree s ps = Some s'" "files_wf s'"
      "heap s' = (\<lambda>p. if p \<in> set ps \<and> (\<exists>f. heap s p = Some f \<and> fr_refs f = 0) then None else heap s p)"
      by auto
    then show ?thesis using f False by (auto simp: fun_eq_iff)
  next
    case True
    note fr = filerec_free_spec [OF Cons(2) f]
    have sub: "set ps \<subseteq> dom (heap (filerec_free s p))" using Cons(3,4) unfolding fr(2) by auto
    have pre: "\<forall>q\<in>set ps. \<forall>g. heap (filerec_free s p) q = Some g \<and> fr_refs g = 0 \<longrightarrow> empty_tree q"
      using Cons(5) unfolding fr(2) by auto
    from Cons(1) [OF fr(1) sub _ pre] Cons(4) obtain s' where
      "free_unreferenced_loop empty_tree (filerec_free s p) ps = Some s'" "files_wf s'"
      "heap s' = (\<lambda>q. if q \<in> set ps \<and> (\<exists>g. heap (filerec_free s p) q = Some g \<and> fr_refs g = 0) then None
        else heap (filerec_free s p) q)"
      by auto
    moreover have "empty_tree p" using Cons(5) f True by simp
    ultimately show ?thesis using f True Cons(4) unfolding fr(2) by (auto simp: fun_eq_iff)
  qed
qed simp

text \<open>C13: the files that no batch holds are freed, exactly those, and the list, the tree and the count
  go on agreeing; the abort on a file that still has blocks is not taken when none has.\<close>

theorem free_unreferenced_exact:
  assumes "files_wf s" "\<forall>p f. heap s p = Some f \<and> fr_refs f = 0 \<longrightarrow> empty_tree p"
  shows "\<exists>s'. filerec_free_unreferenced empty_tree s = Some s' \<and> files_wf s' \<and>
    (\<forall>fno. filerec_find s' fno =
      (case filerec_find s fno of None \<Rightarrow> None
       | Some p \<Rightarrow> if fr_refs (the (heap s p)) = 0 then None else Some p))"
proof -
  note w = files_wfD [OF assms(1)]
  have dom: "set (filerec_head s) = dom (heap s)" using w(2) by (auto simp: ids_def)
  from free_unreferenced_loop_spec [OF assms(1) _ w(1), of empty_tree] dom assms(2) obtain s' where
    s': "filerec_free_unreferenced empty_tree s = Some s'" "files_wf s'"
      "heap s' = (\<lambda>p. if p \<in> set (filerec_head s) \<and> (\<exists>f. heap s p = Some f \<and> fr_refs f = 0) then None else heap s p)"
    unfolding filerec_free_unreferenced_def by blast
  have h: "heap s' p = (if \<exists>f. heap s p = Some f \<and> fr_refs f = 0 then None else heap s p)" for p
    using dom unfolding s'(3) by auto
  have find: "filerec_find s' fno = Some p \<longleftrightarrow> filerec_find s fno = Some p \<and> fr_refs (the (heap s p)) \<noteq> 0"
    for p fno
    unfolding filerec_find_iff [OF assms(1)] filerec_find_iff [OF s'(2)]
    by (cases "heap s p") (simp_all add: ids_def h)
  have "filerec_find s' fno = (case filerec_find s fno of None \<Rightarrow> None
       | Some p \<Rightarrow> if fr_refs (the (heap s p)) = 0 then None else Some p)" for fno
    using find [of fno "the (filerec_find s' fno)"] find [of fno "the (filerec_find s fno)"]
    by (cases "filerec_find s fno"; cases "filerec_find s' fno") auto
  then show ?thesis using s' by blast
qed

definition two_files :: filerecs where
  "two_files = (case filerec_new init_filerec 1 ''a'' 10 4096 of
     Some s \<Rightarrow> (case filerec_new s 2 ''b'' 20 4096 of Some s' \<Rightarrow> filerec_get s' 2 | None \<Rightarrow> s) | None \<Rightarrow> init_filerec)"

lemma two_files_eq:
  "two_files = \<lparr>heap = [1 \<mapsto> \<lparr>fr_fd = - 1, fd_refs = 0, fr_refs = 0, filename = ''a'', fileid = 10, fr_size = 4096\<rparr>,
       2 \<mapsto> \<lparr>fr_fd = - 1, fd_refs = 0, fr_refs = 1, filename = ''b'', fileid = 20, fr_size = 4096\<rparr>],
     by_fileid = Node (Node Leaf (20, 2) Leaf) (10, 1) Leaf, filerec_head = [2, 1], num_filerecs = 2\<rparr>"
  by (simp add: two_files_def filerec_new_def filerec_alloc_insert_def insert_filerec_def filerec_get_def
      init_filerec_def Let_def fileid_dir_def cmp_filerecs_def)

lemma two_files_wf: "files_wf two_files"
  by (rule files_wfI)
     (auto simp: two_files_eq ids_def fid.ordered_Node fileid_dir_def cmp_filerecs_def split: if_split_asm)

theorem free_unreferenced_exact_witness:
  "\<exists>s'. filerec_free_unreferenced (\<lambda>_. True) two_files = Some s' \<and> filerec_find s' 10 = None \<and>
    filerec_find s' 20 = Some 2"
proof -
  obtain s' where "filerec_free_unreferenced (\<lambda>_. True) two_files = Some s'"
    "\<forall>fno. filerec_find s' fno = (case filerec_find two_files fno of None \<Rightarrow> None
       | Some p \<Rightarrow> if fr_refs (the (heap two_files p)) = 0 then None else Some p)"
    using free_unreferenced_exact [OF two_files_wf, of "\<lambda>_. True"] by auto
  moreover have "filerec_find two_files 10 = Some 1" "filerec_find two_files 20 = Some 2"
    by (simp_all add: filerec_find_iff [OF two_files_wf]) (simp_all add: ids_def two_files_eq)
  moreover have "fr_refs (the (heap two_files 1)) = 0" "fr_refs (the (heap two_files 2)) = 1"
    by (simp_all add: two_files_eq)
  ultimately show ?thesis by simp
qed

subsection \<open>Opening and closing\<close>

text \<open>A file is open exactly when someone counts on it.\<close>

definition fds_ok :: "filerecs \<Rightarrow> bool" where
  "fds_ok s \<longleftrightarrow> (\<forall>p f. heap s p = Some f \<longrightarrow> (fr_fd f = - 1 \<longleftrightarrow> fd_refs f = 0))"

text \<open>Opening each file of a list once, errors passed over, as a batch does with its groups.\<close>

fun open_each :: "'k kopen \<Rightarrow> 'k \<Rightarrow> filerecs \<Rightarrow> nat tree \<Rightarrow> nat list \<Rightarrow> (filerecs \<times> nat tree \<times> 'k) option" where
  "open_each kopen k s t [] = Some (s, t, k)"
| "open_each kopen k s t (p # ps) =
    (case filerec_open_once kopen k s t p of
       None \<Rightarrow> None
     | Some (ret, s, t, k) \<Rightarrow> open_each kopen k s t ps)"

definition opened :: "filerecs \<Rightarrow> filerecs \<Rightarrow> nat tree \<Rightarrow> bool" where
  "opened s0 s t \<longleftrightarrow> tok.ordered t \<and> s = s0\<lparr>heap := heap s\<rparr> \<and>
    (\<forall>p. if p \<in> set_tree t
         then \<exists>f fd. heap s0 p = Some f \<and> fd \<noteq> - 1 \<and> (fd_refs f \<noteq> 0 \<longrightarrow> fd = fr_fd f) \<and>
                heap s p = Some (f\<lparr>fr_fd := fd, fd_refs := fd_refs f + 1\<rparr>)
         else heap s p = heap s0 p)"

text \<open>A descriptor is not -1 and an errno is not 0.\<close>

definition open_answers :: "'k kopen \<Rightarrow> bool" where
  "open_answers kopen \<longleftrightarrow> (\<forall>k n. case fst (kopen k n) of Inl err \<Rightarrow> err \<noteq> 0 | Inr fd \<Rightarrow> fd \<noteq> - 1)"

lemma open_once_opened:
  assumes "opened s0 s t" "fds_ok s0" "heap s0 p \<noteq> None"
    and "open_answers kopen"
  shows "\<exists>ret s' t' k'. filerec_open_once kopen k s t p = Some (ret, s', t', k') \<and> opened s0 s' t'"
proof -
  have o: "tok.ordered t" using assms(1) by (simp add: opened_def)
  have found: "find_filerec_token_rb t p = None \<longleftrightarrow> p \<notin> set_tree t"
    using tok.find_None [OF o, of p] by (auto simp: find_filerec_token_rb_def)
  show ?thesis
  proof (cases "p \<in> set_tree t")
    case True
    then show ?thesis using found assms(1) by (auto simp: filerec_open_once_def)
  next
    case False
    obtain f where f: "heap s0 p = Some f" using assms(3) by auto
    then have f': "heap s p = Some f" using assms(1) False by (auto simp: opened_def)
    have "rb_insert (token_dir p) p t \<noteq> None" using tok.insert_none [OF o, of p] False by auto
    then obtain t' where t': "rb_insert (token_dir p) p t = Some t'" by auto
    have i: "tok.ordered t'" "set_tree t' = insert p (set_tree t)"
      using tok.insert_some [OF o, of p t'] t' by simp_all
    have go: "opened s0 (s\<lparr>heap := (heap s)(p \<mapsto> f\<lparr>fr_fd := fd, fd_refs := fd_refs f + 1\<rparr>)\<rparr>) t'"
      if "fd \<noteq> - 1" "fd_refs f \<noteq> 0 \<longrightarrow> fd = fr_fd f" for fd
    proof -
      have s: "s = s0\<lparr>heap := heap s\<rparr>" using assms(1) by (simp add: opened_def)
      have "s\<lparr>heap := h\<rparr> = s0\<lparr>heap := h\<rparr>" for h by (subst s) simp
      note upd = this
      show ?thesis
        unfolding opened_def upd
      proof (intro conjI allI)
        show "tok.ordered t'" by (rule i(1))
        fix q
        show "if q \<in> set_tree t'
          then \<exists>g fd'. heap s0 q = Some g \<and> fd' \<noteq> - 1 \<and> (fd_refs g \<noteq> 0 \<longrightarrow> fd' = fr_fd g) \<and>
            heap (s0\<lparr>heap := (heap s)(p \<mapsto> f\<lparr>fr_fd := fd, fd_refs := fd_refs f + 1\<rparr>)\<rparr>) q =
              Some (g\<lparr>fr_fd := fd', fd_refs := fd_refs g + 1\<rparr>)
          else heap (s0\<lparr>heap := (heap s)(p \<mapsto> f\<lparr>fr_fd := fd, fd_refs := fd_refs f + 1\<rparr>)\<rparr>) q = heap s0 q"
        proof (cases "q = p")
          case True
          then show ?thesis using f i(2) that by auto
        next
          case False
          have "if q \<in> set_tree t
            then \<exists>g fd'. heap s0 q = Some g \<and> fd' \<noteq> - 1 \<and> (fd_refs g \<noteq> 0 \<longrightarrow> fd' = fr_fd g) \<and>
              heap s q = Some (g\<lparr>fr_fd := fd', fd_refs := fd_refs g + 1\<rparr>)
            else heap s q = heap s0 q"
            using assms(1) unfolding opened_def by blast
          moreover have "heap (s0\<lparr>heap := (heap s)(p \<mapsto> f\<lparr>fr_fd := fd, fd_refs := fd_refs f + 1\<rparr>)\<rparr>) q = heap s q"
            using False by simp
          moreover have "q \<in> set_tree t' \<longleftrightarrow> q \<in> set_tree t" using False i(2) by simp
          ultimately show ?thesis by (simp only:)
        qed
      qed simp
    qed
    show ?thesis
    proof (cases "fd_refs f = 0")
      case False
      then have "filerec_open kopen k s p = Some (0, s\<lparr>heap := (heap s)(p \<mapsto> f\<lparr>fr_fd := fr_fd f, fd_refs := fd_refs f + 1\<rparr>)\<rparr>, k)"
        using f' by (simp add: filerec_open_def)
      moreover have "fr_fd f \<noteq> - 1" using assms(2) f False by (simp add: fds_ok_def)
      ultimately show ?thesis
        using found \<open>p \<notin> set_tree t\<close> t' go [of "fr_fd f"] by (simp add: filerec_open_once_def insert_filerec_token_rb_def)
    next
      case True
      then have m1: "fr_fd f = - 1" using assms(2) f by (simp add: fds_ok_def)
      obtain r k' where r: "kopen k (filename f) = (r, k')" by fastforce
      show ?thesis
      proof (cases r)
        case (Inl err)
        then have "filerec_open kopen k s p = Some (err, s, k')" using True m1 r f' by (simp add: filerec_open_def)
        moreover have "err \<noteq> 0"
          using assms(4) [unfolded open_answers_def, THEN spec, THEN spec, of k "filename f"] r Inl by simp
        ultimately show ?thesis
          using found \<open>p \<notin> set_tree t\<close> assms(1) by (simp add: filerec_open_once_def)
      next
        case (Inr fd)
        then have "filerec_open kopen k s p = Some (0, s\<lparr>heap := (heap s)(p \<mapsto> f\<lparr>fr_fd := fd, fd_refs := fd_refs f + 1\<rparr>)\<rparr>, k')"
          using True m1 r f' by (simp add: filerec_open_def)
        moreover have "fd \<noteq> - 1"
          using assms(4) [unfolded open_answers_def, THEN spec, THEN spec, of k "filename f"] r Inr by simp
        ultimately show ?thesis
          using found \<open>p \<notin> set_tree t\<close> t' go [of fd] True by (simp add: filerec_open_once_def insert_filerec_token_rb_def)
      qed
    qed
  qed
qed

lemma open_each_opened:
  assumes "fds_ok s0" "open_answers kopen"
  shows "opened s0 s t \<Longrightarrow> set ps \<subseteq> dom (heap s0) \<Longrightarrow>
    \<exists>s' t' k'. open_each kopen k s t ps = Some (s', t', k') \<and> opened s0 s' t'"
proof (induction ps arbitrary: s t k)
  case (Cons p ps)
  have "heap s0 p \<noteq> None" using Cons(3) by auto
  from open_once_opened [OF Cons(2) assms(1) this assms(2), of k] obtain ret s1 t1 k1 where
    "filerec_open_once kopen k s t p = Some (ret, s1, t1, k1)" "opened s0 s1 t1" by blast
  then show ?case using Cons(1) [of s1 t1 k1] Cons(3) by simp
qed simp

lemma close_opened:
  fixes kclose :: "'k kclose" and k :: 'k
  assumes "opened s0 s t" "fds_ok s0" "p \<in> set_tree t"
  shows "\<exists>s' k'. filerec_close kclose k s p = Some (s', k') \<and> opened s0 s' (rb_erase (token_dir p) t)"
proof -
  have o: "tok.ordered t" and s: "s = s0\<lparr>heap := heap s\<rparr>" using assms(1) by (simp_all add: opened_def)
  have "if p \<in> set_tree t then \<exists>f fd. heap s0 p = Some f \<and> fd \<noteq> - 1 \<and> (fd_refs f \<noteq> 0 \<longrightarrow> fd = fr_fd f) \<and>
      heap s p = Some (f\<lparr>fr_fd := fd, fd_refs := fd_refs f + 1\<rparr>)
    else heap s p = heap s0 p"
    using assms(1) unfolding opened_def by blast
  then obtain f fd where f: "heap s0 p = Some f" "fd \<noteq> - 1" "fd_refs f \<noteq> 0 \<longrightarrow> fd = fr_fd f"
      "heap s p = Some (f\<lparr>fr_fd := fd, fd_refs := fd_refs f + 1\<rparr>)"
    using assms(3) by auto
  have reset: "f\<lparr>fr_fd := - 1, fd_refs := 0\<rparr> = f" if "fd_refs f = 0"
  proof -
    have "fr_fd f = - 1" using assms(2) f(1) that unfolding fds_ok_def by blast
    then show ?thesis using that by (cases f) simp
  qed
  have same: "f\<lparr>fr_fd := fd, fd_refs := fd_refs f\<rparr> = f" if "fd_refs f \<noteq> 0"
    using f(3) that by (cases f) simp
  have "\<exists>k'. filerec_close kclose k s p = Some (s\<lparr>heap := (heap s)(p \<mapsto> f)\<rparr>, k')"
  proof (cases "fd_refs f = 0")
    case True
    have "f\<lparr>fr_fd := fd, fd_refs := 0, fd_refs := 0, fr_fd := - 1\<rparr> = f\<lparr>fr_fd := - 1, fd_refs := 0\<rparr>" by simp
    then show ?thesis using f(2,4) True reset by (simp add: filerec_close_def)
  next
    case False
    then show ?thesis using f(2,3,4) same by (simp add: filerec_close_def)
  qed
  moreover have "opened s0 (s\<lparr>heap := (heap s)(p \<mapsto> f)\<rparr>) (rb_erase (token_dir p) t)"
  proof -
    have upd: "s\<lparr>heap := h\<rparr> = s0\<lparr>heap := h\<rparr>" for h by (subst s) simp
    have st: "set_tree (rb_erase (token_dir p) t) = {q \<in> set_tree t. q \<noteq> p}" by (rule tok.erase_set [OF o])
    show ?thesis
      unfolding opened_def upd
    proof (intro conjI allI)
      show "tok.ordered (rb_erase (token_dir p) t)" by (rule tok.erase_ordered [OF o])
      fix q
      show "if q \<in> set_tree (rb_erase (token_dir p) t)
        then \<exists>g fd'. heap s0 q = Some g \<and> fd' \<noteq> - 1 \<and> (fd_refs g \<noteq> 0 \<longrightarrow> fd' = fr_fd g) \<and>
          heap (s0\<lparr>heap := (heap s)(p \<mapsto> f)\<rparr>) q = Some (g\<lparr>fr_fd := fd', fd_refs := fd_refs g + 1\<rparr>)
        else heap (s0\<lparr>heap := (heap s)(p \<mapsto> f)\<rparr>) q = heap s0 q"
      proof (cases "q = p")
        case True
        then show ?thesis using f(1) by (simp add: st)
      next
        case False
        have "if q \<in> set_tree t
          then \<exists>g fd'. heap s0 q = Some g \<and> fd' \<noteq> - 1 \<and> (fd_refs g \<noteq> 0 \<longrightarrow> fd' = fr_fd g) \<and>
            heap s q = Some (g\<lparr>fr_fd := fd', fd_refs := fd_refs g + 1\<rparr>)
          else heap s q = heap s0 q"
          using assms(1) unfolding opened_def by blast
        moreover have "heap (s0\<lparr>heap := (heap s)(p \<mapsto> f)\<rparr>) q = heap s q" using False by simp
        moreover have "q \<in> set_tree (rb_erase (token_dir p) t) \<longleftrightarrow> q \<in> set_tree t" using False by (simp add: st)
        ultimately show ?thesis by (simp only:)
      qed
    qed simp
  qed
  ultimately show ?thesis by blast
qed

lemma size_erase:
  assumes "tok.ordered t" "p \<in> set_tree t"
  shows "Suc (size (rb_erase (token_dir p) t)) = size t"
proof -
  have "inorder (rb_erase (token_dir p) t) = remove1 p (inorder t)"
    using tok.erase_inorder [OF assms(1), of p] tok.ordered_distinct [OF assms(1)]
    by (simp add: distinct_remove1_removeAll removeAll_filter_not_eq eq_commute)
  then have "length (inorder (rb_erase (token_dir p) t)) = length (remove1 p (inorder t))" by simp
  then have "size (rb_erase (token_dir p) t) = size t - 1" using assms(2) by (simp add: length_remove1)
  moreover have "0 < size t" using assms(2) by (cases t) simp_all
  ultimately show ?thesis by linarith
qed

lemma opened_Leaf: "opened s0 s Leaf \<longleftrightarrow> s = s0"
  by (cases s; cases s0) (auto simp: opened_def)

lemma close_list_opened:
  "opened s0 s t \<Longrightarrow> fds_ok s0 \<Longrightarrow> size t < fuel \<Longrightarrow>
    \<exists>k'. filerec_close_open_list fuel kclose k s t = Some (s0, k')"
proof (induction fuel arbitrary: s t k)
  case (Suc fuel)
  show ?case
  proof (cases "rb_first t")
    case None
    then show ?thesis using Suc(2) opened_Leaf by auto
  next
    case (Some p)
    have p: "p \<in> set_tree t" by (rule rb_first_in [OF Some])
    have o: "tok.ordered t" using Suc(2) by (simp add: opened_def)
    from close_opened [OF Suc(2,3) p, of kclose k] obtain s' k' where
      "filerec_close kclose k s p = Some (s', k')" "opened s0 s' (rb_erase (token_dir p) t)" by blast
    moreover from this(2) size_erase [OF o p] Suc(1) [of s' "rb_erase (token_dir p) t" k'] Suc(3,4)
    obtain k'' where "filerec_close_open_list fuel kclose k' s' (rb_erase (token_dir p) t) = Some (s0, k'')" by auto
    ultimately show ?thesis using Some by simp
  qed
qed simp

text \<open>C14: files opened once each for a group, whatever of them could not be opened and however many
  groups hold them open already, are back where they were when the group's list is closed: counts,
  descriptors and all, and neither abort is taken.\<close>

theorem open_close_roundtrip:
  assumes "fds_ok s" "open_answers kopen" "set ps \<subseteq> dom (heap s)"
  shows "\<exists>s' t k'. open_each kopen k s Leaf ps = Some (s', t, k') \<and>
    (\<exists>k''. filerec_close_open_list (Suc (size t)) kclose k' s' t = Some (s, k''))"
proof -
  have "opened s s Leaf" by (simp add: opened_Leaf)
  from open_each_opened [OF assms(1,2) this assms(3), of k] obtain s' t k' where
    o: "open_each kopen k s Leaf ps = Some (s', t, k')" "opened s s' t" by blast
  then show ?thesis using close_list_opened [OF o(2) assms(1), of "Suc (size t)" kclose k'] by auto
qed

theorem open_close_roundtrip_witness:
  "\<exists>s' t k'. open_each (\<lambda>k n. (if n = ''a'' then Inl ENOENT else Inr 5, k)) () two_files Leaf [1, 2, 2] = Some (s', t, k') \<and>
    (\<exists>k''. filerec_close_open_list (Suc (size t)) (\<lambda>k fd. k) k' s' t = Some (two_files, k''))"
  by (rule open_close_roundtrip)
     (auto simp: fds_ok_def two_files_eq open_answers_def split: if_split_asm)

text \<open>The files with some of them opened for the group have the same records.\<close>

lemma opened_dom: "opened s0 s t \<Longrightarrow> p \<in> dom (heap s0) \<Longrightarrow> \<exists>f. heap s p = Some f"
  unfolding opened_def by (cases "p \<in> set_tree t") (metis, metis domD)

text \<open>One open and its close, as when a single file is mapped.\<close>

lemma open_then_close:
  fixes kclose :: "'k kclose"
  assumes "fds_ok fs0" "heap fs0 p \<noteq> None" "open_answers kopen"
  shows "\<exists>ret fs k'. filerec_open kopen k fs0 p = Some (ret, fs, k') \<and> (ret \<noteq> 0 \<longrightarrow> fs = fs0) \<and>
    (ret = 0 \<longrightarrow> heap fs p \<noteq> None \<and> (\<forall>k1. \<exists>k2. filerec_close kclose k1 fs p = Some (fs0, k2)))"
proof -
  have leaf: "opened fs0 fs0 Leaf" by (simp add: opened_Leaf)
  obtain ret fs t k' where o: "filerec_open_once kopen k fs0 Leaf p = Some (ret, fs, t, k')" "opened fs0 fs t"
    using open_once_opened [OF leaf assms, of k] by blast
  have r: "filerec_open kopen k fs0 p = Some (ret, fs, k')" and t: "t = (if ret = 0 then Node Leaf p Leaf else Leaf)"
    using o(1) by (auto simp: filerec_open_once_def find_filerec_token_rb_def insert_filerec_token_rb_def
        split: option.splits if_split_asm)
  show ?thesis
  proof (intro exI [of _ ret] exI [of _ fs] exI [of _ k'] conjI impI allI r)
    show "fs = fs0" if "ret \<noteq> 0" using o(2) t that by (simp add: opened_Leaf)
    show "heap fs p \<noteq> None" if "ret = 0"
      using opened_dom [OF o(2), of p] assms(2) by auto
    show "\<exists>k2. filerec_close kclose k1 fs p = Some (fs0, k2)" if "ret = 0" for k1
    proof -
      have "p \<in> set_tree t" using t that by simp
      from close_opened [OF o(2) assms(1) this, of kclose k1] obtain s' k2 where
        "filerec_close kclose k1 fs p = Some (s', k2)" "opened fs0 s' (rb_erase (token_dir p) t)" by blast
      moreover have "rb_erase (token_dir p) t = Leaf" using t that by (simp add: token_dir_def)
      ultimately show ?thesis by (simp add: opened_Leaf)
    qed
  qed
qed

lemma fiemap_scan_extent_ok:
  assumes "fds_ok fs0" "heap fs0 p \<noteq> None" "open_answers kopen"
  shows "\<exists>ret poff k'. fiemap_scan_extent kopen kclose first_poff k fs0 p = Some (ret, poff, fs0, k') \<and>
    (ret = 0 \<longleftrightarrow> poff \<noteq> None)"
proof -
  obtain ret fs k1 where o: "filerec_open kopen k fs0 p = Some (ret, fs, k1)" "ret \<noteq> 0 \<longrightarrow> fs = fs0"
    "ret = 0 \<longrightarrow> heap fs p \<noteq> None \<and> (\<forall>k1. \<exists>k2. filerec_close kclose k1 fs p = Some (fs0, k2))"
    using open_then_close [OF assms, of k kclose] by blast
  show ?thesis
  proof (cases "ret = 0")
    case False
    then show ?thesis using o by (simp add: fiemap_scan_extent_def)
  next
    case True
    then obtain f where f: "heap fs p = Some f" using o(3) by auto
    obtain poff k2 where fp: "first_poff k1 (fr_fd f) = (poff, k2)" by fastforce
    obtain k3 where "filerec_close kclose k2 fs p = Some (fs0, k3)" using o(3) True by blast
    then show ?thesis using o(1) True f fp by (auto simp: fiemap_scan_extent_def)
  qed
qed

end
