(* ===== verification/RunDedupe.thy ===== *)
theory RunDedupe
  imports Dedupe Fiemap Filerec ResultsTree
begin

text \<open>
  \<open>src/run_dedupe.c\<close>, the work on one group: from the already-shared members culled, over the walk that
  fills batches of requests against the group's first member, to the hashfile's updates. What the
  program asks the kernel for is the record \<open>os\<close> over a kernel state; the updates of the hashfile are
  a list of \<open>db_op\<close>. A missing file record, an assertion that fails and a free of something that is
  not there are all \<open>Abort\<close>. Messages, the status line and running out of memory are left out. Other
  workers change other groups of the tree, under its mutex, and are not shown here.
\<close>

record 'k os =
  os_bs :: u32
  os_open :: "'k kopen"
  os_close :: "'k kclose"
  os_dedupe :: "'k dedupe_ioctl"
  os_fiemap :: "int \<Rightarrow> 'k fiemap_ioctl"
  os_size :: "'k \<Rightarrow> int \<Rightarrow> u64 option"
  os_unstable :: bool

datatype db_op = RemoveFile string | RemoveExtentHashes int | UpdatePoff int u64 u64

text \<open>The locals of \<open>dedupe_extent_list\<close>, the counters it bumps and what it acts on.\<close>

record 'k group_run =
  g_files :: filerecs
  g_open :: "nat tree"
  g_os :: 'k
  g_ctxt :: "dedupe_ctxt option"
  g_target :: "extent option"
  g_map :: "fiemap option option"
  g_cmp_len :: u64
  g_seen :: "fiemap_phys_set option"
  g_ticked :: u64
  g_freed :: u64
  g_net :: u64
  g_changed :: nat
  g_differs :: nat
  g_errors :: nat
  g_already :: nat
  g_db :: "db_op list"

definition of_option :: "'a option \<Rightarrow> 'a outcome" where
  "of_option r = (case r of None \<Rightarrow> Abort | Some x \<Rightarrow> Ok x)"

fun and_then :: "'a outcome \<Rightarrow> ('a \<Rightarrow> 'b outcome) \<Rightarrow> 'b outcome" where
  "and_then (Ok x) f = f x"
| "and_then Abort f = Abort"
| "and_then NoFuel f = NoFuel"

lemma and_then_of_option [simp]: "and_then (of_option (Some x)) f = f x"
  by (simp add: of_option_def)

subsection \<open>Culling the members that share the target's storage\<close>

definition disk_extent_grew :: "u64 \<Rightarrow> extent \<Rightarrow> bool" where
  "disk_extent_grew len e \<longleftrightarrow> e_plen e < len"

text \<open>False is the null group: fewer than two members were left, and it was freed.\<close>

fun clean_loop :: "group_id \<Rightarrow> extent \<Rightarrow> results_tree \<Rightarrow> extent list \<Rightarrow> (bool \<times> results_tree) option" where
  "clean_loop g target res [] = Some (True, res)"
| "clean_loop g target res (e # rest) =
    (if place_of e = place_of target \<or> e_poff e \<noteq> e_poff target \<or> disk_extent_grew (fst g) e
     then clean_loop g target res rest
     else case remove_extent res g (place_of e) of
            None \<Rightarrow> None
          | Some (n_left, res) \<Rightarrow> if n_left = 0 then Some (False, res) else clean_loop g target res rest)"

definition clean_deduped :: "dupe_extents \<Rightarrow> results_tree \<Rightarrow> extent \<Rightarrow> (bool \<times> results_tree) option" where
  "clean_deduped d res target =
    (if e_poff target = 0 \<or> disk_extent_grew (de_len d) target then Some (True, res)
     else clean_loop (group_of d) target res (de_extents d))"

subsection \<open>Accounting\<close>

definition group_tick :: "'k group_run \<Rightarrow> u64 \<Rightarrow> 'k group_run" where
  "group_tick s bytes = s\<lparr>g_ticked := g_ticked s + bytes\<rparr>"

abbreviation FILE_DEDUPE_RANGE_DIFFERS :: int where "FILE_DEDUPE_RANGE_DIFFERS \<equiv> 1"

definition tally_result :: "nat \<Rightarrow> 'k group_run \<Rightarrow> int \<times> u64 \<times> u64 \<times> nat \<Rightarrow> 'k group_run" where
  "tally_result src s = (\<lambda>(target_status, target_freed, target_done, f).
    let s = s\<lparr>g_freed := g_freed s + target_freed\<rparr>
    in if target_status = 0 \<or> (target_status = - EINVAL \<and> f = src) then s
       else if target_status = FILE_DEDUPE_RANGE_DIFFERS then s\<lparr>g_differs := g_differs s + 1\<rparr>
       else s\<lparr>g_errors := g_errors s + 1\<rparr>)"

function process_dedupe_results :: "dedupe_ctxt \<Rightarrow> 'k group_run \<Rightarrow> 'k group_run outcome" where
  "process_dedupe_results c s =
    (case pop_one_dedupe_result c of
       Abort \<Rightarrow> Abort
     | NoFuel \<Rightarrow> NoFuel
     | Ok (was_last, result, c) \<Rightarrow>
         let s = tally_result (ioctl_file c) s result
         in if was_last then Ok s else process_dedupe_results c s)"
  by pat_completeness auto
termination
  by (relation "measure (\<lambda>(c, _). length (completed c))")
     (auto simp: pop_one_dedupe_result_def split: list.split_asm)

declare process_dedupe_results.simps [simp del]

definition add_shared_extents :: "dupe_extents \<Rightarrow> u64" where
  "add_shared_extents d = sum_list (map e_shared_bytes (de_extents d))"

definition fd_of :: "'k group_run \<Rightarrow> nat \<Rightarrow> int outcome" where
  "fd_of s file = of_option (map_option fr_fd (heap (g_files s) file))"

fun add_shared_extents_post ::
  "'k os \<Rightarrow> u64 \<Rightarrow> u64 \<Rightarrow> 'k group_run \<Rightarrow> extent list \<Rightarrow> (u64 \<times> 'k group_run) outcome" where
  "add_shared_extents_post os len shared s [] = Ok (shared, s)"
| "add_shared_extents_post os len shared s (e # rest) =
    and_then (of_option (filerec_open (os_open os) (g_os s) (g_files s) (e_file e)))
      (\<lambda>(ret, fs, k).
        let s = s\<lparr>g_files := fs, g_os := k\<rparr>
        in if ret \<noteq> 0 then Ok (shared, s)
           else and_then (fd_of s (e_file e)) (\<lambda>fd.
             and_then (of_option (fiemap_count_shared (os_fiemap os fd) (os_unstable os) k
                 (e_loff e) (e_loff e + len))) (\<lambda>(bytes, k).
               and_then (of_option (filerec_close (os_close os) k fs (e_file e))) (\<lambda>(fs, k).
                 add_shared_extents_post os len (shared + bytes) (s\<lparr>g_files := fs, g_os := k\<rparr>) rest))))"

subsection \<open>One member\<close>

text \<open>Has the file changed size since the scan? An extent may pass the end by less than a block.\<close>

definition size_changed :: "'k os \<Rightarrow> bool \<Rightarrow> u64 \<Rightarrow> 'k \<Rightarrow> int \<Rightarrow> u64 \<Rightarrow> bool" where
  "size_changed os whole_file len k fd loff =
    (case os_size os k fd of
       None \<Rightarrow> False
     | Some st_size \<Rightarrow>
         if whole_file then st_size \<noteq> len else st_size + ucast (os_bs os) - 1 < loff + len)"

text \<open>
  The label \<open>run_dedupe\<close> up to \<open>close_files\<close>. The fuel is what \<open>dedupe_extents\<close> needs for this queue:
  one round for each byte of each request is more than it can take.
\<close>

definition run_queued :: "'k os \<Rightarrow> 'k group_run \<Rightarrow> 'k group_run outcome" where
  "run_queued os s =
    (case g_ctxt s of
       None \<Rightarrow> Abort
     | Some c \<Rightarrow>
         if num_queued c = 0 then Ok s
         else and_then (fd_of s (ioctl_file c)) (\<lambda>fd.
           and_then (dedupe_extents (Suc (length (queued c) * Suc (unat (orig_len c)))) (os_bs os)
               (os_size os (g_os s) fd) (os_dedupe os) (g_os s) c) (\<lambda>(ret, c, k).
             process_dedupe_results c (fold (\<lambda>b s. group_tick s b) (progress c) (s\<lparr>g_os := k\<rparr>)))))"

text \<open>The label \<open>close_files\<close>, to the end of the loop's body; true leaves the loop.\<close>

definition close_files :: "'k os \<Rightarrow> 'k group_run \<Rightarrow> extent list \<Rightarrow> (bool \<times> 'k group_run) outcome" where
  "close_files os s rest =
    and_then (of_option (filerec_close_open_list (Suc (size (g_open s))) (os_close os) (g_os s) (g_files s) (g_open s)))
      (\<lambda>(fs, k).
        let s = s\<lparr>g_files := fs, g_os := k, g_open := Leaf, g_ctxt := None\<rparr>
        in if rest = [] then Ok (False, s)
           else case g_target s of
                  None \<Rightarrow> Abort
                | Some tgt \<Rightarrow>
                    and_then (of_option (filerec_open_once (os_open os) k fs Leaf (e_file tgt)))
                      (\<lambda>(ret, fs, t, k).
                        let s = s\<lparr>g_files := fs, g_os := k, g_open := t\<rparr>
                        in if ret \<noteq> 0 then Ok (True, s\<lparr>g_errors := g_errors s + length rest\<rparr>)
                           else Ok (False, s)))"

definition run_round :: "'k os \<Rightarrow> 'k group_run \<Rightarrow> extent list \<Rightarrow> (bool \<times> 'k group_run) outcome" where
  "run_round os s rest = and_then (run_queued os s) (\<lambda>s. close_files os s rest)"

text \<open>A member passed over: the round is run when this was the last one and there is one to run.\<close>

definition skip_member :: "'k os \<Rightarrow> 'k group_run \<Rightarrow> extent list \<Rightarrow> (bool \<times> 'k group_run) outcome" where
  "skip_member os s rest =
    (if g_ctxt s \<noteq> None \<and> rest = [] then run_round os s rest else Ok (False, s))"

definition open_failed :: "'k group_run \<Rightarrow> int \<Rightarrow> string \<Rightarrow> 'k group_run" where
  "open_failed s err name =
    (if err = ENOENT then s\<lparr>g_db := g_db s @ [RemoveFile name]\<rparr> else s\<lparr>g_errors := g_errors s + 1\<rparr>)"

definition map_target :: "'k os \<Rightarrow> u64 \<Rightarrow> extent \<Rightarrow> 'k group_run \<Rightarrow> 'k group_run outcome" where
  "map_target os len tgt s =
    (if g_map s \<noteq> None then Ok s
     else and_then (fd_of s (e_file tgt)) (\<lambda>fd.
       let cmp_len = dedupe_shareable_len (os_bs os) len;
           (m, k) = do_fiemap_range (os_fiemap os fd) (os_unstable os) (g_os s) (e_loff tgt) cmp_len
       in Ok (s\<lparr>g_os := k, g_map := Some m, g_cmp_len := cmp_len\<rparr>)))"

text \<open>Is this destination on the target's storage already, and if not, how much of it is not?\<close>

definition measure_dest ::
  "'k os \<Rightarrow> extent \<Rightarrow> 'k group_run \<Rightarrow> extent \<Rightarrow> (bool \<times> u64 \<times> 'k group_run) outcome" where
  "measure_dest os tgt s e =
    (case g_map s of
       Some (Some tgt_map) \<Rightarrow>
         and_then (fd_of s (e_file e)) (\<lambda>fd.
           let (dest_map, k) = do_fiemap_range (os_fiemap os fd) (os_unstable os) (g_os s) (e_loff e) (g_cmp_len s);
               s = s\<lparr>g_os := k\<rparr>
           in if fiemap_maps_share (Some tgt_map) (e_loff tgt) dest_map (e_loff e) (g_cmp_len s)
              then Ok (True, g_cmp_len s, s)
              else let seen = (case g_seen s of Some seen \<Rightarrow> seen | None \<Rightarrow> fiemap_phys_set_init (Some tgt_map));
                       (unshared, seen) = fiemap_unshared_bytes seen dest_map (e_loff e) (g_cmp_len s)
                   in Ok (False, unshared, s\<lparr>g_seen := Some seen\<rparr>))
     | _ \<Rightarrow> Ok (False, g_cmp_len s, s))"

definition add_member ::
  "'k os \<Rightarrow> u64 \<Rightarrow> extent \<Rightarrow> 'k group_run \<Rightarrow> dedupe_ctxt \<Rightarrow> extent \<Rightarrow> extent list \<Rightarrow>
     (bool \<times> 'k group_run) outcome" where
  "add_member os len tgt s c e rest =
    and_then (map_target os len tgt s) (\<lambda>s.
      and_then (measure_dest os tgt s e) (\<lambda>(shared, unshared, s).
        if shared then skip_member os (group_tick (s\<lparr>g_already := g_already s + 1\<rparr>) len) rest
        else and_then (add_extent_to_dedupe c (e_loff e) (e_file e) unshared) (\<lambda>(rc, c).
          let s = s\<lparr>g_ctxt := Some c\<rparr>
          in if rc \<noteq> 0 \<and> rest \<noteq> [] then Ok (False, s) else run_round os s rest)))"

text \<open>\<open>rest\<close> is what follows the member in the list: none when it is the last.\<close>

definition dedupe_member ::
  "'k os \<Rightarrow> bool \<Rightarrow> dupe_extents \<Rightarrow> 'k group_run \<Rightarrow> extent \<Rightarrow> extent list \<Rightarrow>
     (bool \<times> 'k group_run) outcome" where
  "dedupe_member os whole_file d s e rest =
    and_then (of_option (filerec_open_once (os_open os) (g_os s) (g_files s) (g_open s) (e_file e)))
      (\<lambda>(ret, fs, t, k).
        let s = s\<lparr>g_files := fs, g_open := t, g_os := k\<rparr>;
            len = de_len d;
            new_ctxt = (\<lambda>tgt. new_dedupe_ctxt (of_nat (de_num_dupes d)) (e_loff tgt) len (e_file tgt))
        in case heap fs (e_file e) of
             None \<Rightarrow> Abort
           | Some f \<Rightarrow>
               if ret \<noteq> 0 then skip_member os (open_failed s ret (filename f)) rest
               else if size_changed os whole_file len k (fr_fd f) (e_loff e)
               then skip_member os (s\<lparr>g_changed := g_changed s + 1\<rparr>) rest
               else case (g_ctxt s, g_target s) of
                      (None, None) \<Rightarrow>
                        if rest = [] then close_files os s rest
                        else Ok (False, s\<lparr>g_target := Some e, g_ctxt := Some (new_ctxt e)\<rparr>)
                    | (None, Some tgt) \<Rightarrow>
                        add_member os len tgt (s\<lparr>g_ctxt := Some (new_ctxt tgt)\<rparr>) (new_ctxt tgt) e rest
                    | (Some c, Some tgt) \<Rightarrow> add_member os len tgt s c e rest
                    | (Some c, None) \<Rightarrow> Abort)"

fun member_loop ::
  "'k os \<Rightarrow> bool \<Rightarrow> dupe_extents \<Rightarrow> 'k group_run \<Rightarrow> extent list \<Rightarrow> 'k group_run outcome" where
  "member_loop os whole_file d s [] = Ok s"
| "member_loop os whole_file d s (e # rest) =
    and_then (dedupe_member os whole_file d s e rest)
      (\<lambda>(leave, s). if leave then Ok s else member_loop os whole_file d s rest)"

subsection \<open>A group\<close>

text \<open>False is \<open>DEDUPE_EXTENTS_CLEANED\<close>. \<open>report\<close> is \<open>report_net_shared\<close>.\<close>

definition dedupe_extent_list ::
  "'k os \<Rightarrow> bool \<Rightarrow> bool \<Rightarrow> results_tree \<Rightarrow> group_id \<Rightarrow> 'k group_run \<Rightarrow>
     (bool \<times> results_tree \<times> 'k group_run) outcome" where
  "dedupe_extent_list os report whole_file res g s =
    and_then (of_option (rb_find (dext_dir g) (rt_root res))) (\<lambda>d.
      if de_num_dupes d < 2 \<or> de_extents d = [] then Abort
      else and_then (of_option (clean_deduped d res (hd (de_extents d)))) (\<lambda>(alive, res).
        if \<not> alive then Ok (False, res, s)
        else and_then (of_option (rb_find (dext_dir g) (rt_root res))) (\<lambda>d.
          let shared_prev = (if report then add_shared_extents d else 0)
          in and_then (member_loop os whole_file d s (de_extents d)) (\<lambda>s.
            and_then (of_option (filerec_close_open_list (Suc (size (g_open s))) (os_close os) (g_os s)
                (g_files s) (g_open s))) (\<lambda>(fs, k).
              let s = s\<lparr>g_files := fs, g_os := k, g_open := Leaf\<rparr>
              in if g_ctxt s \<noteq> None then Abort
                 else and_then (if report then add_shared_extents_post os (de_len d) 0 s (de_extents d) else Ok (0, s))
                   (\<lambda>(shared_post, s).
                     Ok (True, res,
                       if shared_prev < shared_post
                       then s\<lparr>g_net := g_net s + (shared_post - shared_prev)\<rparr> else s)))))))"

subsection \<open>Culling, exactly\<close>

lemma dext_wf_distinct:
  assumes "dext_wf d"
  shows "distinct (map place_of (de_extents d))" "place_of ` set (de_extents d) = set_tree (de_extents_root d)"
    "length (de_extents d) = de_num_dupes d"
proof -
  have m: "mset (inorder (de_extents_root d)) = mset (map place_of (de_extents d))"
    and o: "ext.ordered (de_extents_root d)" using assms by (simp_all add: dext_wf_def)
  show "distinct (map place_of (de_extents d))"
    using ext.ordered_distinct [OF o] mset_eq_imp_distinct_iff [OF m] by blast
  show "place_of ` set (de_extents d) = set_tree (de_extents_root d)"
    using mset_eq_setD [OF m] by simp
  show "length (de_extents d) = de_num_dupes d" using assms by (simp add: dext_wf_def)
qed

lemma remove_extent_keeps:
  assumes "rt_wf res" "rb_find (dext_dir g) (rt_root res) = Some d" "e \<in> set_tree (de_extents_root d)"
    and "2 < de_num_dupes d" "remove_extent res g e = Some (n, res')"
  shows "rb_find (dext_dir g) (rt_root res') = Some (without d e)"
proof -
  have o: "dx.ordered (rt_root res)" using assms(1) by (simp add: rt_wf_def)
  note pl = places_found [OF assms(1,2)]
  note w = remove_loop_step [OF pl(3) assms(3)]
  have g: "group_of (without d e) = g" using w(4) pl(4) by simp
  have nz: "de_num_dupes (without d e) \<noteq> 0" using w(3) assms(4) by linarith
  have "remove_loop d e 0 = Some (de_num_dupes d - 1, 1, without d e)"
    using assms(4) by (subst remove_loop_eq) auto
  then have "rt_root res' = rb_modify (dext_dir g) (\<lambda>_. without d e) (rt_root res)"
    using assms(2,5) nz by (auto simp: remove_extent_def)
  moreover have "dx.ordered (rb_modify (dext_dir g) (\<lambda>_. without d e) (rt_root res))"
    using dx.modify_ordered [OF o, of g "\<lambda>_. without d e"] g by simp
  moreover obtain xs ys where "inorder (rb_modify (dext_dir g) (\<lambda>_. without d e) (rt_root res)) = xs @ without d e # ys"
    by (rule dx.found_split [OF o assms(2)]) blast
  ultimately show ?thesis
    using dx.find_iff [of "rt_root res'" g "without d e"] g by (simp add: set_inorder_split)
qed

definition kept :: "u64 \<Rightarrow> extent \<Rightarrow> extent \<Rightarrow> bool" where
  "kept len target e \<longleftrightarrow> place_of e = place_of target \<or> e_poff e \<noteq> e_poff target \<or> e_plen e < len"

lemma clean_loop_spec:
  assumes "rt_wf res" "no_empty res" "rb_find (dext_dir g) (rt_root res) = Some d" "2 \<le> de_num_dupes d"
    and "de_extents d = pre @ rest" "list_all (kept (fst g) target) pre"
  shows "\<exists>res'. clean_loop g target res rest =
      Some (2 \<le> length (filter (kept (fst g) target) (de_extents d)), res') \<and> rt_wf res' \<and> no_empty res' \<and>
    members res' - {g} \<times> UNIV = members res - {g} \<times> UNIV \<and>
    (if 2 \<le> length (filter (kept (fst g) target) (de_extents d))
     then \<exists>d'. rb_find (dext_dir g) (rt_root res') = Some d' \<and>
            de_extents d' = filter (kept (fst g) target) (de_extents d)
     else places res' g = {})"
  using assms
proof (induction rest arbitrary: res d pre)
  case Nil
  have "filter (kept (fst g) target) (de_extents d) = de_extents d"
    using Nil(5,6) by (simp add: list_all_iff)
  moreover have "length (de_extents d) = de_num_dupes d"
    using dext_wf_distinct(3) [OF places_found(3) [OF Nil(1,3)]] .
  ultimately show ?case using Nil(1-4) by simp
next
  case (Cons e rest)
  show ?case
  proof (cases "kept (fst g) target e")
    case True
    then have "clean_loop g target res (e # rest) = clean_loop g target res rest"
      by (simp add: kept_def disk_extent_grew_def)
    then show ?thesis using Cons(1) [OF Cons(2-5), of "pre @ [e]"] Cons(6,7) True by simp
  next
    case False
    note pl = places_found [OF Cons(2,4)]
    note dw = dext_wf_distinct [OF pl(3)]
    have ein: "place_of e \<in> set_tree (de_extents_root d)" using dw(2) Cons(6) by auto
    obtain res1 where r: "remove_extent res g (place_of e) =
          Some (if de_num_dupes d \<le> 2 then 0 else de_num_dupes d - 1, res1)" "rt_wf res1" "no_empty res1"
        "members res1 = members res - (if de_num_dupes d \<le> 2 then {g} \<times> UNIV else {(g, place_of e)})"
      using remove_extent_spec [OF Cons(2,3,4) ein] by blast
    have step: "clean_loop g target res (e # rest) =
        (if de_num_dupes d \<le> 2 then Some (False, res1) else clean_loop g target res1 rest)"
      using False r(1) by (auto simp add: kept_def disk_extent_grew_def)
    have flt: "filter (\<lambda>x. place_of x \<noteq> place_of e) (de_extents d) = pre @ rest"
    proof -
      have "\<forall>x\<in>set (pre @ rest). place_of x \<noteq> place_of e" using dw(1) unfolding Cons(6)
        by (simp add: image_iff del: prod.inject) (metis Un_iff)
      then have "filter (\<lambda>x. place_of x \<noteq> place_of e) (pre @ rest) = pre @ rest" by (rule filter_True)
      then show ?thesis unfolding Cons(6) by simp
    qed
    have keep: "filter (kept (fst g) target) (de_extents d) = filter (kept (fst g) target) (pre @ rest)"
      using False by (simp add: Cons(6))
    show ?thesis
    proof (cases "de_num_dupes d \<le> 2")
      case True
      then have "length (pre @ rest) = 1" using dw(3) Cons(5,6) by simp
      then have "\<not> 2 \<le> length (filter (kept (fst g) target) (pre @ rest))"
        using length_filter_le [of "kept (fst g) target" "pre @ rest"] by linarith
      moreover have "places res1 g = {}" using r(4) True by (auto simp: places_def)
      ultimately show ?thesis using step True r keep by auto
    next
      case big: False
      have f1: "rb_find (dext_dir g) (rt_root res1) = Some (without d (place_of e))"
        using remove_extent_keeps [OF Cons(2,4) ein] big r(1) by simp
      have "de_extents (without d (place_of e)) = pre @ rest" using flt by (simp add: without_def)
      moreover have "2 \<le> de_num_dupes (without d (place_of e))" using big by (simp add: without_def)
      moreover have "members res1 - {g} \<times> UNIV = members res - {g} \<times> UNIV" using r(4) big by auto
      ultimately have "filter (kept (fst g) target) (de_extents d) =
          filter (kept (fst g) target) (de_extents (without d (place_of e)))"
        and ih: "2 \<le> de_num_dupes (without d (place_of e))" "de_extents (without d (place_of e)) = pre @ rest"
          "members res1 - {g} \<times> UNIV = members res - {g} \<times> UNIV"
        using keep by simp_all
      then show ?thesis
        using Cons(1) [OF r(2,3) f1 ih(1,2) Cons(7)] step big by (simp only: if_False ih(3))
    qed
  qed
qed

definition stays :: "dupe_extents \<Rightarrow> extent \<Rightarrow> extent \<Rightarrow> bool" where
  "stays d target e \<longleftrightarrow> e_poff target = 0 \<or> e_plen target < de_len d \<or>
    place_of e = place_of target \<or> e_poff e \<noteq> e_poff target \<or> e_plen e < de_len d"

lemma clean_deduped_spec:
  assumes "rt_wf res" "no_empty res" "rb_find (dext_dir g) (rt_root res) = Some d" "2 \<le> de_num_dupes d"
  shows "\<exists>res'. clean_deduped d res target = Some (2 \<le> length (filter (stays d target) (de_extents d)), res') \<and>
    rt_wf res' \<and> no_empty res' \<and> members res' - {g} \<times> UNIV = members res - {g} \<times> UNIV \<and>
    (if 2 \<le> length (filter (stays d target) (de_extents d))
     then \<exists>d'. rb_find (dext_dir g) (rt_root res') = Some d' \<and>
            de_extents d' = filter (stays d target) (de_extents d)
     else places res' g = {})"
proof (cases "e_poff target = 0 \<or> e_plen target < de_len d")
  case True
  then have "stays d target = (\<lambda>_. True)" by (auto simp: stays_def)
  then show ?thesis
    using True assms(1-4) dext_wf_distinct(3) [OF places_found(3) [OF assms(1,3)]]
    by (simp add: clean_deduped_def disk_extent_grew_def)
next
  case False
  have g: "group_of d = g" by (rule places_found(4) [OF assms(1,3)])
  then have "stays d target = kept (fst g) target" using False by (auto simp: stays_def kept_def)
  then show ?thesis
    using False g clean_loop_spec [OF assms(1-4), of "[]" "de_extents d" target]
    by (auto simp add: clean_deduped_def disk_extent_grew_def split: if_split_asm)
qed

text \<open>C12: the culling of a group is relative to its target: exactly the members whose stored address is
  the target's, and whose stored extent covers the whole length, leave, the target stays at its
  place, no other group is touched, and the group itself goes once fewer than two are left. With no
  address for the target nothing leaves.\<close>

theorem clean_deduped_exact:
  assumes "rt_wf res" "no_empty res" "rb_find (dext_dir g) (rt_root res) = Some d" "2 \<le> de_num_dupes d"
  shows "\<exists>res'. clean_deduped d res target = Some (2 \<le> length (filter (stays d target) (de_extents d)), res') \<and>
    rt_wf res' \<and> no_empty res' \<and> members res' - {g} \<times> UNIV = members res - {g} \<times> UNIV \<and>
    (if 2 \<le> length (filter (stays d target) (de_extents d))
     then \<exists>d'. rb_find (dext_dir g) (rt_root res') = Some d' \<and>
            de_extents d' = filter (stays d target) (de_extents d)
     else places res' g = {})"
  by (rule clean_deduped_spec [OF assms])

text \<open>Three copies: the second is on the first one's storage already, the third is not.\<close>

definition three_copies :: dupe_extents where
  "three_copies = \<lparr>de_num_dupes = 3, de_len = 4096, de_hash = [1],
     de_extents = [\<lparr>e_loff = 0, e_file = 1, e_poff = 100, e_plen = 4096, e_shared_bytes = 0\<rparr>,
                   \<lparr>e_loff = 0, e_file = 2, e_poff = 100, e_plen = 4096, e_shared_bytes = 0\<rparr>,
                   \<lparr>e_loff = 8192, e_file = 2, e_poff = 900, e_plen = 4096, e_shared_bytes = 0\<rparr>],
     de_extents_root = Node (Node Leaf (1, 0) Leaf) (2, 0) (Node Leaf (2, 8192) Leaf)\<rparr>"

definition three_results :: results_tree where
  "three_results = \<lparr>rt_root = Node Leaf three_copies Leaf, num_dupes = 1, num_extents = 3\<rparr>"

lemma three_copies_eq:
  "de_num_dupes three_copies = 3" "de_len three_copies = 4096" "de_hash three_copies = [1]"
  "de_extents three_copies =
    [\<lparr>e_loff = 0, e_file = 1, e_poff = 100, e_plen = 4096, e_shared_bytes = 0\<rparr>,
     \<lparr>e_loff = 0, e_file = 2, e_poff = 100, e_plen = 4096, e_shared_bytes = 0\<rparr>,
     \<lparr>e_loff = 8192, e_file = 2, e_poff = 900, e_plen = 4096, e_shared_bytes = 0\<rparr>]"
  by (simp_all add: three_copies_def)

lemma three_results_wf:
  "rt_wf three_results" "no_empty three_results"
  "rb_find (dext_dir (4096, [1])) (rt_root three_results) = Some three_copies"
proof -
  have "dext_wf three_copies"
    by (simp add: dext_wf_def three_copies_def ext.ordered_Node extent_dir_def extents_rb_cmp_def)
  then show "rt_wf three_results"
    by (simp add: rt_wf_def three_results_def dx.ordered_Node three_copies_eq)
  show "no_empty three_results" by (simp add: no_empty_def three_results_def three_copies_eq)
  show "rb_find (dext_dir (4096, [1])) (rt_root three_results) = Some three_copies"
    by (simp add: three_results_def dext_dir_def three_copies_eq)
qed

theorem clean_deduped_exact_witness:
  "\<exists>res' d'. clean_deduped three_copies three_results (hd (de_extents three_copies)) = Some (True, res') \<and>
    rb_find (dext_dir (4096, [1])) (rt_root res') = Some d' \<and> map e_poff (de_extents d') = [100, 900]"
proof -
  let ?f = "filter (stays three_copies (hd (de_extents three_copies))) (de_extents three_copies)"
  have keep: "map e_poff ?f = [100, 900]" by (simp add: three_copies_eq stays_def)
  have "length ?f = length (map e_poff ?f)" by simp
  then have "2 \<le> length ?f" unfolding keep by simp
  then show ?thesis
    using clean_deduped_exact [OF three_results_wf, of "hd (de_extents three_copies)"] keep
    by (auto simp: three_copies_eq(1))
qed

subsection \<open>The walk of a group\<close>

text \<open>What a result does: closed form of the loop that pops them.\<close>

definition result_of :: "dedupe_req \<Rightarrow> int \<times> u64 \<times> u64 \<times> nat" where
  "result_of r = (req_status r, if req_unshared r < req_total r then req_unshared r else req_total r,
     req_total r, req_file r)"

lemma process_dedupe_results_eq:
  "completed c \<noteq> [] \<Longrightarrow>
    process_dedupe_results c s = Ok (fold (\<lambda>r s. tally_result (ioctl_file c) s (result_of r)) (completed c) s)"
proof (induction "completed c" arbitrary: c s)
  case (Cons r rest)
  have p: "pop_one_dedupe_result c = Ok (rest = [], result_of r, c\<lparr>completed := rest\<rparr>)"
    using Cons(2) [symmetric] by (simp add: pop_one_dedupe_result_def result_of_def)
  show ?case
  proof (cases "rest = []")
    case True
    then show ?thesis using p Cons(2) [symmetric] by (simp add: process_dedupe_results.simps [of c])
  next
    case False
    then show ?thesis
      using p Cons(2) [symmetric] Cons(1) [of "c\<lparr>completed := rest\<rparr>"]
      by (simp add: process_dedupe_results.simps [of c])
  qed
qed simp

text \<open>Neither results nor ticks touch the files.\<close>

named_theorems files_kept

lemma tally_kept [files_kept]:
  "g_files (tally_result src s x) = g_files s" "g_open (tally_result src s x) = g_open s"
  "g_ctxt (tally_result src s x) = g_ctxt s" "g_target (tally_result src s x) = g_target s"
  by (simp_all add: tally_result_def Let_def split: prod.split)

lemma fold_tally_kept [files_kept]:
  "g_files (fold (\<lambda>r s. tally_result src s (result_of r)) rs s) = g_files s"
  "g_open (fold (\<lambda>r s. tally_result src s (result_of r)) rs s) = g_open s"
  "g_ctxt (fold (\<lambda>r s. tally_result src s (result_of r)) rs s) = g_ctxt s"
  "g_target (fold (\<lambda>r s. tally_result src s (result_of r)) rs s) = g_target s"
  by (induction rs arbitrary: s) (simp_all add: files_kept)

lemma group_tick_kept [files_kept]:
  "g_files (group_tick s b) = g_files s" "g_open (group_tick s b) = g_open s"
  "g_ctxt (group_tick s b) = g_ctxt s" "g_target (group_tick s b) = g_target s"
  by (simp_all add: group_tick_def)

lemma fold_tick_kept [files_kept]:
  "g_files (fold (\<lambda>b s. group_tick s b) bs s) = g_files s" "g_open (fold (\<lambda>b s. group_tick s b) bs s) = g_open s"
  "g_ctxt (fold (\<lambda>b s. group_tick s b) bs s) = g_ctxt s" "g_target (fold (\<lambda>b s. group_tick s b) bs s) = g_target s"
  by (induction bs arbitrary: s) (simp_all add: files_kept)

text \<open>Between members: a round under way has room, its source is a file, and it has a target.\<close>

definition has_room :: "dedupe_ctxt \<Rightarrow> bool" where
  "has_room c \<longleftrightarrow> num_queued c < max_queable c"

definition ctxt_ok :: "filerecs \<Rightarrow> dedupe_ctxt \<Rightarrow> bool" where
  "ctxt_ok fs0 c \<longleftrightarrow> ready c \<and> ioctl_file c \<in> dom (heap fs0)"

definition run_inv :: "filerecs \<Rightarrow> 'k group_run \<Rightarrow> bool" where
  "run_inv fs0 s \<longleftrightarrow> opened fs0 (g_files s) (g_open s) \<and>
    (\<forall>c. g_ctxt s = Some c \<longrightarrow> ctxt_ok fs0 c \<and> has_room c \<and> g_target s \<noteq> None) \<and>
    (\<forall>tgt. g_target s = Some tgt \<longrightarrow> e_file tgt \<in> dom (heap fs0))"

lemma run_queued_ok:
  assumes "opened fs0 (g_files s) (g_open s)" "g_ctxt s = Some c" "ctxt_ok fs0 c" "dedupe_kernel (os_dedupe os)"
  shows "\<exists>s'. run_queued os s = Ok s' \<and> g_files s' = g_files s \<and> g_open s' = g_open s \<and> g_target s' = g_target s"
proof (cases "num_queued c = 0")
  case True
  then show ?thesis using assms(2) by (simp add: run_queued_def)
next
  case False
  obtain f where f: "heap (g_files s) (ioctl_file c) = Some f"
    using opened_dom [OF assms(1)] assms(3) by (auto simp: ctxt_ok_def)
  have rdy: "ready c" using assms(3) by (simp add: ctxt_ok_def)
  then have "queued c \<noteq> []" using False by (auto simp: ready_def)
  obtain ret c' k' where r: "dedupe_extents (Suc (length (queued c) * Suc (unat (orig_len c)))) (os_bs os)
      (os_size os (g_os s) (fr_fd f)) (os_dedupe os) (g_os s) c = Ok (ret, c', k')"
      "image_mset req_key (mset (completed c')) = image_mset req_key (mset (queued c))"
    using dedupe_extents_spec [OF rdy assms(4) lessI] by blast
  have "size (mset (completed c')) = size (mset (queued c))"
    using arg_cong [OF r(2), of size] by simp
  then have "completed c' \<noteq> []" using \<open>queued c \<noteq> []\<close> by auto
  note q = process_dedupe_results_eq [OF this]
  show ?thesis
    using False assms(2) f r(1)
    by (simp add: run_queued_def fd_of_def q files_kept)
qed

lemma close_files_ok:
  assumes "opened fs0 (g_files s) (g_open s)" "fds_ok fs0" "open_answers (os_open os)"
    and "rest \<noteq> [] \<Longrightarrow> g_target s \<noteq> None" "\<And>tgt. g_target s = Some tgt \<Longrightarrow> e_file tgt \<in> dom (heap fs0)"
  shows "\<exists>leave s'. close_files os s rest = Ok (leave, s') \<and> run_inv fs0 s' \<and> g_ctxt s' = None"
proof -
  obtain k' where c: "filerec_close_open_list (Suc (size (g_open s))) (os_close os) (g_os s) (g_files s) (g_open s) =
      Some (fs0, k')"
    using close_list_opened [OF assms(1,2) lessI, of "os_close os" "g_os s"] by blast
  have leaf: "opened fs0 fs0 Leaf" by (simp add: opened_Leaf)
  show ?thesis
  proof (cases "rest = []")
    case True
    then have "close_files os s rest = Ok (False, s\<lparr>g_files := fs0, g_os := k', g_open := Leaf, g_ctxt := None\<rparr>)"
      using c by (simp add: close_files_def)
    then show ?thesis using leaf assms(5) by (auto simp add: run_inv_def)
  next
    case False
    then obtain tgt where t: "g_target s = Some tgt" "heap fs0 (e_file tgt) \<noteq> None"
      using assms(4,5) by fastforce
    obtain ret fs t' k'' where o: "filerec_open_once (os_open os) k' fs0 Leaf (e_file tgt) = Some (ret, fs, t', k'')"
        "opened fs0 fs t'"
      using open_once_opened [OF leaf assms(2) t(2) assms(3), of k'] by blast
    then show ?thesis using c False t assms(5) by (auto simp add: close_files_def run_inv_def Let_def)
  qed
qed

lemma run_round_ok:
  assumes "opened fs0 (g_files s) (g_open s)" "g_ctxt s = Some c" "ctxt_ok fs0 c" "g_target s = Some tgt"
    and "e_file tgt \<in> dom (heap fs0)"
    and "fds_ok fs0" "dedupe_kernel (os_dedupe os)" "open_answers (os_open os)"
  shows "\<exists>leave s'. run_round os s rest = Ok (leave, s') \<and> run_inv fs0 s' \<and> g_ctxt s' = None"
proof -
  obtain s1 where s1: "run_queued os s = Ok s1" "g_files s1 = g_files s" "g_open s1 = g_open s"
      "g_target s1 = g_target s"
    using run_queued_ok [OF assms(1-3,7)] by blast
  then show ?thesis
    using close_files_ok [of fs0 s1 os rest] assms by (simp add: run_round_def)
qed

text \<open>What a member's step must end with: the invariant, and no round left open at the end.\<close>

definition steps_well :: "filerecs \<Rightarrow> extent list \<Rightarrow> (bool \<times> 'k group_run) outcome \<Rightarrow> bool" where
  "steps_well fs0 rest r \<longleftrightarrow>
    (\<exists>leave s'. r = Ok (leave, s') \<and> run_inv fs0 s' \<and> (leave \<or> rest = [] \<longrightarrow> g_ctxt s' = None))"

lemma skip_member_ok:
  assumes "run_inv fs0 s" "fds_ok fs0" "dedupe_kernel (os_dedupe os)" "open_answers (os_open os)"
  shows "steps_well fs0 rest (skip_member os s rest)"
proof (cases "g_ctxt s \<noteq> None \<and> rest = []")
  case False
  then show ?thesis using assms(1) by (auto simp: skip_member_def steps_well_def)
next
  case True
  then obtain c tgt where c: "g_ctxt s = Some c" "ctxt_ok fs0 c" "g_target s = Some tgt"
      "e_file tgt \<in> dom (heap fs0)" "opened fs0 (g_files s) (g_open s)"
    using assms(1) unfolding run_inv_def by blast
  then show ?thesis
    using run_round_ok [OF c(5,1,2,3,4) assms(2-4), of rest] True by (auto simp add: skip_member_def steps_well_def)
qed

text \<open>Mapping and measuring only read.\<close>

lemma map_target_ok:
  assumes "opened fs0 (g_files s) (g_open s)" "e_file tgt \<in> dom (heap fs0)"
  shows "\<exists>s'. map_target os len tgt s = Ok s' \<and> g_files s' = g_files s \<and> g_open s' = g_open s \<and>
    g_ctxt s' = g_ctxt s \<and> g_target s' = g_target s"
proof -
  obtain f where "heap (g_files s) (e_file tgt) = Some f" using opened_dom [OF assms] by blast
  then show ?thesis
    by (auto simp: map_target_def fd_of_def Let_def split: prod.split)
qed

lemma measure_dest_ok:
  assumes "opened fs0 (g_files s) (g_open s)" "e_file e \<in> dom (heap fs0)"
  shows "\<exists>shared unshared s'. measure_dest os tgt s e = Ok (shared, unshared, s') \<and> g_files s' = g_files s \<and>
    g_open s' = g_open s \<and> g_ctxt s' = g_ctxt s \<and> g_target s' = g_target s"
proof -
  obtain f where "heap (g_files s) (e_file e) = Some f" using opened_dom [OF assms] by blast
  then show ?thesis
    by (auto simp: measure_dest_def fd_of_def Let_def split: prod.split option.split)
qed

lemma add_extent_room:
  assumes "ready c" "has_room c"
  shows "\<exists>rc c'. add_extent_to_dedupe c loff file unshared = Ok (rc, c') \<and> ready c' \<and>
    ioctl_file c' = ioctl_file c \<and> (rc \<noteq> 0 \<longrightarrow> has_room c')"
proof -
  define c' where "c' = c\<lparr>queued := queued c @ [new_dedupe_req file loff unshared], num_queued := num_queued c + 1\<rparr>"
  have a: "add_extent_to_dedupe c loff file unshared = Ok (sint (max_queable c - (num_queued c + 1)), c')"
    using assms(2) by (simp add: add_extent_to_dedupe_def has_room_def c'_def Let_def not_le)
  have "num_queued c + 1 \<le> max_queable c" using assms(2) unfolding has_room_def by uint_arith
  then have "has_room c'" if "sint (max_queable c - (num_queued c + 1)) \<noteq> 0"
    using that by (auto simp: has_room_def c'_def order_less_le)
  then show ?thesis using a add_extent_ready(1) [OF assms(1) a] by (simp add: c'_def)
qed

lemma add_member_ok:
  assumes "opened fs0 (g_files s) (g_open s)" "g_ctxt s = Some c" "ctxt_ok fs0 c" "has_room c"
    and "g_target s = Some tgt" "e_file tgt \<in> dom (heap fs0)" "e_file e \<in> dom (heap fs0)"
    and "fds_ok fs0" "dedupe_kernel (os_dedupe os)" "open_answers (os_open os)"
  shows "steps_well fs0 rest (add_member os len tgt s c e rest)"
proof -
  obtain s1 where s1: "map_target os len tgt s = Ok s1" "g_files s1 = g_files s" "g_open s1 = g_open s"
      "g_ctxt s1 = g_ctxt s" "g_target s1 = g_target s"
    using map_target_ok [OF assms(1,6)] by blast
  have "opened fs0 (g_files s1) (g_open s1)" using s1 assms(1) by simp
  from measure_dest_ok [OF this assms(7)] obtain shared unshared s2 where
    s2: "measure_dest os tgt s1 e = Ok (shared, unshared, s2)" "g_files s2 = g_files s" "g_open s2 = g_open s"
      "g_ctxt s2 = g_ctxt s" "g_target s2 = g_target s"
    using s1 by metis
  show ?thesis
  proof (cases shared)
    case True
    define s3 where "s3 = group_tick (s2\<lparr>g_already := g_already s2 + 1\<rparr>) len"
    have "run_inv fs0 s3"
      using s2 assms by (simp add: run_inv_def s3_def files_kept)
    then show ?thesis
      using skip_member_ok [OF _ assms(8-10)] s1(1) s2(1) True by (simp add: add_member_def s3_def)
  next
    case False
    have rdy: "ready c" using assms(3) by (simp add: ctxt_ok_def)
    obtain rc c' where c': "add_extent_to_dedupe c (e_loff e) (e_file e) unshared = Ok (rc, c')" "ready c'"
        "ioctl_file c' = ioctl_file c" "rc \<noteq> 0 \<longrightarrow> has_room c'"
      using add_extent_room [OF rdy assms(4)] by blast
    have ok: "ctxt_ok fs0 c'" using c'(2,3) assms(3) by (simp add: ctxt_ok_def)
    let ?s = "s2\<lparr>g_ctxt := Some c'\<rparr>"
    have "add_member os len tgt s c e rest =
        (if rc \<noteq> 0 \<and> rest \<noteq> [] then Ok (False, ?s) else run_round os ?s rest)"
      using s1(1) s2(1) False c'(1) by (simp add: add_member_def)
    moreover have "run_inv fs0 ?s" if "has_room c'"
      using that ok s2 assms by (simp add: run_inv_def)
    moreover have "\<exists>leave s'. run_round os ?s rest = Ok (leave, s') \<and> run_inv fs0 s' \<and> g_ctxt s' = None"
      using run_round_ok [of fs0 ?s c' tgt os rest] ok s2 assms by simp
    ultimately show ?thesis using c'(4) by (auto simp: steps_well_def)
  qed
qed

lemma new_ctxt_ok:
  fixes loff len :: u64
  assumes "2 \<le> n" "n < 2 ^ 32" "file \<in> dom (heap fs0)"
  shows "ctxt_ok fs0 (new_dedupe_ctxt (of_nat n) loff len file)" "has_room (new_dedupe_ctxt (of_nat n) loff len file)"
proof -
  have u: "unat (of_nat n :: u32) = n" using assms(2) by (simp add: unat_of_nat)
  then have "0 < (of_nat n :: u32)" using assms(1) by (simp add: word_less_nat_alt)
  then show "ctxt_ok fs0 (new_dedupe_ctxt (of_nat n) loff len file)"
    using assms(3) new_dedupe_ctxt_ready [of "of_nat n" loff len "file"]
    by (simp add: ctxt_ok_def) (simp add: new_dedupe_ctxt_def Let_def)
  have "2 \<le> (of_nat n :: u32)" using assms(1) u by (simp add: word_le_nat_alt)
  then show "has_room (new_dedupe_ctxt (of_nat n) loff len file)"
    by (simp add: has_room_def new_dedupe_ctxt_def Let_def) uint_arith
qed

lemma dedupe_member_ok:
  assumes "run_inv fs0 s" "e_file e \<in> dom (heap fs0)" "2 \<le> de_num_dupes d" "de_num_dupes d < 2 ^ 32"
    and "fds_ok fs0" "dedupe_kernel (os_dedupe os)" "open_answers (os_open os)"
  shows "steps_well fs0 rest (dedupe_member os whole d s e rest)"
proof -
  have op: "opened fs0 (g_files s) (g_open s)" using assms(1) by (simp add: run_inv_def)
  have "heap fs0 (e_file e) \<noteq> None" using assms(2) by auto
  from open_once_opened [OF op assms(5) this assms(7), of "g_os s"] obtain ret fs t k where
    o: "filerec_open_once (os_open os) (g_os s) (g_files s) (g_open s) (e_file e) = Some (ret, fs, t, k)" "opened fs0 fs t"
    by blast
  obtain f where f: "heap fs (e_file e) = Some f" using opened_dom [OF o(2) assms(2)] by blast
  define s1 where "s1 = s\<lparr>g_files := fs, g_open := t, g_os := k\<rparr>"
  have inv: "run_inv fs0 s1" using assms(1) o(2) by (simp add: run_inv_def s1_def)
  have op1: "opened fs0 (g_files s1) (g_open s1)" using o(2) by (simp add: s1_def)
  define ctxt where "ctxt tgt = new_dedupe_ctxt (of_nat (de_num_dupes d)) (e_loff tgt) (de_len d) (e_file tgt)" for tgt :: extent
  have new: "ctxt_ok fs0 (ctxt tgt)" "has_room (ctxt tgt)" if "e_file tgt \<in> dom (heap fs0)" for tgt :: extent
    using new_ctxt_ok [OF assms(3,4) that] by (simp_all add: ctxt_def)
  have m: "dedupe_member os whole d s e rest =
     (if ret \<noteq> 0 then skip_member os (open_failed s1 ret (filename f)) rest
      else if size_changed os whole (de_len d) k (fr_fd f) (e_loff e)
      then skip_member os (s1\<lparr>g_changed := g_changed s1 + 1\<rparr>) rest
      else case (g_ctxt s1, g_target s1) of
             (None, None) \<Rightarrow>
               if rest = [] then close_files os s1 rest
               else Ok (False, s1\<lparr>g_target := Some e, g_ctxt := Some (ctxt e)\<rparr>)
           | (None, Some tgt) \<Rightarrow> add_member os (de_len d) tgt (s1\<lparr>g_ctxt := Some (ctxt tgt)\<rparr>) (ctxt tgt) e rest
           | (Some c, Some tgt) \<Rightarrow> add_member os (de_len d) tgt s1 c e rest
           | (Some c, None) \<Rightarrow> Abort)"
    using o(1) f by (simp add: dedupe_member_def s1_def ctxt_def Let_def cong: if_cong option.case_cong)
  have skip: "steps_well fs0 rest (skip_member os s2 rest)"
    if "g_files s2 = g_files s1" "g_open s2 = g_open s1" "g_ctxt s2 = g_ctxt s1" "g_target s2 = g_target s1" for s2
    using that inv skip_member_ok [OF _ assms(5-7), of s2 rest] by (simp add: run_inv_def)
  have add: "steps_well fs0 rest (add_member os (de_len d) tgt s2 c e rest)"
    if "g_files s2 = g_files s1" "g_open s2 = g_open s1" "g_ctxt s2 = Some c" "g_target s2 = Some tgt"
      "e_file tgt \<in> dom (heap fs0)" "ctxt_ok fs0 c" "has_room c" for s2 c tgt
    using that op1 add_member_ok [of fs0 s2 c tgt e os rest "de_len d"] assms by simp
  consider "ret \<noteq> 0" | "ret = 0" "size_changed os whole (de_len d) k (fr_fd f) (e_loff e)"
    | "ret = 0" "\<not> size_changed os whole (de_len d) k (fr_fd f) (e_loff e)" by blast
  then show ?thesis
  proof cases
    case 1
    then show ?thesis using m skip [of "open_failed s1 ret (filename f)"] by (simp add: open_failed_def)
  next
    case 2
    then show ?thesis using m skip [of "s1\<lparr>g_changed := g_changed s1 + 1\<rparr>"] by simp
  next
    case 3
    have tgt: "e_file tgt \<in> dom (heap fs0)" if "g_target s1 = Some tgt" for tgt
      using that inv by (simp add: run_inv_def)
    show ?thesis
    proof (cases "g_ctxt s1")
      case (Some c)
      then obtain tgt where "g_target s1 = Some tgt" "ctxt_ok fs0 c" "has_room c"
        using inv unfolding run_inv_def by blast
      then show ?thesis using m 3 Some add [of s1 c tgt] tgt by simp
    next
      case none: None
      show ?thesis
      proof (cases "g_target s1")
        case (Some t')
        then show ?thesis
          using m 3 none add [of "s1\<lparr>g_ctxt := Some (ctxt t')\<rparr>" "ctxt t'" t'] tgt new by simp
      next
        case None
        have "run_inv fs0 (s1\<lparr>g_target := Some e, g_ctxt := Some (ctxt e)\<rparr>)"
          using op1 new [OF assms(2)] assms(2) by (simp add: run_inv_def)
        moreover have "\<exists>leave s'. close_files os s1 [] = Ok (leave, s') \<and> run_inv fs0 s' \<and> g_ctxt s' = None"
          using close_files_ok [OF op1 assms(5,7), of "[]"] None by simp
        ultimately show ?thesis using m 3 none None by (auto simp: steps_well_def)
      qed
    qed
  qed
qed

lemma member_loop_ok:
  assumes "2 \<le> de_num_dupes d" "de_num_dupes d < 2 ^ 32"
    and "fds_ok fs0" "dedupe_kernel (os_dedupe os)" "open_answers (os_open os)"
  shows "run_inv fs0 s \<Longrightarrow> es = [] \<longrightarrow> g_ctxt s = None \<Longrightarrow> e_file ` set es \<subseteq> dom (heap fs0) \<Longrightarrow>
    \<exists>s'. member_loop os whole d s es = Ok s' \<and> run_inv fs0 s' \<and> g_ctxt s' = None"
proof (induction es arbitrary: s)
  case (Cons e rest)
  have "e_file e \<in> dom (heap fs0)" using Cons(4) by simp
  from dedupe_member_ok [OF Cons(2) this assms, of rest whole] obtain leave s' where
    m: "dedupe_member os whole d s e rest = Ok (leave, s')" "run_inv fs0 s'" "leave \<or> rest = [] \<longrightarrow> g_ctxt s' = None"
    unfolding steps_well_def by blast
  show ?case
  proof (cases leave)
    case False
    then show ?thesis using m Cons(1) [OF m(2)] Cons(4) by simp
  qed (use m in simp)
qed simp

subsection \<open>The worker\<close>

text \<open>Each member's address is fetched again; with each, whether that worked.\<close>

fun rescan_members ::
  "'k os \<Rightarrow> u64 \<Rightarrow> 'k group_run \<Rightarrow> extent list \<Rightarrow> ((bool \<times> extent) list \<times> 'k group_run) outcome" where
  "rescan_members os len s [] = Ok ([], s)"
| "rescan_members os len s (e # rest) =
    and_then (of_option (fiemap_scan_extent (os_open os) (os_close os)
        (\<lambda>k fd. fiemap_first_extent_poff (os_fiemap os fd) k (e_loff e) len) (g_os s) (g_files s) (e_file e)))
      (\<lambda>(ret, poff, fs, k).
        and_then (rescan_members os len (s\<lparr>g_files := fs, g_os := k\<rparr>) rest) (\<lambda>(es, s).
          Ok ((ret = 0, case poff of Some p \<Rightarrow> e\<lparr>e_poff := p\<rparr> | None \<Rightarrow> e) # es, s)))"

fun group_updates :: "filerecs \<Rightarrow> bool \<Rightarrow> (bool \<times> extent) list \<Rightarrow> db_op list outcome" where
  "group_updates fs whole_file [] = Ok []"
| "group_updates fs whole_file ((rescanned, e) # rest) =
    and_then (of_option (heap fs (e_file e))) (\<lambda>f.
      and_then (group_updates fs whole_file rest) (\<lambda>ops.
        Ok (if whole_file then RemoveExtentHashes (fileid f) # ops
            else if rescanned then UpdatePoff (fileid f) (e_loff e) (e_poff e) # ops else ops)))"

definition extent_dedupe_worker ::
  "'k os \<Rightarrow> bool \<Rightarrow> bool \<Rightarrow> results_tree \<Rightarrow> group_id \<Rightarrow> 'k group_run \<Rightarrow> (results_tree \<times> 'k group_run) outcome" where
  "extent_dedupe_worker os report whole_file res g s =
    and_then (dedupe_extent_list os report whole_file res g s) (\<lambda>(alive, res, s).
      if \<not> alive then Ok (res, s)
      else and_then (of_option (rb_find (dext_dir g) (rt_root res))) (\<lambda>d.
        and_then (if whole_file then Ok (map (Pair False) (de_extents d), s)
                  else rescan_members os (de_len d) s (de_extents d)) (\<lambda>(es, s).
          and_then (group_updates (g_files s) whole_file es) (\<lambda>ops.
            let s = s\<lparr>g_db := g_db s @ ops\<rparr>
            in if de_extents d = [] then Ok (res, s)
               else and_then (of_option (dupe_extents_free (Suc (de_num_dupes d)) g res)) (\<lambda>res. Ok (res, s))))))"

text \<open>
  The body of a pool worker. With the tree and the run, what is credited to the byte bar beside the
  ticks, and whether the batch is cut short. \<open>stop\<close> is \<open>interrupted()\<close>.
\<close>

definition dedupe_worker_body ::
  "'k os \<Rightarrow> bool \<Rightarrow> bool \<Rightarrow> bool \<Rightarrow> results_tree \<Rightarrow> dupe_extents \<Rightarrow> 'k group_run \<Rightarrow>
     (results_tree \<times> 'k group_run \<times> u64 \<times> bool) outcome" where
  "dedupe_worker_body os report stop whole_file res d s =
    (let w0 = dext_work d; s = s\<lparr>g_ticked := 0\<rparr>
     in if stop then Ok (res, s, w0, True)
        else and_then (extent_dedupe_worker os report whole_file res (group_of d) s) (\<lambda>(res, s).
          Ok (res, s, if g_ticked s < w0 then w0 - g_ticked s else 0, False)))"

subsection \<open>A group is always finished\<close>

text \<open>What the producer hands to a worker: a group of the tree whose members are files, none open.\<close>

definition group_ready :: "results_tree \<Rightarrow> group_id \<Rightarrow> 'k group_run \<Rightarrow> bool" where
  "group_ready res g s \<longleftrightarrow> rt_wf res \<and> no_empty res \<and> fds_ok (g_files s) \<and>
    g_open s = Leaf \<and> g_ctxt s = None \<and> g_target s = None \<and>
    (\<exists>d. rb_find (dext_dir g) (rt_root res) = Some d \<and> 2 \<le> de_num_dupes d \<and> de_num_dupes d < 2 ^ 32 \<and>
       (\<forall>e\<in>set (de_extents d). e_file e \<in> dom (heap (g_files s)) \<and> e_loff e < e_loff e + de_len d))"

lemma add_shared_post_ok:
  assumes "fds_ok (g_files s)" "open_answers (os_open os)"
    and "\<forall>e\<in>set es. e_file e \<in> dom (heap (g_files s)) \<and> e_loff e < e_loff e + len"
  shows "\<exists>shared' s'. add_shared_extents_post os len shared s es = Ok (shared', s') \<and> g_files s' = g_files s \<and>
    g_open s' = g_open s \<and> g_ctxt s' = g_ctxt s"
  using assms
proof (induction es arbitrary: s shared)
  case (Cons e rest)
  have "heap (g_files s) (e_file e) \<noteq> None" using Cons(4) by auto
  from open_then_close [OF Cons(2) this Cons(3), of "g_os s" "os_close os"] obtain ret fs k where
    o: "filerec_open (os_open os) (g_os s) (g_files s) (e_file e) = Some (ret, fs, k)" "ret \<noteq> 0 \<longrightarrow> fs = g_files s"
      "ret = 0 \<longrightarrow> heap fs (e_file e) \<noteq> None \<and>
        (\<forall>k1. \<exists>k2. filerec_close (os_close os) k1 fs (e_file e) = Some (g_files s, k2))"
    by blast
  show ?case
  proof (cases "ret = 0")
    case False
    then show ?thesis using o by simp
  next
    case True
    then obtain f where f: "heap fs (e_file e) = Some f" using o(3) by auto
    have "\<not> e_loff e + len \<le> e_loff e" using Cons(4) by (simp add: not_le)
    then obtain bytes k1 where c: "fiemap_count_shared (os_fiemap os (fr_fd f)) (os_unstable os) k (e_loff e)
        (e_loff e + len) = Some (bytes, k1)"
      by (cases "do_fiemap_range (os_fiemap os (fr_fd f)) (os_unstable os) k (e_loff e) (e_loff e + len - e_loff e)")
         (fastforce simp: fiemap_count_shared_def split: option.split)
    obtain k2 where k2: "filerec_close (os_close os) k1 fs (e_file e) = Some (g_files s, k2)"
      using o(3) True by blast
    from Cons(1) [of "s\<lparr>g_files := g_files s, g_os := k2\<rparr>" "shared + bytes"] Cons(2-4) o(1) True f c k2
    show ?thesis by (auto simp: fd_of_def)
  qed
qed simp

lemma dedupe_extent_list_ok:
  assumes "group_ready res g s" "dedupe_kernel (os_dedupe os)" "open_answers (os_open os)"
  shows "\<exists>alive res' s'. dedupe_extent_list os report whole res g s = Ok (alive, res', s') \<and>
    g_files s' = g_files s \<and> g_open s' = Leaf \<and> rt_wf res' \<and> no_empty res' \<and>
    members res' - {g} \<times> UNIV = members res - {g} \<times> UNIV \<and>
    (if alive then \<exists>d'. rb_find (dext_dir g) (rt_root res') = Some d' \<and> de_extents d' \<noteq> [] \<and>
         e_file ` set (de_extents d') \<subseteq> dom (heap (g_files s))
     else places res' g = {})"
proof -
  obtain d where d: "rt_wf res" "no_empty res" "fds_ok (g_files s)" "g_open s = Leaf" "g_ctxt s = None"
      "g_target s = None" "rb_find (dext_dir g) (rt_root res) = Some d" "2 \<le> de_num_dupes d" "de_num_dupes d < 2 ^ 32"
      "\<forall>e\<in>set (de_extents d). e_file e \<in> dom (heap (g_files s)) \<and> e_loff e < e_loff e + de_len d"
    using assms(1) unfolding group_ready_def by blast
  note pl = places_found [OF d(1,7)]
  have ne: "de_extents d \<noteq> []" "\<not> de_num_dupes d < 2" using dext_wf_distinct(3) [OF pl(3)] d(8) by auto
  define keep where "keep = filter (stays d (hd (de_extents d))) (de_extents d)"
  obtain res1 where r1: "clean_deduped d res (hd (de_extents d)) = Some (2 \<le> length keep, res1)"
      "rt_wf res1" "no_empty res1" "members res1 - {g} \<times> UNIV = members res - {g} \<times> UNIV"
      "if 2 \<le> length keep then \<exists>d'. rb_find (dext_dir g) (rt_root res1) = Some d' \<and> de_extents d' = keep
       else places res1 g = {}"
    using clean_deduped_spec [OF d(1,2,7,8), of "hd (de_extents d)"] unfolding keep_def by blast
  show ?thesis
  proof (cases "2 \<le> length keep")
    case False
    then show ?thesis
      using d r1 ne by (auto simp add: dedupe_extent_list_def)
  next
    case True
    then obtain d' where d': "rb_find (dext_dir g) (rt_root res1) = Some d'" "de_extents d' = keep"
      using r1(5) by auto
    note pl' = places_found [OF r1(2) d'(1)]
    have "group_of d' = group_of d" using pl(4) pl'(4) by (simp only:)
    then have len: "de_len d' = de_len d" by simp
    have n: "de_num_dupes d' = length keep" using dext_wf_distinct(3) [OF pl'(3)] d'(2) by simp
    have "length keep \<le> de_num_dupes d"
      using length_filter_le [of _ "de_extents d"] dext_wf_distinct(3) [OF pl(3)] unfolding keep_def by simp
    then have n': "2 \<le> de_num_dupes d'" "de_num_dupes d' < 2 ^ 32" using n True d(9) by linarith+
    have sub: "\<forall>e\<in>set keep. e_file e \<in> dom (heap (g_files s)) \<and> e_loff e < e_loff e + de_len d"
      using d(10) by (simp add: keep_def)
    have files: "e_file ` set keep \<subseteq> dom (heap (g_files s))" using sub by auto
    have inv: "run_inv (g_files s) s" using d(4-6) by (simp add: run_inv_def opened_Leaf)
    obtain s1 where s1: "member_loop os whole d' s keep = Ok s1" "run_inv (g_files s) s1" "g_ctxt s1 = None"
      using member_loop_ok [OF n' d(3) assms(2,3) inv, of keep whole] files d(5) by blast
    have "opened (g_files s) (g_files s1) (g_open s1)" using s1(2) by (simp add: run_inv_def)
    from close_list_opened [OF this d(3) lessI, of "os_close os" "g_os s1"] obtain k where
      k: "filerec_close_open_list (Suc (size (g_open s1))) (os_close os) (g_os s1) (g_files s1) (g_open s1) =
        Some (g_files s, k)" by blast
    define s2 where "s2 = s1\<lparr>g_files := g_files s, g_os := k, g_open := Leaf\<rparr>"
    obtain shared s3 where s3: "(if report then add_shared_extents_post os (de_len d') 0 s2 keep else Ok (0, s2)) =
        Ok (shared, s3)" "g_files s3 = g_files s" "g_open s3 = Leaf"
      using add_shared_post_ok [of s2 os keep "de_len d'" 0] d(3) assms(3) sub len
      by (cases report) (auto simp: s2_def)
    define s4 where "s4 = (if (if report then add_shared_extents d' else 0) < shared
        then s3\<lparr>g_net := g_net s3 + (shared - (if report then add_shared_extents d' else 0))\<rparr> else s3)"
    have "dedupe_extent_list os report whole res g s = Ok (True, res1, s4)"
      using d(7) ne r1(1) True d' s1(1,3) k s3(1)
      by (cases report) (simp_all add: dedupe_extent_list_def s2_def s4_def Let_def del: filerec_close_open_list.simps)
    moreover have "keep \<noteq> []" using True by auto
    moreover have "g_files s4 = g_files s" "g_open s4 = Leaf" using s3(2,3) by (simp_all add: s4_def)
    ultimately show ?thesis
      using r1 d' files by (intro exI [of _ True] exI [of _ res1] exI [of _ s4]) simp
  qed
qed

lemma rescan_members_ok:
  assumes "fds_ok (g_files s)" "open_answers (os_open os)" "e_file ` set es \<subseteq> dom (heap (g_files s))"
  shows "\<exists>rs s'. rescan_members os len s es = Ok (rs, s') \<and> g_files s' = g_files s \<and>
    map (\<lambda>x. e_file (snd x)) rs = map e_file es"
  using assms
proof (induction es arbitrary: s)
  case (Cons e rest)
  have "heap (g_files s) (e_file e) \<noteq> None" using Cons(4) by auto
  from fiemap_scan_extent_ok [OF Cons(2) this Cons(3), of "os_close os"
      "\<lambda>k fd. fiemap_first_extent_poff (os_fiemap os fd) k (e_loff e) len" "g_os s"]
  obtain ret poff k where f: "fiemap_scan_extent (os_open os) (os_close os)
      (\<lambda>k fd. fiemap_first_extent_poff (os_fiemap os fd) k (e_loff e) len) (g_os s) (g_files s) (e_file e) =
      Some (ret, poff, g_files s, k)" by blast
  obtain rs s' where "rescan_members os len (s\<lparr>g_files := g_files s, g_os := k\<rparr>) rest = Ok (rs, s')"
      "g_files s' = g_files s" "map (\<lambda>x. e_file (snd x)) rs = map e_file rest"
    using Cons(1) [of "s\<lparr>g_files := g_files s, g_os := k\<rparr>"] Cons(2-4) by auto
  then show ?case using f by (auto split: option.split)
qed simp

lemma group_updates_ok:
  "e_file ` snd ` set es \<subseteq> dom (heap fs) \<Longrightarrow> \<exists>ops. group_updates fs whole es = Ok ops"
proof (induction es)
  case (Cons x rest)
  obtain r e where x: "x = (r, e)" by fastforce
  then obtain f where "heap fs (e_file e) = Some f" using Cons(2) by auto
  then show ?case using Cons x by auto
qed simp

lemma members_places: "places res g = {} \<Longrightarrow> members res = members res - {g} \<times> UNIV"
  by (auto simp: places_def)

lemma extent_dedupe_worker_ok:
  assumes "group_ready res g s" "dedupe_kernel (os_dedupe os)" "open_answers (os_open os)"
  shows "\<exists>res' s'. extent_dedupe_worker os report whole res g s = Ok (res', s') \<and>
    g_files s' = g_files s \<and> rt_wf res' \<and> no_empty res' \<and> members res' = members res - {g} \<times> UNIV"
proof -
  obtain alive res1 s1 where l: "dedupe_extent_list os report whole res g s = Ok (alive, res1, s1)"
      "g_files s1 = g_files s" "rt_wf res1" "no_empty res1"
      "members res1 - {g} \<times> UNIV = members res - {g} \<times> UNIV"
      "if alive then \<exists>d'. rb_find (dext_dir g) (rt_root res1) = Some d' \<and> de_extents d' \<noteq> [] \<and>
         e_file ` set (de_extents d') \<subseteq> dom (heap (g_files s)) else places res1 g = {}"
    using dedupe_extent_list_ok [OF assms, of report whole] by blast
  show ?thesis
  proof (cases alive)
    case False
    then show ?thesis using l members_places [of res1 g] by (simp add: extent_dedupe_worker_def)
  next
    case True
    then obtain d where d: "rb_find (dext_dir g) (rt_root res1) = Some d" "de_extents d \<noteq> []"
        "e_file ` set (de_extents d) \<subseteq> dom (heap (g_files s))"
      using l(6) by auto
    have fds: "fds_ok (g_files s1)" using assms(1) l(2) by (simp add: group_ready_def)
    have "\<exists>rs s2. (if whole then Ok (map (Pair False) (de_extents d), s1)
        else rescan_members os (de_len d) s1 (de_extents d)) = Ok (rs, s2) \<and> g_files s2 = g_files s \<and>
        map (\<lambda>x. e_file (snd x)) rs = map e_file (de_extents d)"
    proof (cases whole)
      case False
      have "e_file ` set (de_extents d) \<subseteq> dom (heap (g_files s1))" using d(3) l(2) by simp
      from rescan_members_ok [OF fds assms(3) this, of "de_len d"] show ?thesis
        using l(2) False by simp
    qed (use l(2) in simp)
    then obtain rs s2 where r: "(if whole then Ok (map (Pair False) (de_extents d), s1)
        else rescan_members os (de_len d) s1 (de_extents d)) = Ok (rs, s2)" "g_files s2 = g_files s"
        "map (\<lambda>x. e_file (snd x)) rs = map e_file (de_extents d)" by blast
    have "e_file ` snd ` set rs = e_file ` set (de_extents d)"
      using arg_cong [OF r(3), of set] by (simp add: image_comp)
    then obtain ops where o: "group_updates (g_files s2) whole rs = Ok ops"
      using group_updates_ok [of rs "g_files s2" whole] d(3) r(2) by auto
    obtain res2 where f: "dupe_extents_free (Suc (de_num_dupes d)) g res1 = Some res2" "rt_wf res2" "no_empty res2"
        "members res2 = members res1 - {g} \<times> UNIV"
      using dupe_extents_free_spec [OF l(3,4) d(1) le_SucI [OF order_refl]] by blast
    have "extent_dedupe_worker os report whole res g s = Ok (res2, s2\<lparr>g_db := g_db s2 @ ops\<rparr>)"
      unfolding extent_dedupe_worker_def
      by (simp only: l(1) True d(1) d(2) r(1) o f(1) and_then.simps and_then_of_option prod.case simp_thms if_False if_True Let_def)
    moreover have "members res2 = members res - {g} \<times> UNIV" using l(5) f(4) by (simp only:)
    ultimately show ?thesis using f(2,3) r(2) by simp
  qed
qed

text \<open>C10: a worker that is not told to stop always gets through its group: no assertion fails, whatever
  can be opened, has changed, is shared already or is refused by the kernel and at whatever member a
  batch fills up; every descriptor it opened is closed and every file's counts are as before; exactly
  its group leaves the tree; and ticks and settlement together credit at least the group's work.\<close>

theorem dedupe_worker_finishes:
  assumes "group_ready res (group_of d) s" "dedupe_kernel (os_dedupe os)" "open_answers (os_open os)"
  shows "\<exists>res' s' settled. dedupe_worker_body os report False whole res d s = Ok (res', s', settled, False) \<and>
    g_files s' = g_files s \<and> rt_wf res' \<and> no_empty res' \<and>
    members res' = members res - {group_of d} \<times> UNIV \<and>
    unat (dext_work d) \<le> unat (g_ticked s') + unat settled"
proof -
  let ?s = "s\<lparr>g_ticked := 0\<rparr>"
  have "group_ready res (group_of d) ?s" using assms(1) by (simp add: group_ready_def)
  from extent_dedupe_worker_ok [OF this assms(2,3), of report whole] obtain res' s' where
    w: "extent_dedupe_worker os report whole res (group_of d) ?s = Ok (res', s')"
      "g_files s' = g_files s" "rt_wf res'" "no_empty res'" "members res' = members res - {group_of d} \<times> UNIV"
    by auto
  let ?n = "if g_ticked s' < dext_work d then dext_work d - g_ticked s' else 0"
  have "unat (dext_work d) \<le> unat (g_ticked s') + unat ?n"
  proof (cases "g_ticked s' < dext_work d")
    case True
    then show ?thesis using unat_sub_u64 [OF less_imp_le [OF True]] by (simp add: word_less_nat_alt)
  qed (simp add: not_less word_le_nat_alt)
  then show ?thesis using w by (intro exI [of _ res'] exI [of _ s'] exI [of _ ?n]) (simp add: dedupe_worker_body_def)
qed

definition start_run :: "filerecs \<Rightarrow> 'k \<Rightarrow> 'k group_run" where
  "start_run fs k = \<lparr>g_files = fs, g_open = Leaf, g_os = k, g_ctxt = None, g_target = None, g_map = None,
     g_cmp_len = 0, g_seen = None, g_ticked = 0, g_freed = 0, g_net = 0, g_changed = 0, g_differs = 0,
     g_errors = 0, g_already = 0, g_db = []\<rparr>"

text \<open>A kernel with no file \<open>a\<close>, that shares what it is asked to and cannot map extents.\<close>

definition sample_os :: "unit os" where
  "sample_os = \<lparr>os_bs = 4096, os_open = (\<lambda>k n. (if n = ''a'' then Inl ENOENT else Inr 5, k)), os_close = (\<lambda>k fd. k),
     os_dedupe = sharing_kernel, os_fiemap = (\<lambda>fd k r. (Inl EOPNOTSUPP, k)), os_size = (\<lambda>k fd. Some 16384),
     os_unstable = False\<rparr>"

theorem dedupe_worker_finishes_witness:
  "\<exists>res' s' settled. dedupe_worker_body sample_os True False False three_results three_copies
      (start_run two_files ()) = Ok (res', s', settled, False) \<and> g_files s' = two_files \<and> members res' = {}"
proof -
  have g: "group_of three_copies = (4096, [1])" by (simp add: three_copies_eq)
  have "fds_ok two_files" by (auto simp: fds_ok_def two_files_eq split: if_split_asm)
  then have "group_ready three_results (group_of three_copies) (start_run two_files ())"
    unfolding group_ready_def g using three_results_wf
    by (simp add: start_run_def three_copies_eq) (simp add: two_files_eq)
  moreover have "dedupe_kernel (os_dedupe sample_os)" by (simp add: sample_os_def sharing_kernel_ok)
  moreover have "open_answers (os_open sample_os)" by (simp add: sample_os_def open_answers_def)
  moreover have "members three_results - {group_of three_copies} \<times> UNIV = {}"
    by (auto simp: members_def three_results_def)
  ultimately show ?thesis
    using dedupe_worker_finishes [of three_results three_copies "start_run two_files ()" sample_os True False]
    by (simp add: start_run_def) blast
qed

end
