(* ===== verification/Pipeline.thy ===== *)
theory Pipeline
  imports RunDedupe
begin

text \<open>
  The streaming of the dedupe phase: the batches of \<open>src/run_dedupe.c\<close> and the producer's loop in
  \<open>src/oans.c\<close>. The state is what the producer and the workers share; a relation gives the steps of
  both, in any order. A pool worker's step is one group, run by \<open>dedupe_worker_body\<close>; a batch keeps the
  items it has in the pool. The loaders' queries are not modelled: a load adds file records and gives a
  results tree, and either may fail. \<open>None\<close> is an abort or a use of a freed record.
\<close>

record batch =
  bt_files :: results_tree
  bt_extents :: results_tree
  bt_held :: "nat list"
  bt_seq_lo :: nat
  bt_seq_hi :: nat
  bt_outstanding :: nat
  bt_pushed :: bool
  bt_cut :: bool
  bt_items :: "(bool \<times> group_id) list"

text \<open>\<open>bt_items\<close> stands for the batch's work items in the pool, \<open>bt_seq_lo\<close> for where its window begins,
  which the code keeps in the loop that loads it. Where that loop is, is \<open>pl_pc\<close>.\<close>

datatype producer_pc = Idle | Begun | FilesLoaded | FilesPushed | ExtentsLoaded | ExtentsPushed

text \<open>\<open>pl_cut\<close> only records what happened: where the first reaped batch that was cut short began.\<close>

record pipeline =
  pl_inflight :: "batch list"
  pl_count :: nat
  pl_open :: "batch option"
  pl_frozen :: bool
  pl_seq :: nat
  pl_fail :: "nat option"
  pl_files :: filerecs
  pl_next :: nat
  pl_pc :: producer_pc
  pl_cut :: "nat option"

abbreviation DEDUPE_MAX_INFLIGHT :: nat where "DEDUPE_MAX_INFLIGHT \<equiv> 2"

definition batch_tree :: "bool \<Rightarrow> batch \<Rightarrow> results_tree" where
  "batch_tree whole b = (if whole then bt_files b else bt_extents b)"

definition set_tree_of :: "bool \<Rightarrow> results_tree \<Rightarrow> batch \<Rightarrow> batch" where
  "set_tree_of whole res b = (if whole then b\<lparr>bt_files := res\<rparr> else b\<lparr>bt_extents := res\<rparr>)"

subsection \<open>Pushing a batch's groups\<close>

text \<open>A negative result sorts the first group first: the larger work.\<close>

definition cmp_dext_work :: "dupe_extents \<Rightarrow> dupe_extents \<Rightarrow> int" where
  "cmp_dext_work a b = (if dext_work b < dext_work a then - 1 else if dext_work a < dext_work b then 1 else 0)"

fun insert_by_work :: "dupe_extents \<Rightarrow> dupe_extents list \<Rightarrow> dupe_extents list" where
  "insert_by_work a [] = [a]"
| "insert_by_work a (b # bs) = (if cmp_dext_work a b \<le> 0 then a # b # bs else b # insert_by_work a bs)"

definition sort_by_work :: "dupe_extents list \<Rightarrow> dupe_extents list" where
  "sort_by_work ds = foldr insert_by_work ds []"

fun hold_files :: "filerecs \<Rightarrow> nat list \<Rightarrow> filerecs option" where
  "hold_files fs [] = Some fs"
| "hold_files fs (p # ps) = (if heap fs p = None then None else hold_files (filerec_get fs p) ps)"

definition push_results :: "filerecs \<Rightarrow> batch \<Rightarrow> bool \<Rightarrow> (batch \<times> filerecs) option" where
  "push_results fs b whole =
    (let res = batch_tree whole b;
         dexts = inorder (rt_root res);
         files = concat (map (\<lambda>d. map e_file (de_extents d)) dexts);
         sorted = sort_by_work (take (num_dupes res) (filter (\<lambda>d. \<not> de_num_dupes d < 2) dexts))
     in case hold_files fs files of
          None \<Rightarrow> None
        | Some fs \<Rightarrow>
            if \<exists>d\<in>set sorted. 2 ^ 50 < dext_work d then None
            else Some (b\<lparr>bt_held := bt_held b @ files,
                         bt_outstanding := bt_outstanding b + length sorted,
                         bt_items := bt_items b @ map (\<lambda>d. (whole, group_of d)) sorted\<rparr>, fs))"

definition dedupe_begin_batch :: "nat \<Rightarrow> nat \<Rightarrow> pipeline \<Rightarrow> pipeline" where
  "dedupe_begin_batch lo hi p =
    p\<lparr>pl_open := Some \<lparr>bt_files = init_results_tree, bt_extents = init_results_tree, bt_held = [],
        bt_seq_lo = lo, bt_seq_hi = hi, bt_outstanding = 0, bt_pushed = False, bt_cut = False, bt_items = []\<rparr>\<rparr>"

definition dedupe_push :: "bool \<Rightarrow> pipeline \<Rightarrow> pipeline option" where
  "dedupe_push whole p =
    (case pl_open p of
       None \<Rightarrow> None
     | Some b \<Rightarrow>
         if rt_root (batch_tree whole b) = Leaf then Some p
         else map_option (\<lambda>(b, fs). p\<lparr>pl_open := Some b, pl_files := fs\<rparr>) (push_results (pl_files p) b whole))"

subsection \<open>Reaping\<close>

definition dedupe_advance_seq :: "nat \<Rightarrow> pipeline \<Rightarrow> pipeline" where
  "dedupe_advance_seq seq_hi p =
    (let seq_hi = (case pl_fail p of Some at \<Rightarrow> if at < seq_hi then at else seq_hi | None \<Rightarrow> seq_hi)
     in if seq_hi \<le> pl_seq p then p else p\<lparr>pl_seq := seq_hi\<rparr>)"

fun put_files :: "filerecs \<Rightarrow> nat list \<Rightarrow> filerecs option" where
  "put_files fs [] = Some fs"
| "put_files fs (p # ps) = (case filerec_put fs p of None \<Rightarrow> None | Some fs \<Rightarrow> put_files fs ps)"

definition free_batch :: "batch \<Rightarrow> pipeline \<Rightarrow> pipeline option" where
  "free_batch b p =
    (if pl_open p \<noteq> None then None
     else let p = (if bt_cut b
                   then p\<lparr>pl_frozen := True, pl_cut := (case pl_cut p of None \<Rightarrow> Some (bt_seq_lo b) | Some n \<Rightarrow> Some n)\<rparr>
                   else p);
              p = (if \<not> pl_frozen p then dedupe_advance_seq (bt_seq_hi b) p else p)
          in case (free_results_tree (Suc (num_dupes (bt_files b))) (bt_files b),
                   free_results_tree (Suc (num_dupes (bt_extents b))) (bt_extents b)) of
               (Some _, Some _) \<Rightarrow> map_option (\<lambda>fs. p\<lparr>pl_files := fs\<rparr>) (put_files (pl_files p) (bt_held b))
             | _ \<Rightarrow> None)"

text \<open>\<open>reap_ready_locked\<close> over the list it takes from; the batch is off the list while it is freed.\<close>

fun reap_loop :: "pipeline \<Rightarrow> batch list \<Rightarrow> pipeline option" where
  "reap_loop p [] = Some (p\<lparr>pl_inflight := []\<rparr>)"
| "reap_loop p (b # rest) =
    (if bt_outstanding b \<noteq> 0 \<or> \<not> bt_pushed b then Some (p\<lparr>pl_inflight := b # rest\<rparr>)
     else case free_batch b (p\<lparr>pl_inflight := rest, pl_count := pl_count p - 1\<rparr>) of
            None \<Rightarrow> None
          | Some p \<Rightarrow> reap_loop p rest)"

definition reap_ready_locked :: "pipeline \<Rightarrow> pipeline option" where
  "reap_ready_locked p = reap_loop p (pl_inflight p)"

definition dedupe_seal_batch :: "pipeline \<Rightarrow> pipeline option" where
  "dedupe_seal_batch p =
    (case pl_open p of
       None \<Rightarrow> None
     | Some b \<Rightarrow>
         reap_ready_locked (p\<lparr>pl_open := None, pl_inflight := pl_inflight p @ [b\<lparr>bt_pushed := True\<rparr>],
           pl_count := pl_count p + 1\<rparr>))"

text \<open>
  The producer's two waits. \<open>wait n\<close> is what the workers do while it sleeps for the \<open>n\<close>th time; both
  loops carry fuel, and running out of it is the outer \<open>None\<close>.
\<close>

fun await_loop :: "nat \<Rightarrow> (pipeline \<Rightarrow> pipeline) \<Rightarrow> pipeline \<Rightarrow> pipeline option option" where
  "await_loop 0 wait p = None"
| "await_loop (Suc fuel) wait p =
    (if pl_count p < DEDUPE_MAX_INFLIGHT then Some (Some p)
     else case reap_ready_locked (wait p) of
            None \<Rightarrow> Some None
          | Some p \<Rightarrow> await_loop fuel wait p)"

definition dedupe_await_slot :: "nat \<Rightarrow> (pipeline \<Rightarrow> pipeline) \<Rightarrow> pipeline \<Rightarrow> pipeline option option" where
  "dedupe_await_slot fuel wait p =
    (case reap_ready_locked p of None \<Rightarrow> Some None | Some p \<Rightarrow> await_loop fuel wait p)"

fun dedupe_drain :: "nat \<Rightarrow> (pipeline \<Rightarrow> pipeline) \<Rightarrow> pipeline \<Rightarrow> pipeline option option" where
  "dedupe_drain 0 wait p = None"
| "dedupe_drain (Suc fuel) wait p =
    (if pl_count p = 0 then Some (Some p)
     else case reap_ready_locked p of
            None \<Rightarrow> Some None
          | Some p \<Rightarrow> if pl_count p = 0 then Some (Some p) else dedupe_drain fuel wait (wait p))"

subsection \<open>The steps\<close>

text \<open>What a load does to the file records: found ones stay, new ones are added.\<close>

fun load_filerecs :: "filerecs \<Rightarrow> (nat \<times> string \<times> int \<times> u64) list \<Rightarrow> filerecs" where
  "load_filerecs fs [] = fs"
| "load_filerecs fs ((ptr, name, fno, sz) # xs) =
    load_filerecs
      (if filerec_find fs fno = None \<and> heap fs ptr = None
       then case filerec_new fs ptr name fno sz of Some fs \<Rightarrow> fs | None \<Rightarrow> fs
       else fs) xs"

definition load_failed :: "nat \<Rightarrow> pipeline \<Rightarrow> pipeline" where
  "load_failed seq_lo p =
    p\<lparr>pl_fail := (case pl_fail p of None \<Rightarrow> Some seq_lo | Some at \<Rightarrow> if seq_lo < at then Some seq_lo else Some at)\<rparr>"

definition load_groups ::
  "bool \<Rightarrow> (nat \<times> string \<times> int \<times> u64) list \<Rightarrow> results_tree \<Rightarrow> bool \<Rightarrow> batch \<Rightarrow> pipeline \<Rightarrow> pipeline" where
  "load_groups whole recs res failed b p =
    (let p = p\<lparr>pl_files := load_filerecs (pl_files p) recs, pl_open := Some (set_tree_of whole res b)\<rparr>
     in if failed then load_failed (bt_seq_lo b) p else p)"

text \<open>A worker done with an item: the tree and the files are those of \<open>dedupe_worker_body\<close>.\<close>

definition item_done :: "bool \<times> group_id \<Rightarrow> results_tree \<Rightarrow> bool \<Rightarrow> batch \<Rightarrow> batch" where
  "item_done item res stopped b =
    (set_tree_of (fst item) res b)\<lparr>bt_outstanding := bt_outstanding b - 1, bt_items := remove1 item (bt_items b),
      bt_cut := (bt_cut b \<or> stopped)\<rparr>"

definition run_item ::
  "'k os \<Rightarrow> bool \<Rightarrow> bool \<Rightarrow> 'k \<Rightarrow> bool \<times> group_id \<Rightarrow> filerecs \<Rightarrow> batch \<Rightarrow> (batch \<times> filerecs) option" where
  "run_item os report stop k item fs b =
    (case rb_find (dext_dir (snd item)) (rt_root (batch_tree (fst item) b)) of
       None \<Rightarrow> None
     | Some d \<Rightarrow>
         (case dedupe_worker_body os report stop (fst item) (batch_tree (fst item) b) d (start_run fs k) of
            Ok (res, s, settled, stopped) \<Rightarrow> Some (item_done item res stopped b, g_files s)
          | _ \<Rightarrow> None))"

definition at_pc :: "producer_pc \<Rightarrow> pipeline option \<Rightarrow> pipeline option" where
  "at_pc pc r = map_option (\<lambda>p. p\<lparr>pl_pc := pc\<rparr>) r"

definition next_hi :: "nat \<Rightarrow> nat \<Rightarrow> nat \<Rightarrow> nat" where
  "next_hi last_seq stride i = (if i + stride < last_seq then i + stride else last_seq)"

text \<open>
  What the loaders promise of a tree: it is well formed, its members are records that were loaded, no
  range wraps, and no group is absurdly large.
\<close>

definition group_sane :: "results_tree \<Rightarrow> group_id \<Rightarrow> bool" where
  "group_sane res g \<longleftrightarrow> card (places res g) < 2 ^ 32 \<and> fst g * of_nat (card (places res g) - 1) \<le> 2 ^ 50 \<and>
    (\<forall>e\<in>places res g. snd e < snd e + fst g)"

definition loader_ok :: "filerecs \<Rightarrow> results_tree \<Rightarrow> bool" where
  "loader_ok fs res \<longleftrightarrow> rt_wf res \<and> no_empty res \<and> (\<forall>g. group_sane res g) \<and>
    (\<forall>(g, e)\<in>members res. fst e \<in> dom (heap fs))"

inductive pstep :: "'k os \<Rightarrow> bool \<Rightarrow> nat \<Rightarrow> nat \<Rightarrow> pipeline \<Rightarrow> pipeline option \<Rightarrow> bool"
  for os report last_seq stride where
  begin_batch: "pl_pc p = Idle \<Longrightarrow> pl_next p < last_seq \<Longrightarrow> pl_count p < DEDUPE_MAX_INFLIGHT \<Longrightarrow>
     pstep os report last_seq stride p (Some ((dedupe_begin_batch (pl_next p) (next_hi last_seq stride (pl_next p)) p)
       \<lparr>pl_next := next_hi last_seq stride (pl_next p), pl_pc := Begun\<rparr>))"
| load_files: "pl_pc p = Begun \<Longrightarrow> pl_open p = Some b \<Longrightarrow> loader_ok (load_filerecs (pl_files p) recs) res \<Longrightarrow>
     pstep os report last_seq stride p (at_pc FilesLoaded (Some (load_groups True recs res failed b p)))"
| push_files: "pl_pc p = FilesLoaded \<Longrightarrow>
     pstep os report last_seq stride p (at_pc FilesPushed (dedupe_push True p))"
| load_extents: "pl_pc p = FilesPushed \<Longrightarrow> pl_open p = Some b \<Longrightarrow>
     loader_ok (load_filerecs (pl_files p) recs) res \<Longrightarrow>
     pstep os report last_seq stride p (at_pc ExtentsLoaded (Some (load_groups False recs res failed b p)))"
| push_extents: "pl_pc p = ExtentsLoaded \<Longrightarrow>
     pstep os report last_seq stride p (at_pc ExtentsPushed (dedupe_push False p))"
| free_unreferenced: "pl_pc p = ExtentsPushed \<Longrightarrow>
     pstep os report last_seq stride p
       (map_option (\<lambda>fs. p\<lparr>pl_files := fs\<rparr>) (filerec_free_unreferenced (\<lambda>_. True) (pl_files p)))"
| seal: "pl_pc p = FilesPushed \<or> pl_pc p = ExtentsPushed \<Longrightarrow>
     pstep os report last_seq stride p (at_pc Idle (dedupe_seal_batch p))"
| reap: "pl_pc p = Idle \<Longrightarrow> pstep os report last_seq stride p (reap_ready_locked p)"
| work_open: "pl_open p = Some b \<Longrightarrow> item \<in> set (bt_items b) \<Longrightarrow>
     pstep os report last_seq stride p
       (map_option (\<lambda>(b, fs). p\<lparr>pl_open := Some b, pl_files := fs\<rparr>) (run_item os report stop k item (pl_files p) b))"
| work_inflight: "i < length (pl_inflight p) \<Longrightarrow> item \<in> set (bt_items (pl_inflight p ! i)) \<Longrightarrow>
     pstep os report last_seq stride p
       (map_option (\<lambda>(b, fs). p\<lparr>pl_inflight := (pl_inflight p)[i := b], pl_files := fs\<rparr>)
         (run_item os report stop k item (pl_files p) (pl_inflight p ! i)))"

text \<open>The phase as \<open>dedupe_phase_begin\<close> starts it.\<close>

definition dedupe_phase_begin :: "filerecs \<Rightarrow> nat \<Rightarrow> pipeline" where
  "dedupe_phase_begin fs first_seq =
    \<lparr>pl_inflight = [], pl_count = 0, pl_open = None, pl_frozen = False, pl_seq = first_seq, pl_fail = None,
     pl_files = fs, pl_next = first_seq, pl_pc = Idle, pl_cut = None\<rparr>"

inductive reachable :: "'k os \<Rightarrow> bool \<Rightarrow> nat \<Rightarrow> nat \<Rightarrow> pipeline \<Rightarrow> pipeline \<Rightarrow> bool"
  for os report last_seq stride p0 where
  start: "reachable os report last_seq stride p0 p0"
| next_step: "reachable os report last_seq stride p0 p \<Longrightarrow> pstep os report last_seq stride p (Some q) \<Longrightarrow>
     reachable os report last_seq stride p0 q"

inductive_cases pstepE: "pstep os report last_seq stride p r"

subsection \<open>References\<close>

definition refs_of :: "filerecs \<Rightarrow> nat \<Rightarrow> nat" where
  "refs_of fs p = (case heap fs p of None \<Rightarrow> 0 | Some f \<Rightarrow> fr_refs f)"

definition files_ok :: "filerecs \<Rightarrow> bool" where
  "files_ok fs \<longleftrightarrow> files_wf fs \<and> fds_ok fs"

lemma refs_of_dom: "0 < refs_of fs p \<Longrightarrow> p \<in> dom (heap fs)"
  by (auto simp: refs_of_def split: option.split_asm)

lemma fds_ok_upd: "fds_ok fs \<Longrightarrow> heap fs p = Some f \<Longrightarrow> fds_ok (fs\<lparr>heap := (heap fs)(p \<mapsto> f\<lparr>fr_refs := n\<rparr>)\<rparr>)"
  by (auto simp: fds_ok_def)

lemma filerec_get_ok:
  assumes "files_ok fs" "p \<in> dom (heap fs)"
  shows "files_ok (filerec_get fs p)" "dom (heap (filerec_get fs p)) = dom (heap fs)"
    "refs_of (filerec_get fs p) q = refs_of fs q + (if q = p then 1 else 0)"
proof -
  obtain f where f: "heap fs p = Some f" using assms(2) by auto
  then have g: "filerec_get fs p = fs\<lparr>heap := (heap fs)(p \<mapsto> f\<lparr>fr_refs := fr_refs f + 1\<rparr>)\<rparr>"
    by (simp add: filerec_get_def)
  show "files_ok (filerec_get fs p)"
    using assms(1) f files_wf_upd [of fs p f] fds_ok_upd [of fs p f] unfolding g files_ok_def by simp
  show "dom (heap (filerec_get fs p)) = dom (heap fs)" using f by (auto simp: g)
  show "refs_of (filerec_get fs p) q = refs_of fs q + (if q = p then 1 else 0)" using f by (simp add: g refs_of_def)
qed

lemma hold_files_ok:
  "files_ok fs \<Longrightarrow> set ps \<subseteq> dom (heap fs) \<Longrightarrow>
    \<exists>fs'. hold_files fs ps = Some fs' \<and> files_ok fs' \<and> dom (heap fs') = dom (heap fs) \<and>
      (\<forall>q. refs_of fs' q = refs_of fs q + count_list ps q)"
proof (induction ps arbitrary: fs)
  case (Cons p ps)
  have p: "p \<in> dom (heap fs)" using Cons(3) by simp
  note g = filerec_get_ok [OF Cons(2) p]
  from Cons(1) [OF g(1)] Cons(3) g(2) obtain fs' where
    "hold_files (filerec_get fs p) ps = Some fs'" "files_ok fs'" "dom (heap fs') = dom (heap fs)"
    "\<forall>q. refs_of fs' q = refs_of (filerec_get fs p) q + count_list ps q" by auto
  moreover have "heap fs p \<noteq> None" using p by auto
  ultimately show ?case using g(3) by (intro exI [of _ fs']) simp
qed simp

lemma filerec_put_ok:
  assumes "files_ok fs" "0 < refs_of fs p"
  shows "\<exists>fs'. filerec_put fs p = Some fs' \<and> files_ok fs' \<and> (\<forall>q. refs_of fs' q = refs_of fs q - (if q = p then 1 else 0))"
proof -
  obtain f where f: "heap fs p = Some f" "0 < fr_refs f"
    using assms(2) by (auto simp: refs_of_def split: option.split_asm)
  define fs1 where "fs1 = fs\<lparr>heap := (heap fs)(p \<mapsto> f\<lparr>fr_refs := fr_refs f - 1\<rparr>)\<rparr>"
  have ok: "files_wf fs1" "fds_ok fs1"
    using assms(1) f files_wf_upd [of fs p f] fds_ok_upd [of fs p f] unfolding fs1_def files_ok_def by simp_all
  have r: "refs_of fs1 q = refs_of fs q - (if q = p then 1 else 0)" for q
    using f by (simp add: fs1_def refs_of_def)
  show ?thesis
  proof (cases "fr_refs f - 1 = 0")
    case False
    then have "filerec_put fs p = Some fs1" using f by (simp add: filerec_put_def fs1_def)
    then show ?thesis using ok r by (simp add: files_ok_def)
  next
    case True
    have h1: "heap fs1 p = Some (f\<lparr>fr_refs := fr_refs f - 1\<rparr>)" by (simp add: fs1_def)
    note fr = filerec_free_spec [OF ok(1) h1]
    have "filerec_put fs p = Some (filerec_free fs1 p)" using f True by (simp add: filerec_put_def fs1_def)
    moreover have "fds_ok (filerec_free fs1 p)" using ok(2) by (simp add: fds_ok_def fr(2))
    moreover have "refs_of (filerec_free fs1 p) q = refs_of fs q - (if q = p then 1 else 0)" for q
      using r [of q] True f by (simp add: refs_of_def fr(2))
    ultimately show ?thesis using fr(1) by (simp add: files_ok_def)
  qed
qed

lemma put_files_ok:
  "files_ok fs \<Longrightarrow> \<forall>q. count_list ps q \<le> refs_of fs q \<Longrightarrow>
    \<exists>fs'. put_files fs ps = Some fs' \<and> files_ok fs' \<and> (\<forall>q. refs_of fs' q = refs_of fs q - count_list ps q)"
proof (induction ps arbitrary: fs)
  case (Cons p ps)
  have "0 < refs_of fs p" using Cons(3) [THEN spec, of p] by simp
  from filerec_put_ok [OF Cons(2) this] obtain fs1 where
    1: "filerec_put fs p = Some fs1" "files_ok fs1" "\<forall>q. refs_of fs1 q = refs_of fs q - (if q = p then 1 else 0)"
    by blast
  have "\<forall>q. count_list ps q \<le> refs_of fs1 q"
  proof
    fix q
    show "count_list ps q \<le> refs_of fs1 q" using Cons(3) [THEN spec, of q] 1(3) by (cases "q = p") simp_all
  qed
  from Cons(1) [OF 1(2) this] obtain fs' where
    "put_files fs1 ps = Some fs'" "files_ok fs'" "\<forall>q. refs_of fs' q = refs_of fs1 q - count_list ps q" by blast
  then show ?case using 1 by (intro exI [of _ fs']) simp
qed simp

lemma load_filerecs_ok:
  "files_ok fs \<Longrightarrow> files_ok (load_filerecs fs recs) \<and> dom (heap fs) \<subseteq> dom (heap (load_filerecs fs recs)) \<and>
    (\<forall>q. refs_of (load_filerecs fs recs) q = refs_of fs q)"
proof (induction recs arbitrary: fs)
  case (Cons x recs)
  obtain ptr name fno sz where x: "x = (ptr, name, fno, sz)" by (cases x) auto
  define fs1 where "fs1 = (if filerec_find fs fno = None \<and> heap fs ptr = None
       then case filerec_new fs ptr name fno sz of Some fs \<Rightarrow> fs | None \<Rightarrow> fs else fs)"
  have 1: "files_ok fs1 \<and> dom (heap fs) \<subseteq> dom (heap fs1) \<and> (\<forall>q. refs_of fs1 q = refs_of fs q)"
  proof (cases "filerec_find fs fno = None \<and> heap fs ptr = None")
    case False
    then have "fs1 = fs" by (auto simp: fs1_def)
    then show ?thesis using Cons(2) by simp
  next
    case True
    have wf: "files_wf fs" using Cons(2) by (simp add: files_ok_def)
    obtain s' where s': "filerec_new fs ptr name fno sz = Some s'" "files_wf s'"
      "heap s' = (heap fs)(ptr \<mapsto> \<lparr>fr_fd = - 1, fd_refs = 0, fr_refs = 0, filename = name, fileid = fno, fr_size = sz\<rparr>)"
      using filerec_new_spec [OF wf, where ptr = ptr and name = name and fno = fno and sz = sz] True by (auto split: option.split_asm)
    then have "fs1 = s'" using True by (simp add: fs1_def)
    moreover have "fds_ok s'" using Cons(2) s'(3) by (simp add: files_ok_def fds_ok_def)
    moreover have "refs_of s' q = refs_of fs q" for q using s'(3) True by (simp add: refs_of_def)
    ultimately show ?thesis using s'(2,3) by (auto simp: files_ok_def)
  qed
  have "load_filerecs fs (x # recs) = load_filerecs fs1 recs" by (simp add: x fs1_def)
  then show ?case using 1 Cons(1) [of fs1] by (metis order_trans)
qed simp

lemma free_unreferenced_ok:
  assumes "files_ok fs"
  shows "\<exists>fs'. filerec_free_unreferenced (\<lambda>_. True) fs = Some fs' \<and> files_ok fs' \<and> (\<forall>q. refs_of fs' q = refs_of fs q)"
proof -
  have wf: "files_wf fs" using assms by (simp add: files_ok_def)
  note w = files_wfD [OF wf]
  have "set (filerec_head fs) \<subseteq> dom (heap fs)" using w(2) by (auto simp: ids_def)
  from free_unreferenced_loop_spec [OF wf this w(1), of "\<lambda>_. True"] obtain fs' where
    f: "free_unreferenced_loop (\<lambda>_. True) fs (filerec_head fs) = Some fs'" "files_wf fs'"
      "heap fs' = (\<lambda>p. if p \<in> set (filerec_head fs) \<and> (\<exists>f. heap fs p = Some f \<and> fr_refs f = 0) then None else heap fs p)"
    by auto
  have "refs_of fs' q = refs_of fs q" for q by (auto simp: refs_of_def f(3) split: option.split)
  moreover have "fds_ok fs'" using assms by (auto simp: files_ok_def fds_ok_def f(3))
  ultimately show ?thesis using f(1,2) by (simp add: files_ok_def filerec_free_unreferenced_def)
qed

subsection \<open>Batches\<close>

definition tree_fine :: "results_tree \<Rightarrow> bool" where
  "tree_fine res \<longleftrightarrow> rt_wf res \<and> no_empty res \<and> (\<forall>g. group_sane res g)"

definition member_files :: "results_tree \<Rightarrow> nat set" where
  "member_files res = (\<lambda>x. fst (snd x)) ` members res"

lemma loader_ok_iff: "loader_ok fs res \<longleftrightarrow> tree_fine res \<and> member_files res \<subseteq> dom (heap fs)"
  by (auto simp: loader_ok_def tree_fine_def member_files_def)

definition batch_inv :: "batch \<Rightarrow> bool" where
  "batch_inv b \<longleftrightarrow> tree_fine (bt_files b) \<and> tree_fine (bt_extents b) \<and> distinct (bt_items b) \<and>
    bt_outstanding b = length (bt_items b) \<and>
    (\<forall>x\<in>set (bt_items b). 2 \<le> card (places (batch_tree (fst x) b) (snd x)))"

lemma tree_fine_init: "tree_fine init_results_tree" "member_files init_results_tree = {}"
  by (auto simp: tree_fine_def init_wf group_sane_def places_def member_files_def)

lemma mset_insert_by_work: "mset (insert_by_work a ds) = add_mset a (mset ds)"
  by (induction ds) auto

lemma mset_sort_by_work [simp]: "mset (sort_by_work ds) = mset ds"
  by (induction ds) (simp_all add: sort_by_work_def mset_insert_by_work)

lemma set_sort_by_work [simp]: "set (sort_by_work ds) = set ds"
  by (rule mset_eq_setD) simp

lemma distinct_sort_by_work [simp]: "distinct (sort_by_work ds) \<longleftrightarrow> distinct ds"
  by (rule mset_eq_imp_distinct_iff) simp

lemma group_unique:
  assumes "rt_wf res"
  shows "d \<in> set_tree (rt_root res) \<longleftrightarrow> rb_find (dext_dir (group_of d)) (rt_root res) = Some d"
    "inj_on group_of (set_tree (rt_root res))"
proof -
  have o: "dx.ordered (rt_root res)" using assms by (simp add: rt_wf_def)
  show find: "d \<in> set_tree (rt_root res) \<longleftrightarrow> rb_find (dext_dir (group_of d)) (rt_root res) = Some d" for d
    using dx.find_iff [OF o, of "group_of d" d] by simp
  show "inj_on group_of (set_tree (rt_root res))"
    by (intro inj_onI) (metis find option.inject)
qed

lemma group_of_tree:
  assumes "rt_wf res" "d \<in> set_tree (rt_root res)"
  shows "places res (group_of d) = place_of ` set (de_extents d)" "card (places res (group_of d)) = de_num_dupes d"
    "dext_wf d"
  using places_found [OF assms(1), of "group_of d" d] assms(2) group_unique(1) [OF assms(1)] dext_wf_distinct(2)
  by auto

lemma files_of_tree:
  assumes "rt_wf res"
  shows "set (concat (map (\<lambda>d. map e_file (de_extents d)) (inorder (rt_root res)))) = member_files res"
proof -
  have "member_files res = (\<Union>d\<in>set_tree (rt_root res). fst ` set_tree (de_extents_root d))"
    by (simp add: member_files_def members_def image_UN image_image)
  moreover have "fst ` set_tree (de_extents_root d) = e_file ` set (de_extents d)" if "d \<in> set_tree (rt_root res)" for d
    using dext_wf_distinct(2) [OF group_of_tree(3) [OF assms that], symmetric] by (simp add: image_image)
  ultimately show ?thesis by simp
qed

lemma push_results_ok:
  assumes "batch_inv b" "files_ok fs" "member_files (batch_tree w b) \<subseteq> dom (heap fs)"
    and "\<forall>x\<in>set (bt_items b). fst x \<noteq> w"
  shows "\<exists>b' fs' files. push_results fs b w = Some (b', fs') \<and> batch_inv b' \<and>
    (\<exists>gs. b' = b\<lparr>bt_held := bt_held b @ files, bt_outstanding := bt_outstanding b + length gs,
              bt_items := bt_items b @ map (Pair w) gs\<rparr>) \<and>
    set files = member_files (batch_tree w b) \<and> files_ok fs' \<and> dom (heap fs') = dom (heap fs) \<and>
    (\<forall>q. refs_of fs' q = refs_of fs q + count_list files q)"
proof -
  define res where "res = batch_tree w b"
  define files where "files = concat (map (\<lambda>d. map e_file (de_extents d)) (inorder (rt_root res)))"
  define ds where "ds = sort_by_work (take (num_dupes res) (filter (\<lambda>d. \<not> de_num_dupes d < 2) (inorder (rt_root res))))"
  have fine: "tree_fine res" using assms(1) by (simp add: batch_inv_def batch_tree_def res_def)
  then have wf: "rt_wf res" by (simp add: tree_fine_def)
  have fset: "set files = member_files res" unfolding files_def by (rule files_of_tree [OF wf])
  then obtain fs' where fs': "hold_files fs files = Some fs'" "files_ok fs'" "dom (heap fs') = dom (heap fs)"
      "\<forall>q. refs_of fs' q = refs_of fs q + count_list files q"
    using hold_files_ok [OF assms(2), of files] assms(3) unfolding res_def by blast
  have dset: "set ds \<subseteq> {d \<in> set_tree (rt_root res). 2 \<le> de_num_dupes d}"
    unfolding ds_def by (auto dest: in_set_takeD)
  have dd: "distinct ds"
    using dx.ordered_distinct [of "rt_root res"] wf by (simp add: ds_def rt_wf_def)
  have work: "\<not> 2 ^ 50 < dext_work d" if "d \<in> set ds" for d
  proof -
    have dt: "d \<in> set_tree (rt_root res)" using that dset by auto
    have "group_sane res (group_of d)" using fine by (simp add: tree_fine_def)
    then show ?thesis using group_of_tree(2) [OF wf dt] by (simp add: group_sane_def dext_work_def not_less)
  qed
  have items: "map (\<lambda>d. (w, group_of d)) ds = map (Pair w) (map group_of ds)" by simp
  define b' where "b' = b\<lparr>bt_held := bt_held b @ files, bt_outstanding := bt_outstanding b + length ds,
      bt_items := bt_items b @ map (Pair w) (map group_of ds)\<rparr>"
  have push: "push_results fs b w = Some (b', fs')"
    using fs'(1) work by (auto simp: push_results_def b'_def items Let_def files_def ds_def res_def)
  have tree: "batch_tree v b' = batch_tree v b" for v by (simp add: batch_tree_def b'_def)
  have "distinct (map (Pair w) (map group_of ds))"
  proof -
    have "inj_on group_of (set ds)" by (rule inj_on_subset [OF group_unique(2) [OF wf]]) (use dset in auto)
    then show ?thesis using dd by (simp add: distinct_map inj_on_def)
  qed
  moreover have "set (bt_items b) \<inter> set (map (Pair w) (map group_of ds)) = {}" using assms(4) by auto
  ultimately have "distinct (bt_items b')" using assms(1) by (simp add: b'_def batch_inv_def)
  moreover have "2 \<le> card (places (batch_tree (fst x) b') (snd x))" if xin: "x \<in> set (bt_items b')" for x
  proof (cases "x \<in> set (bt_items b)")
    case True
    then show ?thesis using assms(1) by (simp add: batch_inv_def tree)
  next
    case False
    then obtain d where d: "x = (w, group_of d)" "d \<in> set ds" using xin by (auto simp: b'_def)
    then have "d \<in> set_tree (rt_root res)" "2 \<le> de_num_dupes d" using dset by auto
    then show ?thesis using d(1) group_of_tree(2) [OF wf] by (simp add: tree res_def)
  qed
  ultimately have "batch_inv b'" using assms(1) unfolding batch_inv_def by (simp add: b'_def batch_tree_def)
  then show ?thesis
    using push fset fs' unfolding res_def
    by (intro exI [of _ b'] exI [of _ fs'] exI [of _ files]) (auto simp: b'_def intro!: exI [of _ "map group_of ds"])
qed

lemma dedupe_worker_body_ok:
  assumes "group_ready res (group_of d) s" "dedupe_kernel (os_dedupe os)" "open_answers (os_open os)"
  shows "\<exists>res' s' settled. dedupe_worker_body os report stop whole res d s = Ok (res', s', settled, stop) \<and>
    g_files s' = g_files s \<and> rt_wf res' \<and> no_empty res' \<and>
    members res' = (if stop then members res else members res - {group_of d} \<times> UNIV)"
proof (cases stop)
  case True
  then show ?thesis using assms(1) by (simp add: dedupe_worker_body_def group_ready_def Let_def)
next
  case False
  have "group_ready res (group_of d) (s\<lparr>g_ticked := 0\<rparr>)" using assms(1) by (simp add: group_ready_def)
  from extent_dedupe_worker_ok [OF this assms(2,3), of report whole] obtain res' s' where
    "extent_dedupe_worker os report whole res (group_of d) (s\<lparr>g_ticked := 0\<rparr>) = Ok (res', s')"
    "g_files s' = g_files s" "rt_wf res'" "no_empty res'" "members res' = members res - {group_of d} \<times> UNIV"
    by auto
  then show ?thesis using False by (simp add: dedupe_worker_body_def Let_def)
qed

lemma group_is_ready:
  assumes "tree_fine res" "2 \<le> card (places res g)" "files_ok fs" "member_files res \<subseteq> dom (heap fs)"
  shows "\<exists>d. rb_find (dext_dir g) (rt_root res) = Some d \<and> group_of d = g \<and> group_ready res g (start_run fs k)"
proof -
  have wf: "rt_wf res" "no_empty res" "group_sane res g" using assms(1) unfolding tree_fine_def by blast+
  have "places res g \<noteq> {}" using assms(2) by auto
  then obtain e where "(g, e) \<in> members res" by (auto simp: places_def)
  then obtain d where d: "rb_find (dext_dir g) (rt_root res) = Some d" by (rule found_of_member [OF wf(1)])
  note pl = places_found [OF wf(1) d]
  have pe: "place_of e \<in> places res g" if "e \<in> set (de_extents d)" for e
    using that pl(1) dext_wf_distinct(2) [OF pl(3)] by auto
  have "e_file e \<in> dom (heap fs) \<and> e_loff e < e_loff e + de_len d" if e: "e \<in> set (de_extents d)" for e
  proof
    have "e_file e \<in> member_files res" using pe [OF e] by (force simp: member_files_def places_def)
    then show "e_file e \<in> dom (heap fs)" using assms(4) by blast
    have "fst g = de_len d" using pl(4) by auto
    then show "e_loff e < e_loff e + de_len d" using wf(3) pe [OF e] by (auto simp: group_sane_def)
  qed
  moreover have "2 \<le> de_num_dupes d" "de_num_dupes d < 2 ^ 32"
    using assms(2) wf(3) pl(2) by (simp_all add: group_sane_def)
  moreover have "fds_ok (g_files (start_run fs k))" "g_open (start_run fs k) = Leaf" "g_ctxt (start_run fs k) = None"
    "g_target (start_run fs k) = None" "g_files (start_run fs k) = fs"
    using assms(3) by (simp_all add: start_run_def files_ok_def)
  ultimately have "group_ready res g (start_run fs k)" unfolding group_ready_def using wf(1,2) d by auto
  then show ?thesis using d pl(4) by blast
qed

lemma places_without:
  "members res' = members res - {g} \<times> UNIV \<Longrightarrow> places res' h = (if h = g then {} else places res h)"
  by (auto simp: places_def)

lemma tree_fine_without:
  assumes "tree_fine res" "rt_wf res'" "no_empty res'" "members res' = members res - {g} \<times> UNIV \<or> members res' = members res"
  shows "tree_fine res'"
proof -
  have "places res' h = {} \<or> places res' h = places res h" for h
    using assms(4) by (auto simp: places_def)
  note pl = this
  have "group_sane res' h" for h
  proof (cases "places res' h = {}")
    case False
    then have "places res' h = places res h" using pl [of h] by blast
    moreover have "group_sane res h" using assms(1) unfolding tree_fine_def by blast
    ultimately show ?thesis by (simp add: group_sane_def)
  qed (simp add: group_sane_def)
  then show ?thesis using assms(2,3) by (simp add: tree_fine_def)
qed

lemma batch_tree_upd [simp]:
  "batch_tree v (set_tree_of w res b) = (if v = w then res else batch_tree v b)"
  "bt_held (set_tree_of w res b) = bt_held b" "bt_items (set_tree_of w res b) = bt_items b"
  "bt_outstanding (set_tree_of w res b) = bt_outstanding b" "bt_pushed (set_tree_of w res b) = bt_pushed b"
  "bt_seq_lo (set_tree_of w res b) = bt_seq_lo b" "bt_seq_hi (set_tree_of w res b) = bt_seq_hi b"
  "bt_cut (set_tree_of w res b) = bt_cut b"
  by (auto simp: batch_tree_def set_tree_of_def)

lemma batch_inv_alt:
  "batch_inv b \<longleftrightarrow> (\<forall>w. tree_fine (batch_tree w b)) \<and> distinct (bt_items b) \<and>
    bt_outstanding b = length (bt_items b) \<and>
    (\<forall>x\<in>set (bt_items b). 2 \<le> card (places (batch_tree (fst x) b) (snd x)))"
proof -
  have "(\<forall>w. tree_fine (batch_tree w b)) \<longleftrightarrow> tree_fine (bt_files b) \<and> tree_fine (bt_extents b)"
    by (auto simp: batch_tree_def)
  then show ?thesis by (simp add: batch_inv_def)
qed

text \<open>What a worker leaves as it was.\<close>

definition same_batch :: "batch \<Rightarrow> batch \<Rightarrow> bool" where
  "same_batch b b' \<longleftrightarrow> bt_held b' = bt_held b \<and> bt_seq_lo b' = bt_seq_lo b \<and> bt_seq_hi b' = bt_seq_hi b \<and>
    bt_pushed b' = bt_pushed b \<and> (\<forall>w. member_files (batch_tree w b') \<subseteq> member_files (batch_tree w b)) \<and>
    (\<forall>w. members (batch_tree w b) = {} \<longrightarrow> batch_tree w b' = batch_tree w b) \<and>
    set (bt_items b') \<subseteq> set (bt_items b)"

lemma run_item_ok:
  assumes "batch_inv b" "item \<in> set (bt_items b)" "files_ok fs" "member_files (batch_tree (fst item) b) \<subseteq> dom (heap fs)"
    and "dedupe_kernel (os_dedupe os)" "open_answers (os_open os)"
  shows "\<exists>b'. run_item os report stop k item fs b = Some (b', fs) \<and> batch_inv b' \<and> same_batch b b' \<and>
    Suc (bt_outstanding b') = bt_outstanding b"
proof -
  define w g res where "w = fst item" and "g = snd item" and "res = batch_tree w b"
  have item: "item = (w, g)" by (simp add: w_def g_def)
  have fine: "tree_fine res" and two: "2 \<le> card (places res g)"
    using assms(1,2) by (auto simp: batch_inv_alt res_def w_def g_def)
  obtain d where d: "rb_find (dext_dir g) (rt_root res) = Some d" "group_of d = g" "group_ready res g (start_run fs k)"
    using group_is_ready [OF fine two assms(3), of k] assms(4) unfolding res_def w_def by blast
  obtain res' s' settled where r: "dedupe_worker_body os report stop w res d (start_run fs k) = Ok (res', s', settled, stop)"
      "g_files s' = g_files (start_run fs k)" "rt_wf res'" "no_empty res'"
      "members res' = (if stop then members res else members res - {g} \<times> UNIV)"
    using dedupe_worker_body_ok [of res d "start_run fs k" os report stop w] d(2,3) assms(5,6) by auto
  define b' where "b' = item_done item res' stop b"
  have run: "run_item os report stop k item fs b = Some (b', fs)"
    using d(1) r(1,2) by (simp add: run_item_def item res_def b'_def start_run_def)
  have t: "batch_tree v b' = (if v = w then res' else batch_tree v b)" for v
    by (auto simp: b'_def item_done_def w_def batch_tree_def set_tree_of_def)
  have it: "bt_items b' = remove1 item (bt_items b)" "bt_outstanding b' = bt_outstanding b - 1"
    by (simp_all add: b'_def item_done_def)
  have "tree_fine res'" by (rule tree_fine_without [OF fine r(3,4), of g]) (use r(5) in auto)
  then have fines: "tree_fine (batch_tree v b')" for v using assms(1) by (simp add: t batch_inv_alt)
  have two': "2 \<le> card (places (batch_tree (fst x) b') (snd x))" if x: "x \<in> set (bt_items b')" for x
  proof -
    have "x \<in> set (bt_items b)" "x \<noteq> item" using x assms(1) by (auto simp: it batch_inv_alt)
    then have o: "2 \<le> card (places (batch_tree (fst x) b) (snd x))" "fst x = w \<Longrightarrow> snd x \<noteq> g"
      using assms(1) item by (auto simp: batch_inv_alt prod_eq_iff)
    have "places res' h = places res h" if "h \<noteq> g" for h using r(5) that by (auto simp: places_def)
    then show ?thesis using o by (auto simp: t res_def)
  qed
  have n: "Suc (bt_outstanding b') = bt_outstanding b" "bt_outstanding b' = length (bt_items b')"
    using assms(1,2) length_pos_if_in_set [OF assms(2)] by (auto simp: it batch_inv_alt length_remove1)
  have "batch_inv b'" unfolding batch_inv_alt using fines two' n(2) assms(1) by (simp add: it batch_inv_alt)
  moreover have "same_batch b b'"
  proof -
    have sub: "members res' \<subseteq> members res" using r(5) by auto
    then have "member_files (batch_tree v b') \<subseteq> member_files (batch_tree v b)" for v
      by (auto simp: t member_files_def res_def)
    moreover have "members (batch_tree v b) = {} \<Longrightarrow> batch_tree v b' = batch_tree v b" for v
      using two by (auto simp: t res_def places_def)
    moreover have "set (bt_items b') \<subseteq> set (bt_items b)" unfolding it by (rule set_remove1_subset)
    moreover have "bt_held b' = bt_held b \<and> bt_seq_lo b' = bt_seq_lo b \<and> bt_seq_hi b' = bt_seq_hi b \<and> bt_pushed b' = bt_pushed b"
      by (simp add: b'_def item_done_def)
    ultimately show ?thesis unfolding same_batch_def by blast
  qed
  ultimately show ?thesis using run n(1) by blast
qed

subsection \<open>What the producer and the workers keep\<close>

definition covered :: "batch \<Rightarrow> bool \<Rightarrow> bool" where
  "covered b w \<longleftrightarrow> member_files (batch_tree w b) \<subseteq> set (bt_held b)"

definition sealed :: "batch \<Rightarrow> bool" where
  "sealed b \<longleftrightarrow> bt_pushed b \<and> (\<forall>w. covered b w)"

text \<open>The references of a file are those its batches hold, and what is in a batch's trees is allocated.\<close>

definition shared_inv :: "filerecs \<Rightarrow> batch list \<Rightarrow> bool" where
  "shared_inv fs bs \<longleftrightarrow> files_ok fs \<and> (\<forall>q. refs_of fs q = count_list (concat (map bt_held bs)) q) \<and>
    (\<forall>b\<in>set bs. batch_inv b \<and> (\<forall>w. member_files (batch_tree w b) \<subseteq> dom (heap fs)))"

fun open_ok :: "producer_pc \<Rightarrow> batch \<Rightarrow> bool" where
  "open_ok Idle b = False"
| "open_ok Begun b = (bt_files b = init_results_tree \<and> bt_extents b = init_results_tree \<and> bt_items b = [])"
| "open_ok FilesLoaded b = (bt_extents b = init_results_tree \<and> bt_items b = [])"
| "open_ok FilesPushed b = (bt_extents b = init_results_tree \<and> covered b True \<and> (\<forall>x\<in>set (bt_items b). fst x))"
| "open_ok ExtentsLoaded b = (covered b True \<and> (\<forall>x\<in>set (bt_items b). fst x))"
| "open_ok ExtentsPushed b = (covered b True \<and> covered b False)"

definition all_batches :: "pipeline \<Rightarrow> batch list" where
  "all_batches p = pl_inflight p @ (case pl_open p of None \<Rightarrow> [] | Some b \<Rightarrow> [b])"

definition pipe_inv :: "pipeline \<Rightarrow> bool" where
  "pipe_inv p \<longleftrightarrow> shared_inv (pl_files p) (all_batches p) \<and> (\<forall>b\<in>set (pl_inflight p). sealed b) \<and>
    pl_count p = length (pl_inflight p) \<and>
    (case pl_open p of
       None \<Rightarrow> pl_pc p = Idle \<and> pl_count p \<le> DEDUPE_MAX_INFLIGHT
     | Some b \<Rightarrow> open_ok (pl_pc p) b \<and> pl_count p < DEDUPE_MAX_INFLIGHT)"

lemma count_list_concat: "b \<in> set bs \<Longrightarrow> count_list (bt_held b) q \<le> count_list (concat (map bt_held bs)) q"
  by (induction bs) auto

lemma held_allocated:
  assumes "\<forall>q. refs_of fs q = count_list (concat (map bt_held bs)) q" "b \<in> set bs" "covered b w"
  shows "member_files (batch_tree w b) \<subseteq> dom (heap fs)"
proof
  fix q assume "q \<in> member_files (batch_tree w b)"
  then have "q \<in> set (bt_held b)" using assms(3) by (auto simp: covered_def)
  then have "count_list (bt_held b) q \<noteq> 0" by (simp add: count_list_0_iff)
  then have "0 < refs_of fs q" using count_list_concat [OF assms(2), of q] assms(1) by simp
  then show "q \<in> dom (heap fs)" by (rule refs_of_dom)
qed

lemma tree_freed: "tree_fine res \<Longrightarrow> free_results_tree (Suc (num_dupes res)) res = Some init_results_tree"
  by (rule free_results_tree_spec) (auto simp: tree_fine_def)

text \<open>Fields that freeing a batch leaves alone.\<close>

lemma dedupe_advance_seq_kept [simp]:
  "pl_inflight (dedupe_advance_seq n p) = pl_inflight p" "pl_count (dedupe_advance_seq n p) = pl_count p"
  "pl_open (dedupe_advance_seq n p) = pl_open p" "pl_pc (dedupe_advance_seq n p) = pl_pc p"
  "pl_files (dedupe_advance_seq n p) = pl_files p" "pl_next (dedupe_advance_seq n p) = pl_next p"
  "pl_frozen (dedupe_advance_seq n p) = pl_frozen p" "pl_cut (dedupe_advance_seq n p) = pl_cut p"
  "pl_fail (dedupe_advance_seq n p) = pl_fail p"
  by (simp_all add: dedupe_advance_seq_def Let_def)

lemma free_batch_ok:
  assumes "shared_inv (pl_files p) (b # rest)" "\<forall>b\<in>set rest. sealed b" "pl_open p = None"
  shows "\<exists>p'. free_batch b p = Some p' \<and> shared_inv (pl_files p') rest \<and> pl_open p' = None \<and>
    pl_inflight p' = pl_inflight p \<and> pl_count p' = pl_count p \<and> pl_pc p' = pl_pc p"
proof -
  have ok: "files_ok (pl_files p)"
    and refs: "\<forall>q. refs_of (pl_files p) q = count_list (concat (map bt_held (b # rest))) q"
    and inv: "\<forall>b\<in>set (b # rest). batch_inv b"
    using assms(1) by (simp_all add: shared_inv_def)
  have "\<forall>q. count_list (bt_held b) q \<le> refs_of (pl_files p) q" using refs by simp
  from put_files_ok [OF ok this] obtain fs' where
    fs': "put_files (pl_files p) (bt_held b) = Some fs'" "files_ok fs'"
      "\<forall>q. refs_of fs' q = refs_of (pl_files p) q - count_list (bt_held b) q" by blast
  have r: "\<forall>q. refs_of fs' q = count_list (concat (map bt_held rest)) q" using fs'(3) refs by simp
  have "member_files (batch_tree w c) \<subseteq> dom (heap fs')" if "c \<in> set rest" for c w
    using held_allocated [OF r that] assms(2) that by (auto simp: sealed_def)
  then have s: "shared_inv fs' rest" using fs'(2) r inv by (simp add: shared_inv_def)
  have "tree_fine (bt_files b)" "tree_fine (bt_extents b)" using inv by (simp_all add: batch_inv_def)
  note t = this [THEN tree_freed]
  show ?thesis
    using assms(3) fs'(1) s t
    by (cases "bt_cut b"; cases "pl_frozen p") (simp_all add: free_batch_def Let_def del: free_results_tree.simps)
qed

lemma reap_loop_ok:
  "shared_inv (pl_files p) bs \<Longrightarrow> \<forall>b\<in>set bs. sealed b \<Longrightarrow> pl_open p = None \<Longrightarrow> pl_count p = length bs \<Longrightarrow>
    \<exists>p'. reap_loop p bs = Some p' \<and> shared_inv (pl_files p') (pl_inflight p') \<and> (\<forall>b\<in>set (pl_inflight p'). sealed b) \<and>
      pl_open p' = None \<and> pl_count p' = length (pl_inflight p') \<and> pl_pc p' = pl_pc p \<and>
      length (pl_inflight p') \<le> length bs \<and> (\<forall>b rest. pl_inflight p' = b # rest \<longrightarrow> bt_outstanding b \<noteq> 0) \<and>
      (\<exists>xs. bs = xs @ pl_inflight p')"
proof (induction bs arbitrary: p)
  case (Cons b rest)
  show ?case
  proof (cases "bt_outstanding b \<noteq> 0 \<or> \<not> bt_pushed b")
    case True
    then show ?thesis using Cons(2-5) by (auto simp: sealed_def)
  next
    case False
    define p1 where "p1 = p\<lparr>pl_inflight := rest, pl_count := pl_count p - 1\<rparr>"
    have "shared_inv (pl_files p1) (b # rest)" "\<forall>b\<in>set rest. sealed b" "pl_open p1 = None"
      using Cons(2-4) by (simp_all add: p1_def)
    from free_batch_ok [OF this] obtain p2 where
      p2: "free_batch b p1 = Some p2" "shared_inv (pl_files p2) rest" "pl_open p2 = None"
        "pl_count p2 = pl_count p1" "pl_pc p2 = pl_pc p1" by blast
    have "pl_count p2 = length rest" using Cons(5) p2(4) by (simp add: p1_def)
    from Cons(1) [OF p2(2) _ p2(3) this] Cons(3) obtain p' where
      p': "reap_loop p2 rest = Some p'" "shared_inv (pl_files p') (pl_inflight p')" "\<forall>b\<in>set (pl_inflight p'). sealed b"
        "pl_open p' = None" "pl_count p' = length (pl_inflight p')" "pl_pc p' = pl_pc p2"
        "length (pl_inflight p') \<le> length rest" "\<forall>b rest. pl_inflight p' = b # rest \<longrightarrow> bt_outstanding b \<noteq> 0"
        "\<exists>xs. rest = xs @ pl_inflight p'" by auto
    moreover have "reap_loop p (b # rest) = reap_loop p2 rest" using False p2(1) by (simp add: p1_def)
    moreover have "pl_pc p2 = pl_pc p" using p2(5) by (simp add: p1_def)
    moreover have "\<exists>xs. b # rest = xs @ pl_inflight p'"
    proof -
      from p'(9) obtain xs where "b # rest = (b # xs) @ pl_inflight p'" by auto
      then show ?thesis by blast
    qed
    ultimately show ?thesis by (intro exI [of _ p']) simp
  qed
qed simp

lemma reap_ok:
  assumes "pipe_inv p" "pl_pc p = Idle"
  shows "\<exists>p'. reap_ready_locked p = Some p' \<and> pipe_inv p' \<and> pl_pc p' = Idle \<and>
    (\<forall>b rest. pl_inflight p' = b # rest \<longrightarrow> bt_outstanding b \<noteq> 0) \<and> (\<exists>xs. pl_inflight p = xs @ pl_inflight p')"
proof -
  have o: "pl_open p = None" using assms by (auto simp: pipe_inv_def split: option.split_asm)
  then have "shared_inv (pl_files p) (pl_inflight p)" "\<forall>b\<in>set (pl_inflight p). sealed b"
    "pl_count p = length (pl_inflight p)" "pl_count p \<le> DEDUPE_MAX_INFLIGHT"
    using assms(1) by (simp_all add: pipe_inv_def all_batches_def)
  with reap_loop_ok [OF this(1,2) o this(3)] assms(2) show ?thesis
    unfolding reap_ready_locked_def by (auto simp: pipe_inv_def all_batches_def)
qed

text \<open>A worker's step, wherever its batch is.\<close>

lemma shared_inv_worker:
  assumes "shared_inv fs (xs @ b # ys)" "batch_inv b'" "same_batch b b'"
  shows "shared_inv fs (xs @ b' # ys)"
proof -
  have h: "bt_held b' = bt_held b" using assms(3) by (simp add: same_batch_def)
  have "member_files (batch_tree w b') \<subseteq> dom (heap fs)" for w
  proof -
    have "member_files (batch_tree w b) \<subseteq> dom (heap fs)" using assms(1) by (simp add: shared_inv_def)
    then show ?thesis using assms(3) unfolding same_batch_def by blast
  qed
  then show ?thesis using assms(1,2) by (simp add: shared_inv_def h)
qed

lemma same_batch_covered: "same_batch b b' \<Longrightarrow> covered b w \<Longrightarrow> covered b' w"
  unfolding same_batch_def covered_def by (metis order_trans)

lemma same_batch_sealed: "same_batch b b' \<Longrightarrow> sealed b \<Longrightarrow> sealed b'"
  using same_batch_covered unfolding sealed_def same_batch_def by blast

lemma same_batch_open_ok:
  assumes "same_batch b b'" "open_ok pc b" "bt_items b \<noteq> []"
  shows "open_ok pc b'"
proof -
  have i: "set (bt_items b') \<subseteq> set (bt_items b)" using assms(1) by (simp add: same_batch_def)
  have e: "bt_extents b' = init_results_tree" if "bt_extents b = init_results_tree"
  proof -
    have "members (batch_tree False b) = {}" using that by (simp add: batch_tree_def init_wf(3))
    then have "batch_tree False b' = batch_tree False b" using assms(1) unfolding same_batch_def by blast
    then show ?thesis using that by (simp add: batch_tree_def)
  qed
  show ?thesis
    using assms(2,3) i e same_batch_covered [OF assms(1)] by (cases pc) auto
qed

subsection \<open>Each step keeps it, and none aborts\<close>

text \<open>A result of a step is fine when it is a state, and that state satisfies the invariant.\<close>

definition step_fine :: "pipeline option \<Rightarrow> bool" where
  "step_fine r \<longleftrightarrow> (\<exists>q. r = Some q \<and> pipe_inv q)"

lemma pipe_inv_open:
  assumes "pipe_inv p" "pl_open p = Some b"
  shows "shared_inv (pl_files p) (pl_inflight p @ [b])" "\<forall>c\<in>set (pl_inflight p). sealed c"
    "pl_count p = length (pl_inflight p)" "open_ok (pl_pc p) b" "pl_count p < DEDUPE_MAX_INFLIGHT"
    "batch_inv b" "member_files (batch_tree w b) \<subseteq> dom (heap (pl_files p))" "files_ok (pl_files p)"
    "refs_of (pl_files p) q = count_list (concat (map bt_held (pl_inflight p))) q + count_list (bt_held b) q"
  using assms by (auto simp: pipe_inv_def all_batches_def shared_inv_def)

lemma pipe_inv_some_open: "pipe_inv p \<Longrightarrow> pl_pc p \<noteq> Idle \<Longrightarrow> \<exists>b. pl_open p = Some b"
  by (auto simp: pipe_inv_def split: option.split_asm)

text \<open>The open batch replaced, with at least as many records and the references it adds.\<close>

lemma pipe_inv_set_open:
  assumes "pipe_inv p" "pl_open p = Some b" "files_ok fs" "batch_inv b'" "open_ok pc b'"
    and "\<And>q. refs_of fs q = refs_of (pl_files p) q + (count_list (bt_held b') q - count_list (bt_held b) q)"
    and "\<And>q. count_list (bt_held b) q \<le> count_list (bt_held b') q"
    and "\<And>w. member_files (batch_tree w b') \<subseteq> dom (heap fs)"
  shows "pipe_inv (p\<lparr>pl_files := fs, pl_open := Some b', pl_pc := pc\<rparr>)"
proof -
  note o = pipe_inv_open [OF assms(1,2)]
  have r: "\<forall>q. refs_of fs q = count_list (concat (map bt_held (pl_inflight p @ [b']))) q"
    using assms(6,7) o(9) by simp
  have "member_files (batch_tree w c) \<subseteq> dom (heap fs)" if "c \<in> set (pl_inflight p)" for c w
    using held_allocated [OF r, of c w] o(2) that by (simp add: sealed_def)
  then have "shared_inv fs (pl_inflight p @ [b'])"
    using o(1) assms(3,4,8) r by (simp add: shared_inv_def)
  then show ?thesis using o assms(5) by (simp add: pipe_inv_def all_batches_def)
qed

lemma pipe_inv_cong:
  "pl_inflight q = pl_inflight p \<Longrightarrow> pl_count q = pl_count p \<Longrightarrow> pl_open q = pl_open p \<Longrightarrow> pl_pc q = pl_pc p \<Longrightarrow>
    pl_files q = pl_files p \<Longrightarrow> pipe_inv q = pipe_inv p"
  by (simp only: pipe_inv_def all_batches_def)

lemma begin_fine:
  assumes "pipe_inv p" "pl_pc p = Idle" "pl_count p < DEDUPE_MAX_INFLIGHT"
  shows "pipe_inv ((dedupe_begin_batch lo hi p)\<lparr>pl_next := n, pl_pc := Begun\<rparr>)"
proof -
  define b where "b = \<lparr>bt_files = init_results_tree, bt_extents = init_results_tree, bt_held = [],
        bt_seq_lo = lo, bt_seq_hi = hi, bt_outstanding = 0, bt_pushed = False, bt_cut = False, bt_items = []\<rparr>"
  have o: "pl_open p = None" using assms(1,2) by (auto simp: pipe_inv_def split: option.split_asm)
  have "member_files (batch_tree w b) = {}" for w by (simp add: b_def batch_tree_def tree_fine_init)
  moreover have "batch_inv b" by (simp add: batch_inv_def b_def tree_fine_init)
  ultimately have "shared_inv (pl_files p) (pl_inflight p @ [b])"
    using assms(1) o by (simp add: pipe_inv_def all_batches_def shared_inv_def) (simp add: b_def)
  moreover have "open_ok Begun b" by (simp add: b_def)
  ultimately show ?thesis
    using assms(1,3) o by (simp add: pipe_inv_def all_batches_def dedupe_begin_batch_def b_def)
qed

lemma load_fine:
  assumes "pipe_inv p" "pl_open p = Some b" "loader_ok (load_filerecs (pl_files p) recs) res"
    and "bt_items b = [] \<or> (\<forall>x\<in>set (bt_items b). fst x \<noteq> w)" "open_ok pc (set_tree_of w res b)"
  shows "pipe_inv ((load_groups w recs res failed b p)\<lparr>pl_pc := pc\<rparr>)"
proof -
  note o = pipe_inv_open [OF assms(1,2)]
  define fs where "fs = load_filerecs (pl_files p) recs"
  have l: "files_ok fs" "dom (heap (pl_files p)) \<subseteq> dom (heap fs)" "\<forall>q. refs_of fs q = refs_of (pl_files p) q"
    using load_filerecs_ok [OF o(8), of recs] by (simp_all add: fs_def)
  have t: "tree_fine res" "member_files res \<subseteq> dom (heap fs)" using assms(3) by (simp_all add: loader_ok_iff fs_def)
  have inv: "batch_inv (set_tree_of w res b)"
    using o(6) t(1) assms(4) by (auto simp: batch_inv_alt)
  have "pipe_inv (p\<lparr>pl_files := fs, pl_open := Some (set_tree_of w res b), pl_pc := pc\<rparr>)"
  proof (rule pipe_inv_set_open [OF assms(1,2) l(1) inv assms(5)])
    show "member_files (batch_tree v (set_tree_of w res b)) \<subseteq> dom (heap fs)" for v
      using t(2) order_trans [OF o(7) l(2)] by simp
  qed (use l in simp_all)
  then show ?thesis
    by (rule pipe_inv_cong [THEN iffD2, rotated 5]) (simp_all add: load_groups_def load_failed_def fs_def Let_def)
qed

lemma push_fine:
  assumes "pipe_inv p" "pl_open p = Some b" "\<forall>x\<in>set (bt_items b). fst x \<noteq> w"
    and "\<And>files n gs. member_files (batch_tree w b) \<subseteq> set files \<Longrightarrow>
      open_ok pc (b\<lparr>bt_held := bt_held b @ files, bt_outstanding := n, bt_items := bt_items b @ map (Pair w) gs\<rparr>)"
  shows "step_fine (at_pc pc (dedupe_push w p))"
proof (cases "rt_root (batch_tree w b) = Leaf")
  case True
  then have "member_files (batch_tree w b) = {}" by (simp add: member_files_def members_def)
  then have "open_ok pc b" using assms(4) [where files = "[]" and n = "bt_outstanding b" and gs = "[]"] by simp
  then have "pipe_inv (p\<lparr>pl_pc := pc\<rparr>)" using assms(1,2) by (simp add: pipe_inv_def all_batches_def)
  then show ?thesis using True assms(2) by (simp add: step_fine_def at_pc_def dedupe_push_def)
next
  case False
  note o = pipe_inv_open [OF assms(1,2)]
  obtain b' fs' files gs where b': "push_results (pl_files p) b w = Some (b', fs')" "batch_inv b'"
      "b' = b\<lparr>bt_held := bt_held b @ files, bt_outstanding := bt_outstanding b + length gs,
              bt_items := bt_items b @ map (Pair w) gs\<rparr>"
      "set files = member_files (batch_tree w b)" "files_ok fs'" "dom (heap fs') = dom (heap (pl_files p))"
      "\<forall>q. refs_of fs' q = refs_of (pl_files p) q + count_list files q"
    using push_results_ok [OF o(6,8) o(7) assms(3)] by blast
  have ok: "open_ok pc b'" using assms(4) b'(3,4) by simp
  have t: "batch_tree v b' = batch_tree v b" for v by (simp add: b'(3) batch_tree_def)
  have "pipe_inv (p\<lparr>pl_files := fs', pl_open := Some b', pl_pc := pc\<rparr>)"
  proof (rule pipe_inv_set_open [OF assms(1,2) b'(5,2) ok])
    show "member_files (batch_tree v b') \<subseteq> dom (heap fs')" for v unfolding t b'(6) by (rule o(7))
  qed (use b'(3,7) in simp_all)
  then have "pipe_inv (p\<lparr>pl_open := Some b', pl_files := fs', pl_pc := pc\<rparr>)"
    by (rule pipe_inv_cong [THEN iffD2, rotated 5]) simp_all
  then show ?thesis using False assms(2) b'(1) by (simp add: step_fine_def at_pc_def dedupe_push_def)
qed

lemma unref_fine:
  assumes "pipe_inv p" "pl_pc p = ExtentsPushed"
  shows "step_fine (map_option (\<lambda>fs. p\<lparr>pl_files := fs\<rparr>) (filerec_free_unreferenced (\<lambda>_. True) (pl_files p)))"
proof -
  obtain b where b: "pl_open p = Some b" using pipe_inv_some_open [OF assms(1)] assms(2) by auto
  note o = pipe_inv_open [OF assms(1) b]
  obtain fs where fs: "filerec_free_unreferenced (\<lambda>_. True) (pl_files p) = Some fs" "files_ok fs"
      "\<forall>q. refs_of fs q = refs_of (pl_files p) q"
    using free_unreferenced_ok [OF o(8)] by blast
  have r: "\<forall>q. refs_of fs q = count_list (concat (map bt_held (pl_inflight p @ [b]))) q"
    using fs(3) o(9) by simp
  have "covered b w" for w using o(4) assms(2) by (cases w) simp_all
  then have "member_files (batch_tree w b) \<subseteq> dom (heap fs)" for w
    using held_allocated [OF r, of b w] by simp
  then have "pipe_inv (p\<lparr>pl_files := fs, pl_open := Some b, pl_pc := pl_pc p\<rparr>)"
    by (intro pipe_inv_set_open [OF assms(1) b fs(2) o(6) o(4)]) (use fs(3) in simp_all)
  moreover have "p\<lparr>pl_files := fs, pl_open := Some b, pl_pc := pl_pc p\<rparr> = p\<lparr>pl_files := fs\<rparr>"
    using b by (cases p) simp
  ultimately show ?thesis using fs(1) by (simp add: step_fine_def)
qed

lemma seal_fine:
  assumes "pipe_inv p" "pl_pc p = FilesPushed \<or> pl_pc p = ExtentsPushed"
  shows "step_fine (at_pc Idle (dedupe_seal_batch p))"
proof -
  obtain b where b: "pl_open p = Some b" using pipe_inv_some_open [OF assms(1)] assms(2) by auto
  note o = pipe_inv_open [OF assms(1) b]
  define b' where "b' = b\<lparr>bt_pushed := True\<rparr>"
  have t: "batch_tree w b' = batch_tree w b" for w by (simp add: b'_def batch_tree_def)
  have "covered b w" for w
  proof (cases w)
    case False
    show ?thesis
    proof (cases "pl_pc p = ExtentsPushed")
      case False
      then have "bt_extents b = init_results_tree" using o(4) assms(2) by auto
      then show ?thesis using \<open>\<not> w\<close> by (simp add: covered_def batch_tree_def tree_fine_init)
    qed (use o(4) False in simp)
  qed (use o(4) assms(2) in auto)
  then have sealed: "sealed b'" by (simp add: sealed_def covered_def t) (simp add: b'_def)
  have "batch_inv b'" using o(6) by (simp add: batch_inv_alt t) (simp add: b'_def)
  then have sh: "shared_inv (pl_files p) (pl_inflight p @ [b'])"
    using o(1) by (simp add: shared_inv_def t) (simp add: b'_def)
  define p1 where "p1 = p\<lparr>pl_open := None, pl_inflight := pl_inflight p @ [b'], pl_count := pl_count p + 1\<rparr>"
  have "pipe_inv (p1\<lparr>pl_pc := Idle\<rparr>)"
    using sh o(2,3,5) sealed by (simp add: pipe_inv_def all_batches_def p1_def)
  moreover have "\<exists>p'. reap_ready_locked p1 = Some p' \<and> pipe_inv (p'\<lparr>pl_pc := Idle\<rparr>)"
  proof -
    have r: "shared_inv (pl_files p1) (pl_inflight p1)" "\<forall>c\<in>set (pl_inflight p1). sealed c" "pl_open p1 = None"
      "pl_count p1 = length (pl_inflight p1)" "length (pl_inflight p1) \<le> DEDUPE_MAX_INFLIGHT"
      using sh o(2,3,5) sealed by (auto simp: p1_def)
    from reap_loop_ok [OF r(1-4)] r(5) show ?thesis
      unfolding reap_ready_locked_def by (auto simp: pipe_inv_def all_batches_def)
  qed
  moreover have "dedupe_seal_batch p = reap_ready_locked p1" using b by (simp add: dedupe_seal_batch_def p1_def b'_def)
  ultimately show ?thesis by (auto simp add: step_fine_def at_pc_def)
qed

lemma work_open_fine:
  assumes "pipe_inv p" "pl_open p = Some b" "item \<in> set (bt_items b)"
    and "dedupe_kernel (os_dedupe os)" "open_answers (os_open os)"
  shows "step_fine (map_option (\<lambda>(b, fs). p\<lparr>pl_open := Some b, pl_files := fs\<rparr>) (run_item os report stop k item (pl_files p) b))"
proof -
  note o = pipe_inv_open [OF assms(1,2)]
  obtain b' where b': "run_item os report stop k item (pl_files p) b = Some (b', pl_files p)" "batch_inv b'" "same_batch b b'"
    using run_item_ok [OF o(6) assms(3) o(8,7) assms(4,5)] by blast
  have "bt_items b \<noteq> []" using assms(3) by auto
  then have "open_ok (pl_pc p) b'" using same_batch_open_ok [OF b'(3) o(4)] by blast
  then have "pipe_inv (p\<lparr>pl_open := Some b'\<rparr>)"
    using o shared_inv_worker [OF o(1) b'(2,3)] by (simp add: pipe_inv_def all_batches_def)
  then have "pipe_inv (p\<lparr>pl_open := Some b', pl_files := pl_files p\<rparr>)" by (cases p) simp
  then show ?thesis using b'(1) by (simp add: step_fine_def)
qed

lemma work_inflight_fine:
  assumes "pipe_inv p" "i < length (pl_inflight p)" "item \<in> set (bt_items (pl_inflight p ! i))"
    and "dedupe_kernel (os_dedupe os)" "open_answers (os_open os)"
  shows "step_fine (map_option (\<lambda>(b, fs). p\<lparr>pl_inflight := (pl_inflight p)[i := b], pl_files := fs\<rparr>)
    (run_item os report stop k item (pl_files p) (pl_inflight p ! i)))"
proof -
  define xs b ys where "xs = take i (pl_inflight p)" and "b = pl_inflight p ! i" and "ys = drop (Suc i) (pl_inflight p)"
  have l: "pl_inflight p = xs @ b # ys" using assms(2) by (simp add: xs_def b_def ys_def id_take_nth_drop)
  have u: "(pl_inflight p)[i := b'] = xs @ b' # ys" for b'
    using assms(2) by (simp add: xs_def ys_def upd_conv_take_nth_drop)
  let ?open = "case pl_open p of None \<Rightarrow> [] | Some b \<Rightarrow> [b]"
  have sh: "shared_inv (pl_files p) (xs @ b # (ys @ ?open))"
    using assms(1) l by (simp add: pipe_inv_def all_batches_def)
  then have b: "batch_inv b" "\<And>w. member_files (batch_tree w b) \<subseteq> dom (heap (pl_files p))" "files_ok (pl_files p)"
    by (simp_all add: shared_inv_def)
  have "item \<in> set (bt_items b)" using assms(3) by (simp add: b_def)
  then obtain b' where b': "run_item os report stop k item (pl_files p) b = Some (b', pl_files p)" "batch_inv b'" "same_batch b b'"
    using run_item_ok [OF b(1) _ b(3,2) assms(4,5)] by blast
  have "sealed b'" using same_batch_sealed [OF b'(3)] assms(1) l by (simp add: pipe_inv_def)
  then have "pipe_inv (p\<lparr>pl_inflight := xs @ b' # ys\<rparr>)"
    using shared_inv_worker [OF sh b'(2,3)] assms(1) l by (cases "pl_open p") (auto simp add: pipe_inv_def all_batches_def)
  then have "pipe_inv (p\<lparr>pl_inflight := (pl_inflight p)[i := b'], pl_files := pl_files p\<rparr>)"
    unfolding u by (cases p) simp
  then show ?thesis using b'(1) by (simp add: step_fine_def b_def)
qed

lemma pstep_fine:
  assumes "pstep os report last_seq stride p r" "pipe_inv p" "dedupe_kernel (os_dedupe os)" "open_answers (os_open os)"
  shows "step_fine r"
  using assms(1)
proof cases
  case begin_batch
  then show ?thesis using begin_fine [OF assms(2)] by (simp add: step_fine_def)
next
  case (load_files b recs res failed)
  then have "open_ok Begun b" using pipe_inv_open(4) [OF assms(2)] by metis
  then show ?thesis
    using load_fine [OF assms(2) load_files(3,4), of True FilesLoaded failed] load_files(1)
    by (simp add: step_fine_def at_pc_def set_tree_of_def)
next
  case push_files
  then obtain b where b: "pl_open p = Some b" using pipe_inv_some_open [OF assms(2)] by auto
  then have "open_ok FilesLoaded b" using pipe_inv_open(4) [OF assms(2)] push_files by metis
  then show ?thesis
    using push_fine [OF assms(2) b, of True FilesPushed] push_files
    by (auto simp: covered_def batch_tree_def)
next
  case (load_extents b recs res failed)
  then have "open_ok FilesPushed b" using pipe_inv_open(4) [OF assms(2)] by metis
  then show ?thesis
    using load_fine [OF assms(2) load_extents(3,4), of False ExtentsLoaded failed] load_extents(1)
    by (simp add: step_fine_def at_pc_def covered_def)
next
  case push_extents
  then obtain b where b: "pl_open p = Some b" using pipe_inv_some_open [OF assms(2)] by auto
  then have "open_ok ExtentsLoaded b" using pipe_inv_open(4) [OF assms(2)] push_extents by metis
  then show ?thesis
    using push_fine [OF assms(2) b, of False ExtentsPushed] push_extents
    by (auto simp: covered_def batch_tree_def)
next
  case free_unreferenced
  then show ?thesis using unref_fine [OF assms(2)] by simp
next
  case seal
  then show ?thesis using seal_fine [OF assms(2)] by simp
next
  case reap
  then show ?thesis using reap_ok [OF assms(2)] by (auto simp: step_fine_def)
next
  case (work_open b item stop k)
  then show ?thesis using work_open_fine [OF assms(2) _ _ assms(3,4)] by simp
next
  case (work_inflight i item stop k)
  then show ?thesis using work_inflight_fine [OF assms(2) _ _ assms(3,4)] by simp
qed

lemma phase_begin_inv: "files_ok fs \<Longrightarrow> \<forall>q. refs_of fs q = 0 \<Longrightarrow> pipe_inv (dedupe_phase_begin fs first_seq)"
  by (simp add: pipe_inv_def dedupe_phase_begin_def all_batches_def shared_inv_def)

lemma reachable_inv:
  assumes "reachable os report last_seq stride p0 p" "pipe_inv p0" "dedupe_kernel (os_dedupe os)" "open_answers (os_open os)"
  shows "pipe_inv p"
  using assms(1)
proof (induction rule: reachable.induct)
  case start
  show ?case by (rule assms(2))
next
  case (next_step p q)
  then show ?case using pstep_fine [OF next_step(2) next_step(3) assms(3,4)] by (simp add: step_fine_def)
qed


text \<open>A phase that starts with no file, and loads two with one group of three.\<close>

definition two_recs :: "(nat \<times> string \<times> int \<times> u64) list" where
  "two_recs = [(1, ''a'', 10, 4096), (2, ''b'', 20, 16384)]"

definition begun_pipe :: pipeline where
  "begun_pipe = (dedupe_begin_batch 0 5 (dedupe_phase_begin init_filerec 0))\<lparr>pl_next := 5, pl_pc := Begun\<rparr>"

definition loaded_pipe :: pipeline where
  "loaded_pipe = (load_groups True two_recs three_results False (the (pl_open begun_pipe)) begun_pipe)\<lparr>pl_pc := FilesLoaded\<rparr>"

lemma three_places: "places three_results g = (if g = (4096, [1]) then {(1, 0), (2, 0), (2, 8192)} else {})"
  by (auto simp: places_def members_def three_results_def three_copies_def)

lemma init_filerec_ok: "files_ok init_filerec" "refs_of init_filerec q = 0"
  by (simp_all add: files_ok_def init_files_wf fds_ok_def refs_of_def) (simp_all add: init_filerec_def)

lemma two_recs_dom: "dom (heap (load_filerecs init_filerec two_recs)) = {1, 2}"
  by (auto simp: two_recs_def filerec_find_def filerec_new_def filerec_alloc_insert_def insert_filerec_def
      init_filerec_def fileid_dir_def cmp_filerecs_def Let_def)

lemma loaded_reachable:
  "reachable os report 10 5 (dedupe_phase_begin init_filerec 0) loaded_pipe"
proof -
  let ?p0 = "dedupe_phase_begin init_filerec 0"
  have "pstep os report 10 5 ?p0 (Some ((dedupe_begin_batch (pl_next ?p0) (next_hi 10 5 (pl_next ?p0)) ?p0)
      \<lparr>pl_next := next_hi 10 5 (pl_next ?p0), pl_pc := Begun\<rparr>))"
    by (rule pstep.begin_batch) (simp_all add: dedupe_phase_begin_def)
  then have "pstep os report 10 5 ?p0 (Some begun_pipe)"
    by (simp add: begun_pipe_def dedupe_phase_begin_def next_hi_def)
  then have r: "reachable os report 10 5 ?p0 begun_pipe" by (rule reachable.next_step [OF reachable.start])
  have "rt_wf three_results" "no_empty three_results" by (rule three_results_wf)+
  moreover have "group_sane three_results g" for g
    by (auto simp: group_sane_def three_places)
  moreover have "members three_results = {((4096, [1]), (1, 0)), ((4096, [1]), (2, 0)), ((4096, [1]), (2, 8192))}"
    by (auto simp: members_def three_results_def three_copies_def)
  ultimately have ok: "loader_ok (load_filerecs (pl_files begun_pipe) two_recs) three_results"
    using two_recs_dom
    by (auto simp: loader_ok_def begun_pipe_def dedupe_begin_batch_def dedupe_phase_begin_def)
  have "pstep os report 10 5 begun_pipe (at_pc FilesLoaded (Some (load_groups True two_recs three_results False
      (the (pl_open begun_pipe)) begun_pipe)))"
    by (rule pstep.load_files [OF _ _ ok]) (simp_all add: begun_pipe_def dedupe_begin_batch_def)
  then show ?thesis
    by (intro reachable.next_step [OF r]) (simp add: at_pc_def loaded_pipe_def)
qed


subsection \<open>The watermark\<close>

text \<open>The windows of the batches not yet reaped are consecutive, up to where the loop has got.\<close>

fun windows :: "nat \<Rightarrow> batch list \<Rightarrow> nat \<Rightarrow> bool" where
  "windows lo [] hi = (lo = hi)"
| "windows lo (b # bs) hi = (bt_seq_lo b = lo \<and> lo \<le> bt_seq_hi b \<and> windows (bt_seq_hi b) bs hi)"

text \<open>\<open>base\<close> is where the first unfinished window begins, or the next one to load.\<close>

definition mark_inv :: "nat \<Rightarrow> pipeline \<Rightarrow> bool" where
  "mark_inv base p \<longleftrightarrow> windows base (all_batches p) (pl_next p) \<and> pl_seq p \<le> base \<and>
    (\<forall>f. pl_fail p = Some f \<longrightarrow> pl_seq p \<le> f) \<and> (\<forall>c. pl_cut p = Some c \<longrightarrow> pl_seq p \<le> c) \<and>
    (pl_frozen p \<longleftrightarrow> pl_cut p \<noteq> None)"

lemma windows_append: "windows lo (xs @ ys) hi \<longleftrightarrow> (\<exists>mid. windows lo xs mid \<and> windows mid ys hi)"
  by (induction xs arbitrary: lo) auto

lemma windows_le: "windows lo bs hi \<Longrightarrow> lo \<le> hi \<and> (\<forall>b\<in>set bs. lo \<le> bt_seq_lo b)"
  by (induction bs arbitrary: lo) (auto intro: order_trans)

lemma windows_cong:
  "map bt_seq_lo bs = map bt_seq_lo cs \<Longrightarrow> map bt_seq_hi bs = map bt_seq_hi cs \<Longrightarrow> windows lo bs hi = windows lo cs hi"
proof (induction bs arbitrary: lo cs)
  case (Cons b bs)
  then obtain c cs' where "cs = c # cs'" by (cases cs) simp_all
  then show ?case using Cons(1) [of cs' "bt_seq_hi c"] Cons(2,3) by simp
qed simp

lemma mark_inv_cong:
  "map bt_seq_lo (all_batches q) = map bt_seq_lo (all_batches p) \<Longrightarrow>
   map bt_seq_hi (all_batches q) = map bt_seq_hi (all_batches p) \<Longrightarrow> pl_next q = pl_next p \<Longrightarrow> pl_seq q = pl_seq p \<Longrightarrow>
   pl_fail q = pl_fail p \<Longrightarrow> pl_cut q = pl_cut p \<Longrightarrow> pl_frozen q = pl_frozen p \<Longrightarrow> mark_inv base q = mark_inv base p"
  using windows_cong [of "all_batches q" "all_batches p"] by (simp add: mark_inv_def)

text \<open>Freeing the first batch moves the mark at most to its end, and not past a failure or a cut.\<close>

lemma free_batch_mark:
  assumes "free_batch b p = Some p'" "pl_open p = None" "pl_seq p \<le> bt_seq_lo b" "bt_seq_lo b \<le> bt_seq_hi b"
    and "\<forall>f. pl_fail p = Some f \<longrightarrow> pl_seq p \<le> f" "\<forall>c. pl_cut p = Some c \<longrightarrow> pl_seq p \<le> c"
    and "pl_frozen p \<longleftrightarrow> pl_cut p \<noteq> None"
  shows "pl_inflight p' = pl_inflight p \<and> pl_open p' = None \<and> pl_next p' = pl_next p \<and> pl_seq p' \<le> bt_seq_hi b \<and>
    pl_fail p' = pl_fail p \<and> (\<forall>f. pl_fail p' = Some f \<longrightarrow> pl_seq p' \<le> f) \<and>
    (\<forall>c. pl_cut p' = Some c \<longrightarrow> pl_seq p' \<le> c) \<and> (pl_frozen p' \<longleftrightarrow> pl_cut p' \<noteq> None)"
proof -
  define p1 where "p1 = (if bt_cut b
     then p\<lparr>pl_frozen := True, pl_cut := (case pl_cut p of None \<Rightarrow> Some (bt_seq_lo b) | Some n \<Rightarrow> Some n)\<rparr> else p)"
  define p2 where "p2 = (if \<not> pl_frozen p1 then dedupe_advance_seq (bt_seq_hi b) p1 else p1)"
  have "free_batch b p = (case (free_results_tree (Suc (num_dupes (bt_files b))) (bt_files b),
                   free_results_tree (Suc (num_dupes (bt_extents b))) (bt_extents b)) of
      (Some _, Some _) \<Rightarrow> map_option (\<lambda>fs. p2\<lparr>pl_files := fs\<rparr>) (put_files (pl_files p2) (bt_held b))
    | _ \<Rightarrow> None)"
    unfolding free_batch_def p2_def p1_def Let_def using assms(2) by (simp only: simp_thms if_False)
  then obtain fs where p': "p' = p2\<lparr>pl_files := fs\<rparr>"
    using assms(1) by (cases "put_files (pl_files p2) (bt_held b)")
      (auto split: option.split_asm simp del: free_results_tree.simps)
  have p1: "pl_inflight p1 = pl_inflight p" "pl_open p1 = pl_open p" "pl_next p1 = pl_next p" "pl_seq p1 = pl_seq p"
    "pl_fail p1 = pl_fail p" "\<forall>c. pl_cut p1 = Some c \<longrightarrow> pl_seq p \<le> c" "pl_frozen p1 \<longleftrightarrow> pl_cut p1 \<noteq> None"
    using assms(3,6,7) by (auto simp: p1_def split: option.split)
  show ?thesis
  proof (cases "pl_frozen p1")
    case True
    then show ?thesis using assms(2-5) p1 by (simp add: p' p2_def)
  next
    case False
    have "pl_seq (dedupe_advance_seq (bt_seq_hi b) p1) \<le> bt_seq_hi b"
      using assms(3,4) p1(4) by (auto simp: dedupe_advance_seq_def Let_def split: option.split)
    moreover have "\<forall>f. pl_fail p1 = Some f \<longrightarrow> pl_seq (dedupe_advance_seq (bt_seq_hi b) p1) \<le> f"
      using assms(5) p1(4,5) by (auto simp: dedupe_advance_seq_def Let_def split: option.split)
    ultimately show ?thesis using False assms(2) p1 by (auto simp: p' p2_def)
  qed
qed

lemma reap_loop_mark:
  "reap_loop p bs = Some p' \<Longrightarrow> pl_open p = None \<Longrightarrow> windows base bs (pl_next p) \<Longrightarrow> pl_seq p \<le> base \<Longrightarrow>
    \<forall>f. pl_fail p = Some f \<longrightarrow> pl_seq p \<le> f \<Longrightarrow> \<forall>c. pl_cut p = Some c \<longrightarrow> pl_seq p \<le> c \<Longrightarrow>
    pl_frozen p \<longleftrightarrow> pl_cut p \<noteq> None \<Longrightarrow> \<exists>base'. mark_inv base' p' \<and> pl_open p' = None"
proof (induction bs arbitrary: p base)
  case Nil
  then show ?case by (auto simp: mark_inv_def all_batches_def)
next
  case (Cons b rest)
  show ?case
  proof (cases "bt_outstanding b \<noteq> 0 \<or> \<not> bt_pushed b")
    case True
    then show ?thesis using Cons(2-8) by (auto simp: mark_inv_def all_batches_def)
  next
    case False
    define p1 where "p1 = p\<lparr>pl_inflight := rest, pl_count := pl_count p - 1\<rparr>"
    obtain p2 where p2: "free_batch b p1 = Some p2" "reap_loop p2 rest = Some p'"
      using Cons(2) False by (auto simp: p1_def split: option.split_asm)
    have "pl_open p1 = None" "pl_seq p1 \<le> bt_seq_lo b" "bt_seq_lo b \<le> bt_seq_hi b"
      "\<forall>f. pl_fail p1 = Some f \<longrightarrow> pl_seq p1 \<le> f" "\<forall>c. pl_cut p1 = Some c \<longrightarrow> pl_seq p1 \<le> c"
      "pl_frozen p1 \<longleftrightarrow> pl_cut p1 \<noteq> None"
      using Cons(3-8) by (simp_all add: p1_def)
    note m = free_batch_mark [OF p2(1) this]
    have "windows (bt_seq_hi b) rest (pl_next p2)" using m Cons(4) by (simp add: p1_def)
    then show ?thesis
      using m by (intro Cons(1) [OF p2(2), of "bt_seq_hi b"]) simp_all
  qed
qed

lemma push_results_same:
  assumes "push_results fs b w = Some (b', fs')"
  shows "bt_seq_lo b' = bt_seq_lo b" "bt_seq_hi b' = bt_seq_hi b"
  using assms by (auto simp: push_results_def Let_def split: option.split_asm if_split_asm)

lemma run_item_same:
  assumes "run_item os report stop k item fs b = Some (b', fs')"
  shows "bt_seq_lo b' = bt_seq_lo b" "bt_seq_hi b' = bt_seq_hi b"
  using assms by (auto simp: run_item_def item_done_def split: option.split_asm outcome.split_asm)

lemma load_mark:
  assumes "mark_inv base p" "pl_open p = Some b"
  shows "\<exists>base'. mark_inv base' ((load_groups w recs res failed b p)\<lparr>pl_pc := pc\<rparr>)"
proof -
  define p1 where "p1 = p\<lparr>pl_files := load_filerecs (pl_files p) recs, pl_open := Some (set_tree_of w res b)\<rparr>"
  have "mark_inv base p1 = mark_inv base p"
    by (rule mark_inv_cong) (simp_all add: p1_def all_batches_def assms(2))
  then have m: "mark_inv base p1" using assms(1) by simp
  have "base \<le> bt_seq_lo b" using windows_le [of base "all_batches p" "pl_next p"] assms
    by (simp add: mark_inv_def all_batches_def)
  then have "pl_seq p1 \<le> bt_seq_lo b" using m by (simp add: mark_inv_def)
  then have "mark_inv base (load_failed (bt_seq_lo b) p1)"
    using m by (auto simp: mark_inv_def load_failed_def all_batches_def split: option.split)
  then have "mark_inv base (if failed then load_failed (bt_seq_lo b) p1 else p1)" using m by simp
  then have "mark_inv base ((if failed then load_failed (bt_seq_lo b) p1 else p1)\<lparr>pl_pc := pc\<rparr>)"
    by (simp add: mark_inv_def all_batches_def)
  then show ?thesis unfolding load_groups_def Let_def p1_def by blast
qed

lemma push_mark:
  assumes "mark_inv base p" "at_pc pc (dedupe_push w p) = Some q"
  shows "\<exists>base'. mark_inv base' q"
proof -
  obtain b where b: "pl_open p = Some b" using assms(2) by (auto simp: at_pc_def dedupe_push_def split: option.split_asm)
  have "mark_inv base q = mark_inv base p"
  proof (cases "rt_root (batch_tree w b) = Leaf")
    case True
    then have "q = p\<lparr>pl_pc := pc\<rparr>" using assms(2) b by (simp add: at_pc_def dedupe_push_def)
    then show ?thesis by (simp add: mark_inv_def all_batches_def)
  next
    case False
    then obtain b' fs where "push_results (pl_files p) b w = Some (b', fs)"
        "q = p\<lparr>pl_open := Some b', pl_files := fs, pl_pc := pc\<rparr>"
      using assms(2) b by (auto simp: at_pc_def dedupe_push_def)
    then show ?thesis
      using push_results_same [of "pl_files p" b w b' fs] by (intro mark_inv_cong) (simp_all add: all_batches_def b)
  qed
  then show ?thesis using assms(1) by blast
qed

lemma pstep_mark:
  assumes "pstep os report last_seq stride p r" "pipe_inv p" "mark_inv base p" "r = Some q"
  shows "\<exists>base'. mark_inv base' q"
  using assms(1)
proof cases
  case begin_batch
  have o: "pl_open p = None" using assms(2) begin_batch(2) by (auto simp: pipe_inv_def split: option.split_asm)
  have "pl_next p \<le> next_hi last_seq stride (pl_next p)" using begin_batch(3) by (simp add: next_hi_def)
  moreover have "windows base (pl_inflight p) (pl_next p)" using assms(3) o by (simp add: mark_inv_def all_batches_def)
  ultimately have "mark_inv base q"
    using assms(3,4) begin_batch(1) o
    by (auto simp: mark_inv_def all_batches_def dedupe_begin_batch_def windows_append)
  then show ?thesis by blast
next
  case (load_files b recs res failed)
  then show ?thesis using load_mark [OF assms(3) load_files(3), where w = True and recs = recs and res = res and failed = failed and pc = FilesLoaded] assms(4)
    by (simp add: at_pc_def)
next
  case push_files
  then show ?thesis using push_mark [OF assms(3)] assms(4) by auto
next
  case (load_extents b recs res failed)
  then show ?thesis using load_mark [OF assms(3) load_extents(3), where w = False and recs = recs and res = res and failed = failed and pc = ExtentsLoaded] assms(4)
    by (simp add: at_pc_def)
next
  case push_extents
  then show ?thesis using push_mark [OF assms(3)] assms(4) by auto
next
  case free_unreferenced
  then obtain fs where "q = p\<lparr>pl_files := fs\<rparr>"
    using assms(4) by (cases "filerec_free_unreferenced (\<lambda>_. True) (pl_files p)") auto
  then have "mark_inv base q" using assms(3) by (simp add: mark_inv_def all_batches_def)
  then show ?thesis by blast
next
  case seal
  then obtain b where b: "pl_open p = Some b" using pipe_inv_some_open [OF assms(2)] by auto
  define p1 where "p1 = p\<lparr>pl_open := None, pl_inflight := pl_inflight p @ [b\<lparr>bt_pushed := True\<rparr>], pl_count := pl_count p + 1\<rparr>"
  obtain q' where q': "reap_loop p1 (pl_inflight p1) = Some q'" "q = q'\<lparr>pl_pc := Idle\<rparr>"
    using trans [OF seal(1) [symmetric] assms(4)] b
    by (auto simp: at_pc_def dedupe_seal_batch_def p1_def reap_ready_locked_def)
  have "windows base (pl_inflight p1) (pl_next p1)"
    using assms(3) b by (simp add: mark_inv_def all_batches_def windows_append p1_def)
  moreover have "pl_open p1 = None" "pl_seq p1 \<le> base" "\<forall>f. pl_fail p1 = Some f \<longrightarrow> pl_seq p1 \<le> f"
    "\<forall>c. pl_cut p1 = Some c \<longrightarrow> pl_seq p1 \<le> c" "pl_frozen p1 \<longleftrightarrow> pl_cut p1 \<noteq> None"
    using assms(3) by (simp_all add: mark_inv_def p1_def)
  ultimately obtain base' where "mark_inv base' q'" using reap_loop_mark [OF q'(1)] by blast
  then have "mark_inv base' q" using q'(2) by (simp add: mark_inv_def all_batches_def)
  then show ?thesis by blast
next
  case reap
  then have o: "pl_open p = None" using assms(2) by (auto simp: pipe_inv_def split: option.split_asm)
  have r: "reap_loop p (pl_inflight p) = Some q" using reap(1) assms(4) by (simp add: reap_ready_locked_def)
  have "windows base (pl_inflight p) (pl_next p)" "pl_seq p \<le> base" "\<forall>f. pl_fail p = Some f \<longrightarrow> pl_seq p \<le> f"
    "\<forall>c. pl_cut p = Some c \<longrightarrow> pl_seq p \<le> c" "pl_frozen p \<longleftrightarrow> pl_cut p \<noteq> None"
    using assms(3) o by (simp_all add: mark_inv_def all_batches_def)
  from reap_loop_mark [OF r o this] show ?thesis by blast
next
  case (work_open b item stop k)
  then obtain b' fs where w: "run_item os report stop k item (pl_files p) b = Some (b', fs)"
      "q = p\<lparr>pl_open := Some b', pl_files := fs\<rparr>"
    using trans [OF work_open(1) [symmetric] assms(4)] by auto
  have "mark_inv base q = mark_inv base p"
    by (rule mark_inv_cong) (simp_all add: w(2) all_batches_def work_open(2) run_item_same [OF w(1)])
  then show ?thesis using assms(3) by blast
next
  case (work_inflight i item stop k)
  then obtain b' fs where w: "run_item os report stop k item (pl_files p) (pl_inflight p ! i) = Some (b', fs)"
      "q = p\<lparr>pl_inflight := (pl_inflight p)[i := b'], pl_files := fs\<rparr>"
    using trans [OF work_inflight(1) [symmetric] assms(4)] by auto
  have "mark_inv base q = mark_inv base p"
    by (rule mark_inv_cong)
       (simp_all add: w(2) all_batches_def map_update run_item_same [OF w(1)] work_inflight(2) list_update_same_conv)
  then show ?thesis using assms(3) by blast
qed



subsection \<open>The producer's waits end\<close>

definition pending :: "pipeline \<Rightarrow> nat" where
  "pending p = sum_list (map bt_outstanding (pl_inflight p))"

definition works :: "'k os \<Rightarrow> bool \<Rightarrow> pipeline \<Rightarrow> pipeline \<Rightarrow> bool" where
  "works os report p q \<longleftrightarrow> (\<exists>i item stop k. i < length (pl_inflight p) \<and> item \<in> set (bt_items (pl_inflight p ! i)) \<and>
     map_option (\<lambda>(b, fs). p\<lparr>pl_inflight := (pl_inflight p)[i := b], pl_files := fs\<rparr>)
       (run_item os report stop k item (pl_files p) (pl_inflight p ! i)) = Some q)"

lemma sum_list_update_less: "i < length xs \<Longrightarrow> y < xs ! i \<Longrightarrow> sum_list (xs[i := y]) < sum_list (xs :: nat list)"
  by (induction xs arbitrary: i) (auto split: nat.split)

lemma works_ok:
  assumes "works os report p q" "pipe_inv p" "dedupe_kernel (os_dedupe os)" "open_answers (os_open os)"
  shows "pipe_inv q \<and> pl_pc q = pl_pc p \<and> pending q < pending p"
proof -
  obtain i item stop k where w: "i < length (pl_inflight p)" "item \<in> set (bt_items (pl_inflight p ! i))"
      "map_option (\<lambda>(b, fs). p\<lparr>pl_inflight := (pl_inflight p)[i := b], pl_files := fs\<rparr>)
       (run_item os report stop k item (pl_files p) (pl_inflight p ! i)) = Some q"
    using assms(1) unfolding works_def by blast
  have inv: "pipe_inv q"
    using work_inflight_fine [OF assms(2) w(1,2) assms(3,4), of report stop k] unfolding w(3) by (simp add: step_fine_def)
  have b: "pl_inflight p ! i \<in> set (all_batches p)" using w(1) by (simp add: all_batches_def)
  then have "batch_inv (pl_inflight p ! i)" "files_ok (pl_files p)"
    "member_files (batch_tree (fst item) (pl_inflight p ! i)) \<subseteq> dom (heap (pl_files p))"
    using assms(2) by (simp_all add: pipe_inv_def shared_inv_def)
  then obtain b' where b': "run_item os report stop k item (pl_files p) (pl_inflight p ! i) = Some (b', pl_files p)"
      "Suc (bt_outstanding b') = bt_outstanding (pl_inflight p ! i)"
    using run_item_ok [OF _ w(2) _ _ assms(3,4)] by blast
  then have q: "q = p\<lparr>pl_inflight := (pl_inflight p)[i := b']\<rparr>" using w(3) by auto
  have "pending q < pending p"
    using sum_list_update_less [of i "map bt_outstanding (pl_inflight p)" "bt_outstanding b'"] w(1) b'(2)
    by (simp add: pending_def q map_update)
  then show ?thesis using inv by (simp add: q)
qed

text \<open>While the producer sleeps with work left in flight, the workers do some of it.\<close>

definition workers_run :: "'k os \<Rightarrow> bool \<Rightarrow> (pipeline \<Rightarrow> pipeline) \<Rightarrow> bool" where
  "workers_run os report wait \<longleftrightarrow>
    (\<forall>q. pipe_inv q \<and> pl_pc q = Idle \<and> 0 < pending q \<longrightarrow> (works os report)\<^sup>+\<^sup>+ q (wait q))"

lemma workers_run_ok:
  assumes "workers_run os report wait" "dedupe_kernel (os_dedupe os)" "open_answers (os_open os)"
    and "pipe_inv q" "pl_pc q = Idle" "0 < pending q"
  shows "pipe_inv (wait q) \<and> pl_pc (wait q) = Idle \<and> pending (wait q) < pending q"
proof -
  have "(works os report)\<^sup>+\<^sup>+ q (wait q)" using assms(1,4-6) by (simp add: workers_run_def)
  then have "pipe_inv (wait q) \<and> pl_pc (wait q) = pl_pc q \<and> pending (wait q) < pending q"
    using assms(4)
  proof (induction rule: tranclp_induct)
    case (base y)
    then show ?case using works_ok [OF _ _ assms(2,3)] by blast
  next
    case (step y z)
    then show ?case using works_ok [OF step(2) _ assms(2,3)] by auto
  qed
  then show ?thesis using assms(5) by simp
qed

lemma reap_pending:
  assumes "pipe_inv p" "pl_pc p = Idle"
  shows "\<exists>p'. reap_ready_locked p = Some p' \<and> pipe_inv p' \<and> pl_pc p' = Idle \<and> pending p' \<le> pending p \<and>
    (pl_count p' \<noteq> 0 \<longrightarrow> 0 < pending p')"
proof -
  obtain p' xs where r: "reap_ready_locked p = Some p'" "pipe_inv p'" "pl_pc p' = Idle"
      "\<forall>b rest. pl_inflight p' = b # rest \<longrightarrow> bt_outstanding b \<noteq> 0" "pl_inflight p = xs @ pl_inflight p'"
    using reap_ok [OF assms] by blast
  have "pl_count p' = length (pl_inflight p')" using r(2) by (simp add: pipe_inv_def)
  then have "pl_count p' \<noteq> 0 \<longrightarrow> 0 < pending p'" using r(4) by (cases "pl_inflight p'") (simp_all add: pending_def)
  moreover have "pending p' \<le> pending p" by (simp add: pending_def r(5))
  ultimately show ?thesis using r(1-3) by blast
qed

lemma drain_ok:
  assumes "workers_run os report wait" "dedupe_kernel (os_dedupe os)" "open_answers (os_open os)"
  shows "pipe_inv p \<Longrightarrow> pl_pc p = Idle \<Longrightarrow> pending p < fuel \<Longrightarrow>
    \<exists>q. dedupe_drain fuel wait p = Some (Some q) \<and> pl_inflight q = []"
proof (induction fuel arbitrary: p)
  case (Suc fuel)
  obtain p' where r: "reap_ready_locked p = Some p'" "pipe_inv p'" "pl_pc p' = Idle" "pending p' \<le> pending p"
      "pl_count p' \<noteq> 0 \<longrightarrow> 0 < pending p'"
    using reap_pending [OF Suc(2,3)] by blast
  show ?case
  proof (cases "pl_count p = 0 \<or> pl_count p' = 0")
    case True
    then show ?thesis using r(1,2) Suc(2) by (auto simp: pipe_inv_def)
  next
    case False
    then have "0 < pending p'" using r(5) by simp
    from workers_run_ok [OF assms r(2,3) this] have
      w: "pipe_inv (wait p')" "pl_pc (wait p') = Idle" "pending (wait p') < pending p'" by simp_all
    then have "pending (wait p') < fuel" using r(4) Suc(4) by linarith
    then show ?thesis using Suc(1) [OF w(1,2)] r(1) False by simp
  qed
qed simp

lemma await_ok:
  assumes "workers_run os report wait" "dedupe_kernel (os_dedupe os)" "open_answers (os_open os)"
  shows "pipe_inv p \<Longrightarrow> pl_pc p = Idle \<Longrightarrow> pl_count p \<noteq> 0 \<longrightarrow> 0 < pending p \<Longrightarrow> pending p < fuel \<Longrightarrow>
    \<exists>q. await_loop fuel wait p = Some (Some q) \<and> pl_count q < DEDUPE_MAX_INFLIGHT"
proof (induction fuel arbitrary: p)
  case (Suc fuel)
  show ?case
  proof (cases "pl_count p < DEDUPE_MAX_INFLIGHT")
    case False
    then have "0 < pending p" using Suc(4) by simp
    from workers_run_ok [OF assms Suc(2,3) this] have
      w: "pipe_inv (wait p)" "pl_pc (wait p) = Idle" "pending (wait p) < pending p" by simp_all
    obtain p' where r: "reap_ready_locked (wait p) = Some p'" "pipe_inv p'" "pl_pc p' = Idle"
        "pending p' \<le> pending (wait p)" "pl_count p' \<noteq> 0 \<longrightarrow> 0 < pending p'"
      using reap_pending [OF w(1,2)] by blast
    have "pending p' < fuel" using r(4) w(3) Suc(5) by linarith
    then show ?thesis using Suc(1) [OF r(2,3,5)] r(1) False by simp
  qed simp
qed simp


text \<open>A worker that takes the first item of the first batch that has one.\<close>

definition work_once :: "'k os \<Rightarrow> bool \<Rightarrow> 'k \<Rightarrow> pipeline \<Rightarrow> pipeline" where
  "work_once os report k q =
    (case find (\<lambda>i. bt_items (pl_inflight q ! i) \<noteq> []) [0..<length (pl_inflight q)] of
       None \<Rightarrow> q
     | Some i \<Rightarrow>
         (case run_item os report False k (hd (bt_items (pl_inflight q ! i))) (pl_files q) (pl_inflight q ! i) of
            None \<Rightarrow> q
          | Some (b, fs) \<Rightarrow> q\<lparr>pl_inflight := (pl_inflight q)[i := b], pl_files := fs\<rparr>))"

lemma work_once_runs:
  assumes "dedupe_kernel (os_dedupe os)" "open_answers (os_open os)"
  shows "workers_run os report (work_once os report k)"
proof -
  have "works os report q (work_once os report k q)" if q: "pipe_inv q" "0 < pending q" for q
  proof -
    have "\<exists>i<length (pl_inflight q). bt_items (pl_inflight q ! i) \<noteq> []"
    proof (rule ccontr)
      assume "\<not> ?thesis"
      then have "\<forall>b\<in>set (pl_inflight q). bt_items b = []" by (metis in_set_conv_nth)
      moreover have "\<forall>b\<in>set (pl_inflight q). bt_outstanding b = length (bt_items b)"
        using q(1) by (auto simp: pipe_inv_def shared_inv_def all_batches_def batch_inv_def)
      ultimately have "map bt_outstanding (pl_inflight q) = map (\<lambda>_. 0) (pl_inflight q)" by simp
      then show False using q(2) by (simp only: pending_def) simp
    qed
    then obtain i where i: "find (\<lambda>i. bt_items (pl_inflight q ! i) \<noteq> []) [0..<length (pl_inflight q)] = Some i"
        "i < length (pl_inflight q)" "bt_items (pl_inflight q ! i) \<noteq> []"
      by (cases "find (\<lambda>i. bt_items (pl_inflight q ! i) \<noteq> []) [0..<length (pl_inflight q)]")
         (auto simp: find_None_iff find_Some_iff)
    define b where "b = pl_inflight q ! i"
    have item: "hd (bt_items b) \<in> set (bt_items b)" using i(3) by (simp add: b_def)
    have "b \<in> set (all_batches q)" using i(2) by (simp add: all_batches_def b_def)
    then have "batch_inv b" "files_ok (pl_files q)" "member_files (batch_tree (fst (hd (bt_items b))) b) \<subseteq> dom (heap (pl_files q))"
      using q(1) by (simp_all add: pipe_inv_def shared_inv_def)
    then obtain b' where r: "run_item os report False k (hd (bt_items b)) (pl_files q) b = Some (b', pl_files q)"
      using run_item_ok [OF _ item _ _ assms] by blast
    then have w: "work_once os report k q = q\<lparr>pl_inflight := (pl_inflight q)[i := b'], pl_files := pl_files q\<rparr>"
      using i(1) by (simp add: work_once_def b_def)
    show ?thesis
      unfolding works_def
      by (intro exI [of _ i] exI [of _ "hd (bt_items b)"] exI [of _ False] exI [of _ k])
         (use i(2) item r w in \<open>simp add: b_def\<close>)
  qed
  then show ?thesis by (auto simp: workers_run_def)
qed


end
