(* ===== verification/OpenTable.thy ===== *)
theory OpenTable
  imports Base
begin

text \<open>
  The open-addressed table that file_scan.c writes out twice, for the inodes seen during a scan and
  for the layout donors: slots stored inline, one occupancy bit per slot in an array of 64-bit words,
  a power of two of slots, linear probing, doubling at seven tenths full. The functions here are
  the loops both tables share; \<open>ScanTables\<close> makes the two tables of them.

  A probe of a full table would go round for ever, so \<open>probe\<close> answers an option: it is given as many
  steps as there are slots, after which a C loop is back where it started and nothing has changed.
  The locale \<open>open_table\<close> states what the code relies on, that the comparison in a slot is equality
  of keys, and proves the table to be a finite map from it.
\<close>

subsection \<open>The occupancy bitmap\<close>

definition slot_used :: "u64 list \<Rightarrow> nat \<Rightarrow> bool" where
  "slot_used used i \<longleftrightarrow> drop_bit (i AND 63) (used ! drop_bit 6 i) AND 1 \<noteq> 0"

definition set_slot :: "u64 list \<Rightarrow> nat \<Rightarrow> u64 list" where
  "set_slot used i = used[drop_bit 6 i := used ! drop_bit 6 i OR push_bit (i AND 63) 1]"

lemma and_63 [simp]: "i AND 63 = i mod (64 :: nat)"
  using take_bit_eq_mask [of 6 i] by (simp add: take_bit_eq_mod mask_eq_exp_minus_1)

lemma and_pow2 [simp]: "i AND (2 ^ k - Suc 0) = i mod (2 ^ k :: nat)"
  using take_bit_eq_mask [of k i] by (simp add: take_bit_eq_mod mask_eq_exp_minus_1)

lemma slot_used_bit: "slot_used used i \<longleftrightarrow> bit (used ! (i div 64)) (i mod 64)"
  by (auto simp: slot_used_def bit_iff_and_drop_bit_eq_1 and_one_eq drop_bit_eq_div odd_iff_mod_2_eq_one)

lemma slot_used_set_slot:
  assumes "i div 64 < length used"
  shows "slot_used (set_slot used i) j \<longleftrightarrow> j = i \<or> slot_used used j"
proof (cases "j div 64 = i div 64")
  case True
  then have "j mod 64 = i mod 64 \<longleftrightarrow> j = i" by (metis div_mult_mod_eq)
  with True assms show ?thesis
    by (auto simp: slot_used_bit set_slot_def drop_bit_eq_div bit_or_iff bit_push_bit_iff bit_1_iff bit_exp_iff)
next
  case False
  then show ?thesis by (auto simp: slot_used_bit set_slot_def drop_bit_eq_div)
qed

lemma slot_used_empty [simp]: "i div 64 < n \<Longrightarrow> \<not> slot_used (replicate n 0) i"
  by (simp add: slot_used_bit)

lemma length_set_slot [simp]: "length (set_slot used i) = length used"
  by (simp add: set_slot_def)

subsection \<open>The table and its probe loop\<close>

record 'e table =
  tb_slots :: "'e list"
  tb_used :: "u64 list"
  tb_cap :: nat
  tb_count :: nat

fun probe :: "('e \<Rightarrow> bool) \<Rightarrow> 'e table \<Rightarrow> nat \<Rightarrow> nat \<Rightarrow> (nat \<times> bool) option" where
  "probe same t i 0 = None"
| "probe same t i (Suc n) =
    (if \<not> slot_used (tb_used t) i then Some (i, False)
     else if same (tb_slots t ! i) then Some (i, True)
     else probe same t ((i + 1) AND (tb_cap t - 1)) n)"

definition fresh_table :: "'e \<Rightarrow> nat \<Rightarrow> 'e table" where
  "fresh_table e0 cap = \<lparr>tb_slots = replicate cap e0, tb_used = replicate ((cap + 63) div 64) 0,
     tb_cap = cap, tb_count = 0\<rparr>"

definition fill_slot :: "nat \<Rightarrow> 'e \<Rightarrow> 'e table \<Rightarrow> 'e table" where
  "fill_slot i e t = t\<lparr>tb_slots := (tb_slots t)[i := e], tb_used := set_slot (tb_used t) i,
     tb_count := tb_count t + 1\<rparr>"

text \<open>
  The three operations, from the comparison and the hash of the key looked for. \<open>None\<close> is a probe
  that does not end.
\<close>

definition table_find :: "('e \<Rightarrow> bool) \<Rightarrow> nat \<Rightarrow> 'e table \<Rightarrow> 'e option option" where
  "table_find same h t =
    (case probe same t (h AND (tb_cap t - 1)) (tb_cap t) of
       None \<Rightarrow> None
     | Some (i, found) \<Rightarrow> Some (if found then Some (tb_slots t ! i) else None))"

definition table_insert :: "('e \<Rightarrow> bool) \<Rightarrow> nat \<Rightarrow> 'e \<Rightarrow> 'e table \<Rightarrow> 'e table option" where
  "table_insert same h e t =
    (case probe same t (h AND (tb_cap t - 1)) (tb_cap t) of
       None \<Rightarrow> None
     | Some (i, found) \<Rightarrow> Some (if found then t else fill_slot i e t))"

fun rehash :: "('e \<Rightarrow> 'e table \<Rightarrow> 'e table option) \<Rightarrow> 'e table \<Rightarrow> nat list \<Rightarrow> 'e table \<Rightarrow> 'e table option"
where
  "rehash ins old [] t = Some t"
| "rehash ins old (i # is) t =
    (if slot_used (tb_used old) i
     then (case ins (tb_slots old ! i) t of None \<Rightarrow> None | Some t' \<Rightarrow> rehash ins old is t')
     else rehash ins old is t)"

text \<open>\<open>alloc\<close> is whether both \<open>calloc\<close> calls succeed; the answer is the C return value.\<close>

definition table_grow :: "('e \<Rightarrow> 'e table \<Rightarrow> 'e table option) \<Rightarrow> 'e \<Rightarrow> bool \<Rightarrow> 'e table \<Rightarrow> (bool \<times> 'e table) option"
where
  "table_grow ins e0 alloc t =
    (if \<not> alloc then Some (False, t)
     else (case rehash ins t [0 ..< tb_cap t] (fresh_table e0 (tb_cap t * 2)) of
             None \<Rightarrow> None
           | Some t' \<Rightarrow> Some (True, t')))"

subsection \<open>What a table holds\<close>

definition used_slots :: "'e table \<Rightarrow> nat set" where
  "used_slots t = {i. i < tb_cap t \<and> slot_used (tb_used t) i}"

definition entries :: "'e table \<Rightarrow> 'e set" where
  "entries t = (\<lambda>i. tb_slots t ! i) ` used_slots t"

text \<open>
  The shape of a table: a power of two of slots, at least one word of occupancy bits, the count that
  of the bits, and a free slot for every probe to end on.
\<close>

definition table_shape :: "'e table \<Rightarrow> bool" where
  "table_shape t \<longleftrightarrow> (\<exists>k \<ge> 6. tb_cap t = 2 ^ k) \<and> length (tb_slots t) = tb_cap t
     \<and> length (tb_used t) = tb_cap t div 64 \<and> tb_count t = card (used_slots t) \<and> tb_count t < tb_cap t"

lemma used_slots_finite [simp]: "finite (used_slots t)"
  by (simp add: used_slots_def)

lemma table_shape_word: "table_shape t \<Longrightarrow> i < tb_cap t \<Longrightarrow> i div 64 < length (tb_used t)"
proof -
  assume t: "table_shape t" and i: "i < tb_cap t"
  from t obtain k where "6 \<le> k" "tb_cap t = 2 ^ k" by (auto simp: table_shape_def)
  then have "tb_cap t = 64 * 2 ^ (k - 6)"
    using power_add [of "2 :: nat" 6 "k - 6"] by simp
  with t i show ?thesis by (simp add: table_shape_def)
qed

lemma table_shape_mask: "table_shape t \<Longrightarrow> i AND (tb_cap t - 1) = i mod tb_cap t"
  by (auto simp: table_shape_def)

lemma table_shape_pos: "table_shape t \<Longrightarrow> 0 < tb_cap t"
  by (auto simp: table_shape_def)

lemma used_slots_fill:
  "table_shape t \<Longrightarrow> i < tb_cap t \<Longrightarrow> used_slots (fill_slot i e t) = insert i (used_slots t)"
  by (auto simp: used_slots_def fill_slot_def slot_used_set_slot table_shape_word)

lemma table_shape_fill:
  "table_shape t \<Longrightarrow> i < tb_cap t \<Longrightarrow> i \<notin> used_slots t \<Longrightarrow> tb_count t + 1 < tb_cap t
    \<Longrightarrow> table_shape (fill_slot i e t)"
  using used_slots_fill [of t i e] by (auto simp: table_shape_def fill_slot_def)

lemma fill_slot_simps [simp]:
  "tb_cap (fill_slot i e t) = tb_cap t" "tb_count (fill_slot i e t) = tb_count t + 1"
  "tb_slots (fill_slot i e t) = (tb_slots t)[i := e]"
  by (simp_all add: fill_slot_def)

lemma fresh_table_shape:
  assumes "6 \<le> k"
  shows "table_shape (fresh_table e0 (2 ^ k))" "used_slots (fresh_table e0 (2 ^ k)) = {}"
proof -
  have eq: "(2 :: nat) ^ k = 64 * 2 ^ (k - 6)"
    using assms power_add [of "2 :: nat" 6 "k - 6"] by simp
  have words: "((2 :: nat) ^ k + 63) div 64 = 2 ^ (k - 6)" unfolding eq by simp
  have none: "used_slots (fresh_table e0 (2 ^ k)) = {}"
    by (auto simp: used_slots_def fresh_table_def words) (subst (asm) slot_used_empty, simp_all add: eq)
  then show "used_slots (fresh_table e0 (2 ^ k)) = {}" .
  show "table_shape (fresh_table e0 (2 ^ k))"
    using assms none by (auto simp: table_shape_def fresh_table_def words eq)
qed

subsection \<open>Probing\<close>

lemma probe_walk:
  assumes t: "table_shape t"
    and busy: "\<And>j. j < d \<Longrightarrow> slot_used (tb_used t) ((h + j) mod tb_cap t)
      \<and> \<not> same (tb_slots t ! ((h + j) mod tb_cap t))"
    and stop: "\<not> slot_used (tb_used t) ((h + d) mod tb_cap t) \<or> same (tb_slots t ! ((h + d) mod tb_cap t))"
    and n: "d < n"
  shows "probe same t (h mod tb_cap t) n
    = Some ((h + d) mod tb_cap t, slot_used (tb_used t) ((h + d) mod tb_cap t))"
  using busy stop n
proof (induction d arbitrary: h n)
  case 0
  then obtain m where "n = Suc m" by (cases n) auto
  with 0 show ?case by auto
next
  case (Suc d)
  from Suc.prems(3) obtain m where n: "n = Suc m" and m: "d < m" by (cases n) auto
  have "probe same t ((h + 1) mod tb_cap t) m
    = Some ((h + 1 + d) mod tb_cap t, slot_used (tb_used t) ((h + 1 + d) mod tb_cap t))"
  proof (rule Suc.IH [OF _ _ m])
    show "slot_used (tb_used t) ((h + 1 + j) mod tb_cap t) \<and> \<not> same (tb_slots t ! ((h + 1 + j) mod tb_cap t))"
      if "j < d" for j
      using Suc.prems(1) [of "Suc j"] that by simp
    show "\<not> slot_used (tb_used t) ((h + 1 + d) mod tb_cap t) \<or> same (tb_slots t ! ((h + 1 + d) mod tb_cap t))"
      using Suc.prems(2) by simp
  qed
  moreover have "slot_used (tb_used t) (h mod tb_cap t) \<and> \<not> same (tb_slots t ! (h mod tb_cap t))"
    using Suc.prems(1) [of 0] by simp
  moreover have "(h mod tb_cap t + 1) AND (tb_cap t - 1) = (h + 1) mod tb_cap t"
    using t by (simp only: table_shape_mask) (simp add: mod_simps)
  ultimately show ?case by (simp add: n)
qed

lemma free_slot_ahead:
  assumes t: "table_shape t"
  obtains d where "d < tb_cap t" "\<not> slot_used (tb_used t) ((h + d) mod tb_cap t)"
proof -
  have "card (used_slots t) < card {..< tb_cap t}" using t by (simp add: table_shape_def)
  moreover have "used_slots t \<subseteq> {..< tb_cap t}" by (auto simp: used_slots_def)
  ultimately obtain f where f: "f < tb_cap t" "\<not> slot_used (tb_used t) f"
    by (metis (mono_tags, lifting) lessThan_iff mem_Collect_eq subset_antisym subsetI used_slots_def less_irrefl)
  let ?d = "(f + (tb_cap t - h mod tb_cap t)) mod tb_cap t"
  have "(h + ?d) mod tb_cap t = (h mod tb_cap t + (f + (tb_cap t - h mod tb_cap t))) mod tb_cap t"
    by (simp add: mod_simps)
  also have "h mod tb_cap t + (f + (tb_cap t - h mod tb_cap t)) = f + tb_cap t"
    using mod_less_divisor [OF table_shape_pos [OF t], of h] by linarith
  finally have "(h + ?d) mod tb_cap t = f" using f by simp
  with f show thesis by (intro that [of ?d]) (simp_all add: table_shape_pos [OF t])
qed

text \<open>Where a probe from \<open>h\<close> ends: the first slot that is free or matches.\<close>

lemma probe_ends:
  assumes t: "table_shape t"
  shows "\<exists>d < tb_cap t.
    (\<forall>j < d. slot_used (tb_used t) ((h + j) mod tb_cap t) \<and> \<not> same (tb_slots t ! ((h + j) mod tb_cap t)))
    \<and> (\<not> slot_used (tb_used t) ((h + d) mod tb_cap t) \<or> same (tb_slots t ! ((h + d) mod tb_cap t)))
    \<and> probe same t (h AND (tb_cap t - 1)) (tb_cap t)
      = Some ((h + d) mod tb_cap t, slot_used (tb_used t) ((h + d) mod tb_cap t))"
proof -
  let ?stop = "\<lambda>d. \<not> slot_used (tb_used t) ((h + d) mod tb_cap t) \<or> same (tb_slots t ! ((h + d) mod tb_cap t))"
  obtain d0 where d0: "d0 < tb_cap t" "\<not> slot_used (tb_used t) ((h + d0) mod tb_cap t)"
    using free_slot_ahead [OF t] .
  define d where "d = (LEAST d. ?stop d)"
  have stop: "?stop d" unfolding d_def by (rule LeastI [of ?stop d0]) (use d0 in simp)
  have le: "d \<le> d0" unfolding d_def by (rule Least_le) (use d0 in simp)
  have busy: "slot_used (tb_used t) ((h + j) mod tb_cap t) \<and> \<not> same (tb_slots t ! ((h + j) mod tb_cap t))"
    if "j < d" for j
    using not_less_Least [of j ?stop] that by (auto simp: d_def)
  have lt: "d < tb_cap t" using le d0 by simp
  show ?thesis
    using lt busy stop probe_walk [OF t busy stop lt]
    by (intro exI [of _ d]) (simp add: table_shape_mask [OF t, simplified])
qed

subsection \<open>The table as a map\<close>

text \<open>
  \<open>key\<close> is what a slot is found by, \<open>hash\<close> where its probe starts, \<open>same\<close> the comparison the code
  writes out.
\<close>

locale open_table =
  fixes key :: "'e \<Rightarrow> 'k"
    and hash :: "'k \<Rightarrow> nat"
    and same :: "'k \<Rightarrow> 'e \<Rightarrow> bool"
  assumes same_key: "same k e \<longleftrightarrow> key e = k"
begin

definition path :: "'e table \<Rightarrow> nat \<Rightarrow> bool" where
  "path t i \<longleftrightarrow> (\<exists>d < tb_cap t. i = (hash (key (tb_slots t ! i)) + d) mod tb_cap t
     \<and> (\<forall>j < d. (hash (key (tb_slots t ! i)) + j) mod tb_cap t \<in> used_slots t))"

definition ok :: "'e table \<Rightarrow> bool" where
  "ok t \<longleftrightarrow> table_shape t \<and> (\<forall>i \<in> used_slots t. path t i) \<and> inj_on (\<lambda>i. key (tb_slots t ! i)) (used_slots t)"

lemma ok_shape: "ok t \<Longrightarrow> table_shape t"
  by (simp add: ok_def)

lemma in_used: "table_shape t \<Longrightarrow> h mod tb_cap t \<in> used_slots t \<longleftrightarrow> slot_used (tb_used t) (h mod tb_cap t)"
  by (simp add: used_slots_def table_shape_pos)

lemma probe_finds:
  assumes t: "ok t" and e: "e \<in> entries t" "key e = k"
  obtains i where "probe (same k) t (hash k AND (tb_cap t - 1)) (tb_cap t) = Some (i, True)"
    "i \<in> used_slots t" "tb_slots t ! i = e"
proof -
  note sh = ok_shape [OF t]
  from e obtain i where i: "i \<in> used_slots t" "tb_slots t ! i = e" by (auto simp: entries_def)
  with t obtain d where d: "d < tb_cap t" "i = (hash k + d) mod tb_cap t"
      "\<And>j. j < d \<Longrightarrow> (hash k + j) mod tb_cap t \<in> used_slots t"
    using e by (auto simp: ok_def path_def)
  obtain d' where p: "d' < tb_cap t"
      "\<And>j. j < d' \<Longrightarrow> slot_used (tb_used t) ((hash k + j) mod tb_cap t) \<and> \<not> same k (tb_slots t ! ((hash k + j) mod tb_cap t))"
      "\<not> slot_used (tb_used t) ((hash k + d') mod tb_cap t) \<or> same k (tb_slots t ! ((hash k + d') mod tb_cap t))"
      "probe (same k) t (hash k AND (tb_cap t - 1)) (tb_cap t)
        = Some ((hash k + d') mod tb_cap t, slot_used (tb_used t) ((hash k + d') mod tb_cap t))"
    using probe_ends [OF sh, of "hash k" "same k"] by blast
  have "d' \<le> d"
    using p(2) [of d] i e d(2) by (metis not_less same_key)
  then have used: "(hash k + d') mod tb_cap t \<in> used_slots t"
    using d i by (cases "d' = d") auto
  then have "same k (tb_slots t ! ((hash k + d') mod tb_cap t))"
    using p(3) in_used [OF sh] by blast
  then have "(hash k + d') mod tb_cap t = i"
    using t used i e by (auto simp: ok_def same_key dest: inj_onD)
  with p(4) used i show thesis by (intro that [of i]) (auto simp: used_slots_def)
qed

lemma probe_misses:
  assumes t: "ok t" and e: "k \<notin> key ` entries t"
  obtains i d where "probe (same k) t (hash k AND (tb_cap t - 1)) (tb_cap t) = Some (i, False)"
    "i < tb_cap t" "i \<notin> used_slots t" "d < tb_cap t" "i = (hash k + d) mod tb_cap t"
    "\<And>j. j < d \<Longrightarrow> (hash k + j) mod tb_cap t \<in> used_slots t"
proof -
  note sh = ok_shape [OF t]
  obtain d where p: "d < tb_cap t"
      "\<And>j. j < d \<Longrightarrow> slot_used (tb_used t) ((hash k + j) mod tb_cap t) \<and> \<not> same k (tb_slots t ! ((hash k + j) mod tb_cap t))"
      "\<not> slot_used (tb_used t) ((hash k + d) mod tb_cap t) \<or> same k (tb_slots t ! ((hash k + d) mod tb_cap t))"
      "probe (same k) t (hash k AND (tb_cap t - 1)) (tb_cap t)
        = Some ((hash k + d) mod tb_cap t, slot_used (tb_used t) ((hash k + d) mod tb_cap t))"
    using probe_ends [OF sh, of "hash k" "same k"] by blast
  let ?i = "(hash k + d) mod tb_cap t"
  have free: "?i \<notin> used_slots t"
    using p(3) e by (force simp: in_used [OF sh] same_key entries_def used_slots_def)
  show thesis
  proof (rule that [of ?i d])
    show "probe (same k) t (hash k AND (tb_cap t - 1)) (tb_cap t) = Some (?i, False)"
      using p(4) free by (simp add: in_used [OF sh])
    show "?i < tb_cap t" using table_shape_pos [OF sh] by simp
  qed (use p free in \<open>auto simp: in_used [OF sh]\<close>)
qed

lemma entries_unique: "ok t \<Longrightarrow> a \<in> entries t \<Longrightarrow> b \<in> entries t \<Longrightarrow> key a = key b \<Longrightarrow> a = b"
  by (auto simp: ok_def entries_def dest: inj_onD)

lemma find_hit: "ok t \<Longrightarrow> e \<in> entries t \<Longrightarrow> table_find (same (key e)) (hash (key e)) t = Some (Some e)"
  by (erule probe_finds [of t e "key e"]) (auto simp: table_find_def)

lemma find_miss: "ok t \<Longrightarrow> k \<notin> key ` entries t \<Longrightarrow> table_find (same k) (hash k) t = Some None"
  by (erule probe_misses [of t k]) (auto simp: table_find_def)

lemma insert_hit:
  "ok t \<Longrightarrow> key e \<in> key ` entries t \<Longrightarrow> table_insert (same (key e)) (hash (key e)) e t = Some t"
  by (erule imageE, erule probe_finds [of t _ "key e"]) (auto simp: table_insert_def)

lemma path_mono:
  assumes "path t i" "used_slots t \<subseteq> used_slots u" "tb_cap u = tb_cap t" "tb_slots u ! i = tb_slots t ! i"
  shows "path u i"
  using assms by (auto simp: path_def)

lemma insert_miss:
  assumes t: "ok t" and e: "key e \<notin> key ` entries t" and room: "tb_count t + 1 < tb_cap t"
  obtains u where "table_insert (same (key e)) (hash (key e)) e t = Some u" "ok u"
    "entries u = insert e (entries t)" "tb_count u = tb_count t + 1" "tb_cap u = tb_cap t"
proof -
  note sh = ok_shape [OF t]
  obtain i d where p: "probe (same (key e)) t (hash (key e) AND (tb_cap t - 1)) (tb_cap t) = Some (i, False)"
      "i < tb_cap t" "i \<notin> used_slots t" "d < tb_cap t" "i = (hash (key e) + d) mod tb_cap t"
      "\<And>j. j < d \<Longrightarrow> (hash (key e) + j) mod tb_cap t \<in> used_slots t"
    by (rule probe_misses [OF t e]) blast
  let ?u = "fill_slot i e t"
  have len: "i < length (tb_slots t)" using sh p by (simp add: table_shape_def)
  have used: "used_slots ?u = insert i (used_slots t)" by (rule used_slots_fill [OF sh p(2)])
  have here: "tb_slots ?u ! i = e" using len by simp
  have there: "tb_slots ?u ! j = tb_slots t ! j" if "j \<in> used_slots t" for j
    using that p(3) by (cases "j = i") auto
  have ahead: "(hash (key e) + j) mod tb_cap ?u \<in> used_slots ?u" if "j < d" for j
    using p(6) [OF that] by (simp only: used fill_slot_simps) blast
  have "path ?u i"
    unfolding path_def here using p(4,5) ahead by (intro exI [of _ d]) (auto simp only: fill_slot_simps)
  moreover have "path ?u j" if "j \<in> used_slots t" for j
    using t that there [OF that] by (intro path_mono [of t j ?u]) (auto simp: ok_def used)
  moreover have "inj_on (\<lambda>j. key (tb_slots ?u ! j)) (used_slots ?u)"
  proof -
    have "inj_on (\<lambda>j. key (tb_slots ?u ! j)) (used_slots t)"
      using t there unfolding ok_def inj_on_def by metis
    moreover have "key (tb_slots ?u ! i) \<notin> (\<lambda>j. key (tb_slots ?u ! j)) ` used_slots t"
      using e there by (force simp only: here entries_def)
    ultimately show ?thesis using p(3) by (simp only: used inj_on_insert Diff_empty Diff_insert0) simp
  qed
  ultimately have "ok ?u"
    using table_shape_fill [OF sh p(2,3) room] by (auto simp: ok_def used)
  moreover have "entries ?u = insert e (entries t)"
    using there here unfolding entries_def used by (simp only: image_insert) (simp cong: image_cong)
  ultimately show thesis
    using p(1) by (intro that [of ?u]) (simp_all add: table_insert_def)
qed

text \<open>Inserting, seen or not: the first entry of a key stays.\<close>

lemma insert_spec:
  assumes "ok t" and "tb_count t + 1 < tb_cap t"
  shows "\<exists>u. table_insert (same (key e)) (hash (key e)) e t = Some u \<and> ok u \<and> tb_cap u = tb_cap t
    \<and> tb_count u \<le> tb_count t + 1
    \<and> entries u = (if key e \<in> key ` entries t then entries t else insert e (entries t))"
proof (cases "key e \<in> key ` entries t")
  case True
  then show ?thesis using insert_hit [OF assms(1) True] assms(1) by simp
next
  case False
  obtain u where "table_insert (same (key e)) (hash (key e)) e t = Some u" "ok u"
    "entries u = insert e (entries t)" "tb_count u = tb_count t + 1" "tb_cap u = tb_cap t"
    by (rule insert_miss [OF assms(1) False assms(2)])
  with False show ?thesis by simp
qed

lemma fresh_ok: "6 \<le> k \<Longrightarrow> ok (fresh_table e0 (2 ^ k))"
  by (simp add: ok_def fresh_table_shape)

lemma rehash_spec:
  assumes old: "ok old" and "distinct is" and "set is \<subseteq> {..< tb_cap old}" and "ok t"
    and "tb_count t + length is < tb_cap t"
    and "key ` entries t \<inter> (\<lambda>i. key (tb_slots old ! i)) ` (set is \<inter> used_slots old) = {}"
  shows "\<exists>u. rehash (\<lambda>e. table_insert (same (key e)) (hash (key e)) e) old is t = Some u \<and> ok u
    \<and> tb_cap u = tb_cap t \<and> entries u = entries t \<union> (\<lambda>i. tb_slots old ! i) ` (set is \<inter> used_slots old)"
  using assms(2-)
proof (induction "is" arbitrary: t)
  case Nil
  then show ?case by simp
next
  case (Cons i "is")
  show ?case
  proof (cases "slot_used (tb_used old) i")
    case False
    then have "set (i # is) \<inter> used_slots old = set is \<inter> used_slots old" by (auto simp: used_slots_def)
    with False Cons show ?thesis by simp
  next
    case True
    then have i: "i \<in> used_slots old" using Cons.prems by (simp add: used_slots_def)
    have step: "set (i # is) \<inter> used_slots old = insert i (set is \<inter> used_slots old)" using i by auto
    let ?e = "tb_slots old ! i"
    have "key ?e \<notin> key ` entries t" using Cons.prems(5) i by auto
    then obtain t1 where t1: "table_insert (same (key ?e)) (hash (key ?e)) ?e t = Some t1" "ok t1"
        "entries t1 = insert ?e (entries t)" "tb_count t1 = tb_count t + 1" "tb_cap t1 = tb_cap t"
      using insert_miss [OF Cons.prems(3), of ?e] Cons.prems(4) by auto
    have inj: "inj_on (\<lambda>i. key (tb_slots old ! i)) (used_slots old)" using old by (simp add: ok_def)
    have apart: "key ` entries t1 \<inter> (\<lambda>i. key (tb_slots old ! i)) ` (set is \<inter> used_slots old) = {}"
      using Cons.prems(1,5) i inj unfolding t1(3) step by (auto dest: inj_onD)
    have "\<exists>u. rehash (\<lambda>e. table_insert (same (key e)) (hash (key e)) e) old is t1 = Some u \<and> ok u
      \<and> tb_cap u = tb_cap t1 \<and> entries u = entries t1 \<union> (\<lambda>i. tb_slots old ! i) ` (set is \<inter> used_slots old)"
      by (rule Cons.IH [OF _ _ t1(2) _ apart]) (use Cons.prems t1 in simp_all)
    with True t1 show ?thesis unfolding step by auto
  qed
qed

text \<open>Growing keeps the entries, with twice the slots.\<close>

lemma grow_spec:
  assumes t: "ok t"
  shows "\<exists>u. table_grow (\<lambda>e. table_insert (same (key e)) (hash (key e)) e) e0 True t = Some (True, u)
    \<and> ok u \<and> entries u = entries t \<and> tb_cap u = 2 * tb_cap t"
proof -
  obtain k where k: "6 \<le> k" "tb_cap t = 2 ^ k" using ok_shape [OF t] by (auto simp: table_shape_def)
  have new: "tb_cap t * 2 = 2 ^ (k + 1)" using k by simp
  let ?n = "fresh_table e0 (tb_cap t * 2)"
  have n: "ok ?n" "used_slots ?n = {}" "tb_count ?n = 0" "tb_cap ?n = tb_cap t * 2"
    unfolding new using k by (simp_all only: fresh_ok fresh_table_shape) (simp_all add: fresh_table_def)
  have "\<exists>u. rehash (\<lambda>e. table_insert (same (key e)) (hash (key e)) e) t [0 ..< tb_cap t] ?n = Some u \<and> ok u
    \<and> tb_cap u = tb_cap ?n
    \<and> entries u = entries ?n \<union> (\<lambda>i. tb_slots t ! i) ` (set [0 ..< tb_cap t] \<inter> used_slots t)"
    using t n k by (intro rehash_spec) (auto simp: entries_def)
  moreover have "set [0 ..< tb_cap t] \<inter> used_slots t = used_slots t" by (auto simp: used_slots_def)
  ultimately show ?thesis using n by (auto simp: table_grow_def entries_def)
qed

text \<open>A table that needs not grow has room for one more.\<close>

lemma not_loaded: "\<not> cap * 7 \<le> (c + 1) * 10 \<Longrightarrow> c + 1 < cap" for c cap :: nat
  by arith

lemma count_card: "ok t \<Longrightarrow> tb_count t = card (entries t)"
proof -
  assume t: "ok t"
  have "inj_on (\<lambda>i. tb_slots t ! i) (used_slots t)"
    using t unfolding ok_def inj_on_def by metis
  then show ?thesis using ok_shape [OF t] by (simp add: entries_def card_image table_shape_def)
qed

end

end
