(* ===== verification/ScanTables.thy ===== *)
theory ScanTables
  imports OpenTable
begin

text \<open>
  The tables the scan keeps in memory (file_scan.c): the inodes already written, the layout donors,
  and the bitset of file ids seen on disk. The first two are instances of \<open>OpenTable\<close>. \<open>calloc\<close> and
  \<open>realloc\<close> may fail; whether they do is an argument of each operation that allocates. Slot numbers
  and sizes are \<open>nat\<close>: a table of \<open>2 ^ 58\<close> slots would not fit in memory, far below where
  \<open>size_t\<close> wraps.
\<close>

subsection \<open>The inodes already written\<close>

record ino_key =
  ik_ino :: u64
  ik_subvol :: u64

definition ino_hash :: "u64 \<Rightarrow> u64 \<Rightarrow> u64" where
  "ino_hash ino subvol =
    (let x = (ino * 0x9E3779B97F4A7C15) XOR (subvol + 0x9E3779B97F4A7C15);
         x = (x XOR drop_bit 30 x) * 0xBF58476D1CE4E5B9;
         x = (x XOR drop_bit 27 x) * 0x94D049BB133111EB
     in x XOR drop_bit 31 x)"

definition seen_slot_used :: "ino_key table \<Rightarrow> nat \<Rightarrow> bool" where
  "seen_slot_used t i \<longleftrightarrow> slot_used (tb_used t) i"

definition same_inode :: "u64 \<Rightarrow> u64 \<Rightarrow> ino_key \<Rightarrow> bool" where
  "same_inode ino subvol s \<longleftrightarrow> ik_ino s = ino \<and> ik_subvol s = subvol"

definition seen_inode :: "u64 \<Rightarrow> u64 \<Rightarrow> ino_key table \<Rightarrow> bool option" where
  "seen_inode ino subvol t =
    (if tb_cap t = 0 then Some False
     else map_option (\<lambda>r. r \<noteq> None) (table_find (same_inode ino subvol) (unat (ino_hash ino subvol)) t))"

definition seen_insert :: "u64 \<Rightarrow> u64 \<Rightarrow> ino_key table \<Rightarrow> ino_key table option" where
  "seen_insert ino subvol t =
    table_insert (same_inode ino subvol) (unat (ino_hash ino subvol)) \<lparr>ik_ino = ino, ik_subvol = subvol\<rparr> t"

definition seen_grow :: "bool \<Rightarrow> ino_key table \<Rightarrow> (bool \<times> ino_key table) option" where
  "seen_grow alloc t = table_grow (\<lambda>s. seen_insert (ik_ino s) (ik_subvol s)) \<lparr>ik_ino = 0, ik_subvol = 0\<rparr> alloc t"

definition mark_inode_seen :: "bool \<Rightarrow> u64 \<Rightarrow> u64 \<Rightarrow> ino_key table \<Rightarrow> ino_key table option" where
  "mark_inode_seen alloc ino subvol t =
    (if tb_cap t = 0 then Some t
     else if tb_cap t * 7 \<le> (tb_count t + 1) * 10
     then (case seen_grow alloc t of
             None \<Rightarrow> None
           | Some (grown, t') \<Rightarrow>
               if \<not> grown \<and> tb_cap t' \<le> tb_count t' + 1 then Some t' else seen_insert ino subvol t')
     else seen_insert ino subvol t)"

definition seen_inodes_init :: "ino_key table" where
  "seen_inodes_init = fresh_table \<lparr>ik_ino = 0, ik_subvol = 0\<rparr> 1024"

definition seen_inodes_free :: "ino_key table \<Rightarrow> ino_key table" where
  "seen_inodes_free t = t\<lparr>tb_slots := [], tb_used := [], tb_cap := 0, tb_count := 0\<rparr>"

interpretation seen: open_table "\<lambda>s. (ik_ino s, ik_subvol s)" "\<lambda>(ino, subvol). unat (ino_hash ino subvol)"
  "\<lambda>(ino, subvol). same_inode ino subvol"
  by unfold_locales (auto simp: same_inode_def)

definition marked :: "ino_key table \<Rightarrow> (u64 \<times> u64) set" where
  "marked t = (\<lambda>s. (ik_ino s, ik_subvol s)) ` entries t"

lemma ino_key_eta: "\<lparr>ik_ino = ik_ino s, ik_subvol = ik_subvol s\<rparr> = s" for s :: ino_key
  by simp

lemma seen_inode_spec: "seen.ok t \<Longrightarrow> seen_inode ino subvol t = Some ((ino, subvol) \<in> marked t)"
  using seen.find_hit [of t] seen.find_miss [of t "(ino, subvol)"] table_shape_pos [OF seen.ok_shape, of t]
  by (cases "(ino, subvol) \<in> marked t") (auto simp: seen_inode_def marked_def)

lemma seen_insert_eq:
  "(\<lambda>s. seen_insert (ik_ino s) (ik_subvol s))
    = (\<lambda>s. table_insert ((\<lambda>(ino, subvol). same_inode ino subvol) (ik_ino s, ik_subvol s))
        ((\<lambda>(ino, subvol). unat (ino_hash ino subvol)) (ik_ino s, ik_subvol s)) s)"
  by (intro ext) (simp add: seen_insert_def ino_key_eta)

lemma seen_insert_spec:
  assumes "seen.ok t" "tb_count t + 1 < tb_cap t"
  shows "\<exists>u. seen_insert ino subvol t = Some u \<and> seen.ok u \<and> marked u = insert (ino, subvol) (marked t)"
  using seen.insert_spec [OF assms, of "\<lparr>ik_ino = ino, ik_subvol = subvol\<rparr>"]
  by (auto simp: seen_insert_def marked_def split: if_splits)

lemma seen_grow_spec:
  assumes "seen.ok t"
  shows "seen_grow False t = Some (False, t)"
    "\<exists>u. seen_grow True t = Some (True, u) \<and> seen.ok u \<and> entries u = entries t \<and> tb_cap u = 2 * tb_cap t"
  using seen.grow_spec [OF assms, of "\<lparr>ik_ino = 0, ik_subvol = 0\<rparr>"]
  by (simp_all add: seen_grow_def seen_insert_eq) (simp add: table_grow_def)

text \<open>Marking an inode: it is in the set afterwards, unless the table could not grow and is full.\<close>

lemma mark_inode_seen_spec:
  assumes t: "seen.ok t"
  shows "\<exists>u. mark_inode_seen alloc ino subvol t = Some u \<and> seen.ok u
    \<and> (marked u = insert (ino, subvol) (marked t) \<or> \<not> alloc \<and> marked u = marked t)"
proof -
  note sh = seen.ok_shape [OF t]
  have pos: "0 < tb_cap t" "tb_count t < tb_cap t" using sh by (auto simp: table_shape_def)
  show ?thesis
  proof (cases "tb_cap t * 7 \<le> (tb_count t + 1) * 10")
    case False
    then have "tb_count t + 1 < tb_cap t" by (rule seen.not_loaded)
    from seen_insert_spec [OF t this, of ino subvol] show ?thesis
      using False pos by (simp add: mark_inode_seen_def) blast
  next
    case True
    show ?thesis
    proof (cases alloc)
      case ok: True
      obtain u where u: "seen_grow True t = Some (True, u)" "seen.ok u" "entries u = entries t" "tb_cap u = 2 * tb_cap t"
        using seen_grow_spec(2) [OF t] by blast
      have "tb_count u = tb_count t"
        using u seen.count_card [OF t] seen.count_card [OF u(2)] by simp
      then have "tb_count u + 1 < tb_cap u" using u pos by linarith
      then obtain v where "seen_insert ino subvol u = Some v" "seen.ok v" "marked v = insert (ino, subvol) (marked u)"
        using seen_insert_spec [OF u(2), of ino subvol] by blast
      moreover have "marked u = marked t" using u(3) by (simp add: marked_def)
      ultimately show ?thesis
        using True pos u(1) ok by (intro exI [of _ v]) (simp add: mark_inode_seen_def)
    next
      case oom: False
      show ?thesis
      proof (cases "tb_cap t \<le> tb_count t + 1")
        case full: True
        then show ?thesis
          using True pos t oom seen_grow_spec(1) [OF t] by (intro exI [of _ t]) (simp add: mark_inode_seen_def)
      next
        case False
        then obtain v where "seen_insert ino subvol t = Some v" "seen.ok v" "marked v = insert (ino, subvol) (marked t)"
          using seen_insert_spec [OF t, of ino subvol] by auto
        then show ?thesis
          using True False pos oom seen_grow_spec(1) [OF t] by (intro exI [of _ v]) (simp add: mark_inode_seen_def)
      qed
    qed
  qed
qed

fun mark_all :: "(u64 \<times> u64 \<times> bool) list \<Rightarrow> ino_key table \<Rightarrow> ino_key table option" where
  "mark_all [] t = Some t"
| "mark_all ((ino, subvol, alloc) # ms) t =
    (case mark_inode_seen alloc ino subvol t of None \<Rightarrow> None | Some t' \<Rightarrow> mark_all ms t')"

lemma mark_all_spec:
  "seen.ok t \<Longrightarrow> \<exists>u. mark_all ms t = Some u \<and> seen.ok u
    \<and> marked u \<subseteq> marked t \<union> (\<lambda>(i, s, a). (i, s)) ` set ms
    \<and> marked t \<union> (\<lambda>(i, s, a). (i, s)) ` {m \<in> set ms. snd (snd m)} \<subseteq> marked u"
proof (induction ms t rule: mark_all.induct)
  case (1 t)
  then show ?case by simp
next
  case (2 ino subvol alloc ms t)
  obtain t1 where t1: "mark_inode_seen alloc ino subvol t = Some t1" "seen.ok t1"
    "marked t1 = insert (ino, subvol) (marked t) \<or> \<not> alloc \<and> marked t1 = marked t"
    using mark_inode_seen_spec [OF 2(2)] by blast
  obtain u where u: "mark_all ms t1 = Some u" "seen.ok u"
    "marked u \<subseteq> marked t1 \<union> (\<lambda>(i, s, a). (i, s)) ` set ms"
    "marked t1 \<union> (\<lambda>(i, s, a). (i, s)) ` {m \<in> set ms. snd (snd m)} \<subseteq> marked u"
    using 2(1) [OF t1(1,2)] by blast
  show ?case
    by (intro exI [of _ u] conjI) (use t1 u in \<open>auto split: if_splits\<close>)
qed

lemma seen_init: "seen.ok seen_inodes_init" "marked seen_inodes_init = {}"
  using seen.fresh_ok [of 10] fresh_table_shape(2) [of 10]
  by (simp_all add: seen_inodes_init_def marked_def entries_def)

text \<open>C18: The set of inodes already written never loses an inode whose marking could allocate, never
  reports one that was not marked (no distinct inode is taken for a hardlink), and every probe of it
  ends, however many inodes are marked and whichever allocations fail.\<close>

theorem seen_inodes_exact:
  "\<exists>t. mark_all ms seen_inodes_init = Some t
    \<and> (\<forall>ino subvol. seen_inode ino subvol t \<noteq> None)
    \<and> {(ino, subvol). seen_inode ino subvol t = Some True} \<subseteq> (\<lambda>(i, s, a). (i, s)) ` set ms
    \<and> (\<lambda>(i, s, a). (i, s)) ` {m \<in> set ms. snd (snd m)} \<subseteq> {(ino, subvol). seen_inode ino subvol t = Some True}"
  using mark_all_spec [OF seen_init(1), of ms] seen_inode_spec by (auto simp: seen_init(2))

subsection \<open>The layout donors\<close>

record layout_donor =
  ld_key :: digest
  ld_fileid :: int

definition donor_slot_used :: "layout_donor table \<Rightarrow> nat \<Rightarrow> bool" where
  "donor_slot_used t i \<longleftrightarrow> slot_used (tb_used t) i"

text \<open>The first eight bytes of the key as a little-endian word.\<close>

definition donor_hash :: "digest \<Rightarrow> u64" where
  "donor_hash key = foldr (\<lambda>b h. push_bit 8 h OR ucast b) (take 8 key) 0"

definition donor_insert :: "digest \<Rightarrow> int \<Rightarrow> layout_donor table \<Rightarrow> layout_donor table option" where
  "donor_insert key fileid t =
    table_insert (\<lambda>s. memcmp (ld_key s) key = 0) (unat (donor_hash key)) \<lparr>ld_key = key, ld_fileid = fileid\<rparr> t"

definition donor_grow :: "bool \<Rightarrow> layout_donor table \<Rightarrow> (bool \<times> layout_donor table) option" where
  "donor_grow alloc t =
    table_grow (\<lambda>s. donor_insert (ld_key s) (ld_fileid s)) \<lparr>ld_key = replicate DIGEST_LEN 0, ld_fileid = 0\<rparr> alloc t"

text \<open>\<open>wanted\<close> is that \<open>DUPEREMOVE_NO_LAYOUT_COPY\<close> is not set.\<close>

definition layout_donors_init :: "bool \<Rightarrow> bool \<Rightarrow> layout_donor table" where
  "layout_donors_init wanted alloc =
    (if wanted \<and> alloc then fresh_table \<lparr>ld_key = replicate DIGEST_LEN 0, ld_fileid = 0\<rparr> 1024
     else \<lparr>tb_slots = [], tb_used = [], tb_cap = 0, tb_count = 0\<rparr>)"

definition donors_on :: "layout_donor table \<Rightarrow> bool" where
  "donors_on t \<longleftrightarrow> tb_cap t \<noteq> 0"

definition layout_donors_free :: "layout_donor table \<Rightarrow> layout_donor table" where
  "layout_donors_free t = t\<lparr>tb_slots := [], tb_used := [], tb_cap := 0, tb_count := 0\<rparr>"

abbreviation "LAYOUT_COPY_MIN_SIZE \<equiv> (1024 * 1024 :: u64)"

definition layout_copy_wanted :: "layout_donor table \<Rightarrow> u64 \<Rightarrow> bool" where
  "layout_copy_wanted t filesize \<longleftrightarrow> donors_on t \<and> LAYOUT_COPY_MIN_SIZE \<le> filesize"

definition layout_donor_add :: "bool \<Rightarrow> digest \<Rightarrow> int \<Rightarrow> layout_donor table \<Rightarrow> layout_donor table option" where
  "layout_donor_add alloc key fileid t =
    (if tb_cap t * 7 \<le> (tb_count t + 1) * 10
     then (case donor_grow alloc t of
             None \<Rightarrow> None
           | Some (grown, t') \<Rightarrow> if grown then donor_insert key fileid t' else Some t')
     else donor_insert key fileid t)"

definition layout_donor_find :: "digest \<Rightarrow> layout_donor table \<Rightarrow> int option" where
  "layout_donor_find key t =
    (case table_find (\<lambda>s. memcmp (ld_key s) key = 0) (unat (donor_hash key)) t of
       None \<Rightarrow> None
     | Some None \<Rightarrow> Some 0
     | Some (Some s) \<Rightarrow> Some (ld_fileid s))"

interpretation donors: open_table ld_key "\<lambda>key. unat (donor_hash key)" "\<lambda>key s. memcmp (ld_key s) key = 0"
  by unfold_locales auto

lemma layout_donor_eta: "\<lparr>ld_key = ld_key s, ld_fileid = ld_fileid s\<rparr> = s" for s :: layout_donor
  by simp

lemma donor_insert_eq:
  "(\<lambda>s. donor_insert (ld_key s) (ld_fileid s))
    = (\<lambda>s. table_insert (\<lambda>r. memcmp (ld_key r) (ld_key s) = 0) (unat (donor_hash (ld_key s))) s)"
  by (intro ext) (simp only: donor_insert_def layout_donor_eta)

lemma donor_insert_spec:
  assumes "donors.ok t" "tb_count t + 1 < tb_cap t"
  shows "\<exists>u. donor_insert key fileid t = Some u \<and> donors.ok u
    \<and> entries u = (if key \<in> ld_key ` entries t then entries t
         else insert \<lparr>ld_key = key, ld_fileid = fileid\<rparr> (entries t))"
  using donors.insert_spec [OF assms, of "\<lparr>ld_key = key, ld_fileid = fileid\<rparr>"]
  unfolding donor_insert_def layout_donor.select_convs by blast

lemma donor_grow_spec:
  assumes "donors.ok t"
  shows "donor_grow False t = Some (False, t)"
    "\<exists>u. donor_grow True t = Some (True, u) \<and> donors.ok u \<and> entries u = entries t \<and> tb_cap u = 2 * tb_cap t"
  using donors.grow_spec [OF assms, of "\<lparr>ld_key = replicate DIGEST_LEN 0, ld_fileid = 0\<rparr>"]
  unfolding donor_grow_def donor_insert_eq by (simp_all add: table_grow_def [of _ _ False])

lemma layout_donor_find_spec:
  assumes "donors.ok t"
  shows "s \<in> entries t \<Longrightarrow> layout_donor_find (ld_key s) t = Some (ld_fileid s)"
    "key \<notin> ld_key ` entries t \<Longrightarrow> layout_donor_find key t = Some 0"
  using donors.find_hit [OF assms, of s] donors.find_miss [OF assms, of key]
  by (simp_all add: layout_donor_find_def)

text \<open>Offering a donor: the first of a key stays, and one is dropped only when the table cannot grow.\<close>

lemma layout_donor_add_spec:
  assumes t: "donors.ok t"
  shows "\<exists>u. layout_donor_add alloc key fileid t = Some u \<and> donors.ok u
    \<and> (entries u = entries t \<and> (\<not> alloc \<or> key \<in> ld_key ` entries t)
       \<or> key \<notin> ld_key ` entries t \<and> entries u = insert \<lparr>ld_key = key, ld_fileid = fileid\<rparr> (entries t))"
proof (cases "tb_cap t * 7 \<le> (tb_count t + 1) * 10")
  case False
  from donor_insert_spec [OF t donors.not_loaded [OF this], of key fileid] show ?thesis
    using False by (auto simp: layout_donor_add_def split: if_splits)
next
  case loaded: True
  show ?thesis
  proof (cases alloc)
    case False
    with loaded t donor_grow_spec(1) [OF t] show ?thesis by (simp add: layout_donor_add_def)
  next
    case True
    obtain u where u: "donor_grow True t = Some (True, u)" "donors.ok u" "entries u = entries t" "tb_cap u = 2 * tb_cap t"
      using donor_grow_spec(2) [OF t] by blast
    have "tb_count u = tb_count t" "tb_count t < tb_cap t"
      using u donors.count_card [OF t] donors.count_card [OF u(2)] donors.ok_shape [OF t]
      by (auto simp: table_shape_def)
    then have "tb_count u + 1 < tb_cap u" using u(4) by linarith
    from donor_insert_spec [OF u(2) this, of key fileid] show ?thesis
      using loaded True u(1,3) by (auto simp: layout_donor_add_def split: if_splits)
  qed
qed

fun donate_all :: "(digest \<times> int \<times> bool) list \<Rightarrow> layout_donor table \<Rightarrow> layout_donor table option" where
  "donate_all [] t = Some t"
| "donate_all ((key, fileid, alloc) # ds) t =
    (case layout_donor_add alloc key fileid t of None \<Rightarrow> None | Some t' \<Rightarrow> donate_all ds t')"

text \<open>The donor of a key: the one the table holds, or the first offered.\<close>

definition first_donor :: "(digest \<times> int \<times> bool) list \<Rightarrow> digest \<Rightarrow> int" where
  "first_donor ds key = (case map_of (map (\<lambda>(k, f, a). (k, f)) ds) key of None \<Rightarrow> 0 | Some f \<Rightarrow> f)"

lemma donate_all_spec:
  assumes "donors.ok t"
  shows "\<exists>u. donate_all ds t = Some u \<and> donors.ok u \<and> entries t \<subseteq> entries u
    \<and> (\<forall>s \<in> entries u. s \<in> entries t \<or> (\<exists>a. (ld_key s, ld_fileid s, a) \<in> set ds))
    \<and> (if list_all (\<lambda>(k, f, a). a) ds
       then ld_key ` entries u = ld_key ` entries t \<union> fst ` set ds
         \<and> (\<forall>s \<in> entries u. ld_key s \<notin> ld_key ` entries t \<longrightarrow> ld_fileid s = first_donor ds (ld_key s))
       else True)"
  using assms
proof (induction ds t rule: donate_all.induct)
  case (1 t)
  then show ?case by simp
next
  case (2 key fileid alloc ds t)
  let ?e = "\<lparr>ld_key = key, ld_fileid = fileid\<rparr>"
  obtain t1 where t1: "layout_donor_add alloc key fileid t = Some t1" "donors.ok t1"
    "entries t1 = entries t \<and> (\<not> alloc \<or> key \<in> ld_key ` entries t)
     \<or> key \<notin> ld_key ` entries t \<and> entries t1 = insert ?e (entries t)"
    using layout_donor_add_spec [OF 2(2)] by blast
  obtain u where u: "donate_all ds t1 = Some u" "donors.ok u" "entries t1 \<subseteq> entries u"
    "\<forall>s \<in> entries u. s \<in> entries t1 \<or> (\<exists>a. (ld_key s, ld_fileid s, a) \<in> set ds)"
    "if list_all (\<lambda>(k, f, a). a) ds
     then ld_key ` entries u = ld_key ` entries t1 \<union> fst ` set ds
       \<and> (\<forall>s \<in> entries u. ld_key s \<notin> ld_key ` entries t1 \<longrightarrow> ld_fileid s = first_donor ds (ld_key s))
     else True"
    using 2(1) [OF t1(1,2)] by (elim exE conjE) (rule that)
  have sub: "entries t \<subseteq> entries u" using t1(3) u(3) by auto
  have from_where: "\<forall>s \<in> entries u. s \<in> entries t \<or> (\<exists>a. (ld_key s, ld_fileid s, a) \<in> set ((key, fileid, alloc) # ds))"
  proof
    fix s assume "s \<in> entries u"
    with u(4) consider "s \<in> entries t1" | a where "(ld_key s, ld_fileid s, a) \<in> set ds" by blast
    then show "s \<in> entries t \<or> (\<exists>a. (ld_key s, ld_fileid s, a) \<in> set ((key, fileid, alloc) # ds))"
    proof cases
      case 1
      then have "s \<in> entries t \<or> s = ?e" using t1(3) by blast
      then show ?thesis by auto
    qed auto
  qed
  have all: "ld_key ` entries u = ld_key ` entries t \<union> fst ` set ((key, fileid, alloc) # ds)
      \<and> (\<forall>s \<in> entries u. ld_key s \<notin> ld_key ` entries t \<longrightarrow> ld_fileid s = first_donor ((key, fileid, alloc) # ds) (ld_key s))"
    if ok: "list_all (\<lambda>(k, f, a). a) ((key, fileid, alloc) # ds)"
  proof
    from ok have alloc: "alloc" and "list_all (\<lambda>(k, f, a). a) ds" by simp_all
    with u(5) have u5: "ld_key ` entries u = ld_key ` entries t1 \<union> fst ` set ds"
      "\<And>s. s \<in> entries u \<Longrightarrow> ld_key s \<notin> ld_key ` entries t1 \<Longrightarrow> ld_fileid s = first_donor ds (ld_key s)"
      by auto
    have k1: "ld_key ` entries t1 = insert key (ld_key ` entries t)" using t1(3) alloc by auto
    show "ld_key ` entries u = ld_key ` entries t \<union> fst ` set ((key, fileid, alloc) # ds)"
      using u5(1) k1 by auto
    show "\<forall>s \<in> entries u. ld_key s \<notin> ld_key ` entries t \<longrightarrow> ld_fileid s = first_donor ((key, fileid, alloc) # ds) (ld_key s)"
    proof (intro ballI impI)
      fix s assume s: "s \<in> entries u" "ld_key s \<notin> ld_key ` entries t"
      show "ld_fileid s = first_donor ((key, fileid, alloc) # ds) (ld_key s)"
      proof (cases "ld_key s = key")
        case True
        then have "?e \<in> entries u" using t1(3) s u(3) alloc by auto
        then have "s = ?e" using donors.entries_unique [OF u(2) s(1)] True by simp
        then show ?thesis by (simp add: first_donor_def)
      next
        case False
        then show ?thesis using u5(2) [OF s(1)] s(2) k1 by (simp add: first_donor_def)
      qed
    qed
  qed
  show ?case
  proof (intro exI [of _ u] conjI)
    show "donate_all ((key, fileid, alloc) # ds) t = Some u" using t1(1) u(1) by simp
  next
    show "if list_all (\<lambda>(k, f, a). a) ((key, fileid, alloc) # ds)
      then ld_key ` entries u = ld_key ` entries t \<union> fst ` set ((key, fileid, alloc) # ds)
        \<and> (\<forall>s \<in> entries u. ld_key s \<notin> ld_key ` entries t
          \<longrightarrow> ld_fileid s = first_donor ((key, fileid, alloc) # ds) (ld_key s))
      else True"
    proof (cases "list_all (\<lambda>(k, f, a). a) ((key, fileid, alloc) # ds)")
      case True
      show ?thesis by (simp only: if_P [OF True]) (rule all [OF True])
    qed (simp only: if_False)
  next
    show "donors.ok u" by (rule u(2))
  next
    show "entries t \<subseteq> entries u" by (rule sub)
  next
    show "\<forall>s \<in> entries u. s \<in> entries t \<or> (\<exists>a. (ld_key s, ld_fileid s, a) \<in> set ((key, fileid, alloc) # ds))"
      by (rule from_where)
  qed
qed

lemma donors_init: "donors.ok (layout_donors_init True True)" "entries (layout_donors_init True True) = {}"
  using donors.fresh_ok [of 10] fresh_table_shape(2) [of 10]
  by (simp_all add: layout_donors_init_def entries_def)

lemma first_donor_miss: "key \<notin> fst ` set ds \<Longrightarrow> first_donor ds key = 0"
proof -
  assume "key \<notin> fst ` set ds"
  then have "map_of (map (\<lambda>(k, f, a). (k, f)) ds) key = None"
    by (force simp: map_of_eq_None_iff)
  then show ?thesis by (simp add: first_donor_def)
qed

text \<open>C19: A layout lookup returns, with no donor or the file id of a donor offered under that very key;
  when memory lasts it is the first one offered.\<close>

theorem layout_donors_first:
  "\<exists>t. donate_all ds (layout_donors_init True True) = Some t
    \<and> (\<forall>key. layout_donor_find key t \<in> insert (Some 0) {Some f | f a. (key, f, a) \<in> set ds})
    \<and> (if list_all (\<lambda>(k, f, a). a) ds then \<forall>key. layout_donor_find key t = Some (first_donor ds key) else True)"
proof -
  obtain t where t: "donate_all ds (layout_donors_init True True) = Some t" "donors.ok t"
    "\<forall>s \<in> entries t. \<exists>a. (ld_key s, ld_fileid s, a) \<in> set ds"
    "if list_all (\<lambda>(k, f, a). a) ds
     then ld_key ` entries t = fst ` set ds \<and> (\<forall>s \<in> entries t. ld_fileid s = first_donor ds (ld_key s)) else True"
    using donate_all_spec [OF donors_init(1), of ds] by (auto simp: donors_init(2))
  note find = layout_donor_find_spec [OF t(2)]
  have "layout_donor_find key t \<in> insert (Some 0) {Some f | f a. (key, f, a) \<in> set ds}" for key
  proof (cases "key \<in> ld_key ` entries t")
    case True
    then obtain s where "s \<in> entries t" "key = ld_key s" by blast
    with t(3) find(1) [of s] show ?thesis by auto
  qed (simp add: find(2))
  moreover have "layout_donor_find key t = Some (first_donor ds key)" if "list_all (\<lambda>(k, f, a). a) ds" for key
  proof (cases "key \<in> ld_key ` entries t")
    case True
    then obtain s where "s \<in> entries t" "key = ld_key s" by blast
    with t(4) that find(1) [of s] show ?thesis by auto
  qed (use t(4) that find(2) first_donor_miss in simp)
  ultimately show ?thesis using t(1) by auto
qed

subsection \<open>The file ids seen on disk\<close>

text \<open>
  A bitset over the row ids, an array of words that doubles when an id falls past its end. An id
  (\<open>int64_t\<close>) is an integer. \<open>grow_words\<close> is the loop that doubles; it is only ever started above zero.
\<close>

function grow_words :: "nat \<Rightarrow> nat \<Rightarrow> nat" where
  "grow_words ncap word = (if 0 < ncap \<and> ncap \<le> word then grow_words (ncap * 2) word else ncap)"
  by pat_completeness auto

termination
  by (relation "measure (\<lambda>(ncap, word). Suc word - ncap)") auto

declare grow_words.simps [simp del]

definition mark_file_seen :: "bool \<Rightarrow> int \<Rightarrow> u64 list \<Rightarrow> u64 list" where
  "mark_file_seen alloc fid seen =
    (if fid < 0 then seen
     else let word = nat fid div 64;
              ncap = grow_words (if length seen \<noteq> 0 then length seen else 1024) word
          in if length seen \<le> word \<and> \<not> alloc then seen
             else let grown = (if length seen \<le> word then seen @ replicate (ncap - length seen) 0 else seen)
                  in grown[word := grown ! word OR push_bit (nat fid mod 64) 1])"

definition file_was_seen :: "u64 list \<Rightarrow> int \<Rightarrow> bool" where
  "file_was_seen seen fid =
    (if fid < 0 \<or> length seen \<le> nat fid div 64 then False
     else drop_bit (nat fid mod 64) (seen ! (nat fid div 64)) AND 1 \<noteq> 0)"

lemma grow_words_gt: "0 < ncap \<Longrightarrow> word < grow_words ncap word"
  by (induction ncap word rule: grow_words.induct) (subst grow_words.simps, auto)

lemma grow_words_ge: "ncap \<le> grow_words ncap word"
proof (induction ncap word rule: grow_words.induct)
  case (1 ncap word)
  then show ?case by (subst grow_words.simps) (auto intro: order.trans [rotated])
qed

lemma file_was_seen_slot:
  "file_was_seen seen fid \<longleftrightarrow> 0 \<le> fid \<and> nat fid div 64 < length seen \<and> slot_used seen (nat fid)"
  by (auto simp: file_was_seen_def slot_used_def drop_bit_eq_div)

lemma mark_file_seen_spec:
  "file_was_seen (mark_file_seen alloc fid seen) other \<longleftrightarrow>
    file_was_seen seen other \<or> other = fid \<and> 0 \<le> fid \<and> (alloc \<or> nat fid div 64 < length seen)"
proof (cases "0 \<le> fid \<and> (alloc \<or> nat fid div 64 < length seen)")
  case False
  then show ?thesis by (auto simp: mark_file_seen_def Let_def)
next
  case True
  let ?word = "nat fid div 64"
  let ?ncap = "grow_words (if length seen \<noteq> 0 then length seen else 1024) ?word"
  define grown where "grown = (if length seen \<le> ?word then seen @ replicate (?ncap - length seen) 0 else seen)"
  have len: "?word < length grown" "length seen \<le> length grown"
    using grow_words_gt [of "if length seen \<noteq> 0 then length seen else 1024" ?word] by (auto simp: grown_def)
  have eq: "mark_file_seen alloc fid seen = set_slot grown (nat fid)"
    using True by (auto simp: mark_file_seen_def grown_def set_slot_def drop_bit_eq_div Let_def)
  have same: "nat x div 64 < length grown \<and> slot_used grown (nat x) \<longleftrightarrow> nat x div 64 < length seen \<and> slot_used seen (nat x)"
    for x
  proof -
    have zero: "replicate n (0 :: u64) ! (i - l) = 0" if "i < l + n" "\<not> i < l" for i l n :: nat
      using that by (intro nth_replicate) arith
    show ?thesis by (auto simp: grown_def slot_used_bit nth_append zero)
  qed
  show ?thesis
    using True len(1) same [of other] by (cases "other = fid") (auto simp: file_was_seen_slot eq slot_used_set_slot)
qed

fun mark_files :: "(int \<times> bool) list \<Rightarrow> u64 list \<Rightarrow> u64 list" where
  "mark_files [] seen = seen"
| "mark_files ((fid, alloc) # ms) seen = mark_files ms (mark_file_seen alloc fid seen)"

lemma mark_files_sound:
  "file_was_seen (mark_files ms seen) fid \<Longrightarrow> file_was_seen seen fid \<or> fid \<in> fst ` set ms"
  by (induction ms seen rule: mark_files.induct) (auto simp: mark_file_seen_spec image_iff)

lemma mark_files_keep: "file_was_seen seen fid \<Longrightarrow> file_was_seen (mark_files ms seen) fid"
  by (induction ms seen rule: mark_files.induct) (simp_all add: mark_file_seen_spec)

lemma mark_files_complete:
  "(fid, True) \<in> set ms \<Longrightarrow> 0 \<le> fid \<Longrightarrow> file_was_seen (mark_files ms seen) fid"
  by (induction ms seen rule: mark_files.induct) (auto simp: mark_file_seen_spec intro: mark_files_keep)

text \<open>C33: The prune skips its check of a file only if the walk marked that very file as seen; a file
  marked while memory lasts is skipped, and no negative id ever is.\<close>

theorem file_was_seen_exact:
  "{fid. file_was_seen (mark_files ms []) fid} \<subseteq> {fid \<in> fst ` set ms. 0 \<le> fid}
    \<and> {fid. (fid, True) \<in> set ms \<and> 0 \<le> fid} \<subseteq> {fid. file_was_seen (mark_files ms []) fid}"
  using mark_files_sound [of ms "[]"] mark_files_complete by (auto simp: file_was_seen_slot)

end
