(* ===== verification/ScanQueue.thy ===== *)
theory ScanQueue
  imports Base
begin

text \<open>
  The queue of files to hash (file_scan.c, \<open>scan_workq\<close>): 64 intrusive first-in first-out lists, one
  per power of two of the work left, and a mask of the lists that are not empty. The list links are
  kept as the code keeps them, in the queued files themselves, so a store maps addresses to files;
  an operation that follows a null or dangling pointer answers \<open>None\<close>. The mutex makes each push and
  pop one step; a pop that would sleep on the condition answers \<open>Waits\<close>.
\<close>

subsection \<open>Size classes\<close>

text \<open>\<open>__builtin_clzll\<close>: the number of zero bits above the highest one.\<close>

definition clzll :: "u64 \<Rightarrow> nat" where
  "clzll x = length (takeWhile (\<lambda>i. \<not> bit x i) (rev [0 ..< 64]))"

definition highest_set_bit :: "u64 \<Rightarrow> nat" where
  "highest_set_bit x = 63 - clzll x"

abbreviation "SCAN_BUCKET_FLOOR_LOG2 \<equiv> (20 :: nat)"
abbreviation "SCAN_NBUCKETS \<equiv> (64 :: nat)"

definition scan_bucket :: "u64 \<Rightarrow> nat" where
  "scan_bucket sz =
    (if sz < push_bit SCAN_BUCKET_FLOOR_LOG2 1 then 0
     else highest_set_bit sz - (SCAN_BUCKET_FLOOR_LOG2 - 1))"

lemma takeWhile_top:
  "takeWhile (\<lambda>i. \<not> P i) (rev [0 ..< n]) = rev [k + 1 ..< n]"
  if "k < n" "P k" "\<And>i. k < i \<Longrightarrow> i < n \<Longrightarrow> \<not> P i"
  using that
proof (induction n)
  case (Suc n)
  then show ?case
    by (cases "k = n") (auto simp: less_Suc_eq)
qed simp

lemma highest_set_bit_top:
  assumes "x \<noteq> 0"
  shows "bit x (highest_set_bit x)" "highest_set_bit x < 64" "\<And>i. highest_set_bit x < i \<Longrightarrow> \<not> bit x i"
proof -
  let ?S = "{i. bit x i}"
  have S: "?S \<subseteq> {..< 64}" by (auto dest: bit_imp_le_length)
  then have fin: "finite ?S" by (rule finite_subset) simp
  have ne: "?S \<noteq> {}" using assms by (auto simp: bit_eq_iff)
  define k where "k = Max ?S"
  have k: "bit x k" "k < 64" using Max_in [OF fin ne] S by (auto simp: k_def)
  have above: "\<not> bit x i" if "k < i" for i
  proof
    assume "bit x i"
    then have "i \<le> k" unfolding k_def by (intro Max_ge fin) simp
    with that show False by simp
  qed
  have "takeWhile (\<lambda>i. \<not> bit x i) (rev [0 ..< 64]) = rev [k + 1 ..< 64]"
    by (rule takeWhile_top) (use k above in auto)
  then have "highest_set_bit x = k" using k(2) by (simp add: highest_set_bit_def clzll_def)
  with k above show "bit x (highest_set_bit x)" "highest_set_bit x < 64" "\<And>i. highest_set_bit x < i \<Longrightarrow> \<not> bit x i"
    by simp_all
qed

lemma highest_set_bit_unique: "bit x k \<Longrightarrow> (\<And>i. k < i \<Longrightarrow> \<not> bit x i) \<Longrightarrow> highest_set_bit x = k"
  by (metis bit_0_eq bot_apply bot_bool_def highest_set_bit_top(1,3) linorder_neqE_nat)

lemma highest_set_bit_bounds:
  assumes "x \<noteq> 0"
  shows "2 ^ highest_set_bit x \<le> unat x" "unat x < 2 ^ (highest_set_bit x + 1)"
proof -
  note top = highest_set_bit_top [OF assms]
  let ?k = "highest_set_bit x"
  have "take_bit (?k + 1) x = x"
    using top(3) by (intro bit_word_eqI) (auto simp: bit_take_bit_iff less_Suc_eq_le intro: leI)
  then have "unat x = take_bit (?k + 1) (unat x)" by (metis unsigned_take_bit_eq)
  then show "unat x < 2 ^ (?k + 1)" by (metis take_bit_nat_less_exp)
  have "bit (unat x) ?k" using top(1) by (simp add: bit_unsigned_iff)
  then have "odd (unat x div 2 ^ ?k)" by (simp add: bit_iff_odd)
  then show "2 ^ ?k \<le> unat x" by (metis even_zero div_less not_le)
qed

lemma scan_bucket_lt: "scan_bucket x < 45"
proof (cases "x = 0")
  case False
  have "highest_set_bit x - 19 < 45" using highest_set_bit_top(2) [OF False] by arith
  then show ?thesis by (simp add: scan_bucket_def)
qed (simp add: scan_bucket_def)

text \<open>Every size has a class below 45, so inside the 64 lists and the mask; class 0 is what is below
  one MiB, and class b above it holds exactly the sizes from 2^(19+b) up to twice that.\<close>

theorem scan_bucket_classes:
  "scan_bucket sz < 45
   \<and> (if unat sz < 2 ^ 20 then scan_bucket sz = 0
      else 0 < scan_bucket sz \<and> 2 ^ (19 + scan_bucket sz) \<le> unat sz
        \<and> unat sz < 2 ^ (20 + scan_bucket sz))"
proof (cases "unat sz < 2 ^ 20")
  case True
  then show ?thesis by (simp add: scan_bucket_def word_less_nat_alt)
next
  case False
  then have ne: "sz \<noteq> 0" by auto
  have "2 ^ 20 < (2 :: nat) ^ (highest_set_bit sz + 1)"
    using False highest_set_bit_bounds(2) [OF ne] by linarith
  then have "20 < highest_set_bit sz + 1" by (rule power_less_imp_less_exp [rotated]) simp
  then have "scan_bucket sz = highest_set_bit sz - 19" "20 \<le> highest_set_bit sz"
    using False by (simp_all add: scan_bucket_def word_less_nat_alt)
  then show ?thesis
    using False highest_set_bit_bounds [OF ne] scan_bucket_lt [of sz] by simp
qed

subsection \<open>The queue\<close>

record file_to_scan =
  ft_path :: "byte list"
  ft_fileid :: int
  ft_filesize :: u64
  ft_mtime :: u64
  ft_resume :: "u64 option"
  ft_position :: u64
  ft_next :: "nat option"

definition file_resume_off :: "file_to_scan \<Rightarrow> u64" where
  "file_resume_off f = (case ft_resume f of None \<Rightarrow> 0 | Some off \<Rightarrow> off)"

definition work_left :: "file_to_scan \<Rightarrow> u64" where
  "work_left f = ft_filesize f - file_resume_off f"

record scan_workq =
  q_store :: "nat \<Rightarrow> file_to_scan option"
  q_head :: "nat option list"
  q_tail :: "nat option list"
  q_occupied :: u64
  q_nworkers :: nat
  q_draining :: bool
  q_pop_total :: u64
  q_empty_waits :: u64

text \<open>The queue as the program starts with it: all zero.\<close>

definition scan_workq_zero :: scan_workq where
  "scan_workq_zero = \<lparr>q_store = (\<lambda>p. None), q_head = replicate SCAN_NBUCKETS None,
     q_tail = replicate SCAN_NBUCKETS None, q_occupied = 0, q_nworkers = 0, q_draining = False,
     q_pop_total = 0, q_empty_waits = 0\<rparr>"

text \<open>\<open>None\<close> is the abort of a second start.\<close>

definition scan_workq_start :: "nat \<Rightarrow> scan_workq \<Rightarrow> scan_workq option" where
  "scan_workq_start nworkers q =
    (if q_nworkers q \<noteq> 0 then None
     else Some (q\<lparr>q_draining := False, q_occupied := 0, q_nworkers := if nworkers < 1 then 1 else nworkers\<rparr>))"

definition set_next :: "nat \<Rightarrow> nat option \<Rightarrow> (nat \<Rightarrow> file_to_scan option) \<Rightarrow> (nat \<Rightarrow> file_to_scan option) option"
where
  "set_next p nxt h = (case h p of None \<Rightarrow> None | Some f \<Rightarrow> Some (h(p \<mapsto> f\<lparr>ft_next := nxt\<rparr>)))"

definition scan_workq_push :: "nat \<Rightarrow> scan_workq \<Rightarrow> scan_workq option" where
  "scan_workq_push p q =
    (case q_store q p of
       None \<Rightarrow> None
     | Some f \<Rightarrow>
         let b = scan_bucket (work_left f); q1 = q\<lparr>q_store := (q_store q)(p \<mapsto> f\<lparr>ft_next := None\<rparr>)\<rparr>
         in map_option
              (\<lambda>q2. q2\<lparr>q_tail := (q_tail q2)[b := Some p], q_occupied := q_occupied q2 OR push_bit b 1\<rparr>)
              (if q_occupied q AND push_bit b 1 \<noteq> 0
               then (case q_tail q ! b of
                       None \<Rightarrow> None
                     | Some t \<Rightarrow> map_option (\<lambda>h. q1\<lparr>q_store := h\<rparr>) (set_next t (Some p) (q_store q1)))
               else Some (q1\<lparr>q_head := (q_head q)[b := Some p]\<rparr>)))"

datatype popped = Waits | Drained | Got nat

text \<open>\<open>waited\<close>: whether this pop has slept before.\<close>

definition scan_workq_pop :: "bool \<Rightarrow> scan_workq \<Rightarrow> (popped \<times> scan_workq) option" where
  "scan_workq_pop waited q =
    (if q_occupied q = 0 \<and> \<not> q_draining q then Some (Waits, q)
     else if q_occupied q = 0 then Some (Drained, q)
     else let b = highest_set_bit (q_occupied q)
          in case q_head q ! b of
               None \<Rightarrow> None
             | Some p \<Rightarrow>
                 (case q_store q p of
                    None \<Rightarrow> None
                  | Some f \<Rightarrow>
                      let q1 = q\<lparr>q_head := (q_head q)[b := ft_next f]\<rparr>;
                          q2 = (if ft_next f = None
                                then q1\<lparr>q_tail := (q_tail q)[b := None], q_occupied := q_occupied q AND NOT (push_bit b 1)\<rparr>
                                else q1)
                      in Some (Got p, q2\<lparr>q_pop_total := q_pop_total q + 1,
                           q_empty_waits := if waited then q_empty_waits q + 1 else q_empty_waits q\<rparr>)))"

definition scan_workq_drain :: "scan_workq \<Rightarrow> scan_workq" where
  "scan_workq_drain q = q\<lparr>q_draining := True\<rparr>"

subsection \<open>The queue as 64 lists\<close>

fun chain :: "(nat \<Rightarrow> file_to_scan option) \<Rightarrow> nat option \<Rightarrow> nat list \<Rightarrow> bool" where
  "chain h a [] \<longleftrightarrow> a = None"
| "chain h a (p # ps) \<longleftrightarrow> a = Some p \<and> (case h p of None \<Rightarrow> False | Some f \<Rightarrow> chain h (ft_next f) ps)"

definition class_ok :: "scan_workq \<Rightarrow> nat list list \<Rightarrow> nat \<Rightarrow> bool" where
  "class_ok q cs b \<longleftrightarrow> chain (q_store q) (q_head q ! b) (cs ! b) \<and> (bit (q_occupied q) b \<longleftrightarrow> cs ! b \<noteq> [])
     \<and> (cs ! b \<noteq> [] \<longrightarrow> q_tail q ! b = Some (last (cs ! b)))"

definition queue_ok :: "scan_workq \<Rightarrow> nat list list \<Rightarrow> bool" where
  "queue_ok q cs \<longleftrightarrow> length cs = SCAN_NBUCKETS \<and> length (q_head q) = SCAN_NBUCKETS \<and> length (q_tail q) = SCAN_NBUCKETS
     \<and> distinct (concat cs) \<and> (\<forall>b < SCAN_NBUCKETS. class_ok q cs b)"

definition cls_push :: "nat \<Rightarrow> nat \<Rightarrow> nat list list \<Rightarrow> nat list list" where
  "cls_push b p cs = cs[b := cs ! b @ [p]]"

definition cls_pop :: "bool \<Rightarrow> nat list list \<Rightarrow> popped \<times> nat list list" where
  "cls_pop draining cs =
    (case rev (filter (\<lambda>b. cs ! b \<noteq> []) [0 ..< SCAN_NBUCKETS]) of
       [] \<Rightarrow> (if draining then Drained else Waits, cs)
     | b # bs \<Rightarrow> (Got (hd (cs ! b)), cs[b := tl (cs ! b)]))"

lemma chain_cong: "(\<And>p. p \<in> set ps \<Longrightarrow> h' p = h p) \<Longrightarrow> chain h' a ps = chain h a ps"
  by (induction ps arbitrary: a) (auto split: option.splits)

lemma chain_stored: "chain h a ps \<Longrightarrow> p \<in> set ps \<Longrightarrow> h p \<noteq> None"
  by (induction ps arbitrary: a) (auto split: option.splits)

lemma chain_append:
  assumes "chain h a ps" "ps \<noteq> []" "distinct ps" "p \<notin> set ps" "h p = Some f" "ft_next f = None"
  shows "\<exists>h'. set_next (last ps) (Some p) h = Some h' \<and> chain h' a (ps @ [p])
    \<and> (\<forall>x. x \<noteq> last ps \<longrightarrow> h' x = h x)"
  using assms
proof (induction ps arbitrary: a)
  case (Cons x ps)
  from Cons.prems obtain g where x: "a = Some x" "h x = Some g" "chain h (ft_next g) ps"
    by (auto split: option.splits)
  show ?case
  proof (cases "ps = []")
    case True
    with Cons.prems x show ?thesis by (auto simp: set_next_def)
  next
    case False
    with Cons x obtain h' where h': "set_next (last ps) (Some p) h = Some h'" "chain h' (ft_next g) (ps @ [p])"
      "\<forall>y. y \<noteq> last ps \<longrightarrow> h' y = h y"
      by auto
    have "x \<noteq> last ps" using Cons.prems(3) False by auto
    with h' False x show ?thesis by (intro exI [of _ h']) simp
  qed
qed simp

lemma class_mask:
  "b < 64 \<Longrightarrow> bit (w OR 2 ^ b) i \<longleftrightarrow> bit w i \<or> i = b"
  "i < 64 \<Longrightarrow> bit (w AND NOT (2 ^ b)) i \<longleftrightarrow> bit w i \<and> i \<noteq> b"
  "w AND 2 ^ b = 0 \<longleftrightarrow> \<not> bit w b"
  for w :: u64
  by (auto simp: bit_or_iff bit_and_iff bit_not_iff bit_exp_iff)
    (auto simp: bit_iff_and_push_bit_not_eq_0)

lemma distinct_concat_in:
  "distinct (concat cs) \<Longrightarrow> b < length cs \<Longrightarrow> c < length cs \<Longrightarrow> p \<in> set (cs ! b) \<Longrightarrow> p \<in> set (cs ! c) \<Longrightarrow> b = c"
proof (induction cs arbitrary: b c)
  case (Cons x cs)
  then show ?case
    by (cases b; cases c) (auto, (metis IntI emptyE nth_mem UN_I)+)
qed simp

lemma mset_concat_update:
  "b < length cs \<Longrightarrow> mset (concat (cs[b := ys])) + mset (cs ! b) = mset (concat cs) + mset ys"
proof (induction cs arbitrary: b)
  case (Cons x cs)
  then show ?case by (cases b) (auto simp: ac_simps)
qed simp

lemma mset_cls_push: "b < length cs \<Longrightarrow> mset (concat (cls_push b p cs)) = add_mset p (mset (concat cs))"
  using mset_concat_update [of b cs "cs ! b @ [p]"] by (simp add: cls_push_def)

lemma class_ok_cong:
  assumes "class_ok q cs c" "q_head q' ! c = q_head q ! c" "q_tail q' ! c = q_tail q ! c" "cs' ! c = cs ! c"
    "bit (q_occupied q') c \<longleftrightarrow> bit (q_occupied q) c" "\<And>p. p \<in> set (cs ! c) \<Longrightarrow> q_store q' p = q_store q p"
  shows "class_ok q' cs' c"
  using assms chain_cong [of "cs ! c" "q_store q'" "q_store q"] by (auto simp: class_ok_def)

lemma push_refines:
  assumes q: "queue_ok q cs" and p: "p \<notin> set (concat cs)" "q_store q p = Some f"
  shows "\<exists>q'. scan_workq_push p q = Some q' \<and> queue_ok q' (cls_push (scan_bucket (work_left f)) p cs)
    \<and> q_draining q' = q_draining q \<and> dom (q_store q') = dom (q_store q)"
proof -
  define b where "b = scan_bucket (work_left f)"
  have b: "b < 64" using scan_bucket_lt [of "work_left f"] by (simp add: b_def)
  define h where "h = (q_store q)(p \<mapsto> f\<lparr>ft_next := None\<rparr>)"
  have len: "length cs = 64" "length (q_head q) = 64" "length (q_tail q) = 64" "distinct (concat cs)"
    using q by (auto simp: queue_ok_def)
  have cls: "class_ok q cs c" if "c < 64" for c using q that by (simp add: queue_ok_def)
  have pb: "p \<notin> set (cs ! c)" if "c < 64" for c using p(1) len that by (auto simp: set_concat)
  have chain_h: "chain h (q_head q ! c) (cs ! c)" if "c < 64" for c
  proof -
    have "chain h (q_head q ! c) (cs ! c) = chain (q_store q) (q_head q ! c) (cs ! c)"
      by (rule chain_cong) (use pb [OF that] in \<open>auto simp: h_def\<close>)
    with cls [OF that] show ?thesis by (simp add: class_ok_def)
  qed
  have hp: "h p = Some (f\<lparr>ft_next := None\<rparr>)" by (simp add: h_def)
  have mask: "q_occupied q AND push_bit b 1 \<noteq> 0 \<longleftrightarrow> cs ! b \<noteq> []"
    using cls [OF b] by (simp add: class_ok_def class_mask)
  obtain h' hd' where push: "scan_workq_push p q = Some (q\<lparr>q_store := h', q_head := hd',
        q_tail := (q_tail q)[b := Some p], q_occupied := q_occupied q OR push_bit b 1\<rparr>)"
      and chain_b: "chain h' (hd' ! b) (cs ! b @ [p])" and hd': "\<And>c. c \<noteq> b \<Longrightarrow> hd' ! c = q_head q ! c" "length hd' = 64"
      and h': "\<And>c x. c < 64 \<Longrightarrow> c \<noteq> b \<Longrightarrow> x \<in> set (cs ! c) \<Longrightarrow> h' x = q_store q x"
      and dom_h': "dom h' = dom (q_store q)"
  proof (cases "cs ! b = []")
    case True
    show thesis
    proof (rule that [of "(q_head q)[b := Some p]" h])
      show "scan_workq_push p q = Some (q\<lparr>q_store := h, q_head := (q_head q)[b := Some p],
        q_tail := (q_tail q)[b := Some p], q_occupied := q_occupied q OR push_bit b 1\<rparr>)"
        using p(2) True mask by (simp add: scan_workq_push_def b_def [symmetric] h_def Let_def)
      show "chain h ((q_head q)[b := Some p] ! b) (cs ! b @ [p])" using True b len hp by simp
      show "h x = q_store q x" if "c < 64" "c \<noteq> b" "x \<in> set (cs ! c)" for c x
        using pb [OF that(1)] that(3) by (auto simp: h_def)
    qed (use len p(2) in \<open>auto simp: h_def\<close>)
  next
    case False
    have "distinct (cs ! b)" using len b by (metis distinct_concat_iff nth_mem)
    then obtain h2 where h2: "set_next (last (cs ! b)) (Some p) h = Some h2" "chain h2 (q_head q ! b) (cs ! b @ [p])"
        "\<forall>x. x \<noteq> last (cs ! b) \<longrightarrow> h2 x = h x"
      using chain_append [OF chain_h [OF b] False _ pb [OF b] hp] by auto
    have tl: "q_tail q ! b = Some (last (cs ! b))" using cls [OF b] False by (simp add: class_ok_def)
    show thesis
    proof (rule that [of "q_head q" h2])
      show "scan_workq_push p q = Some (q\<lparr>q_store := h2, q_head := q_head q,
        q_tail := (q_tail q)[b := Some p], q_occupied := q_occupied q OR push_bit b 1\<rparr>)"
        using p(2) False mask tl h2(1) by (simp add: scan_workq_push_def b_def [symmetric] h_def Let_def)
      show "chain h2 (q_head q ! b) (cs ! b @ [p])" by (rule h2(2))
      show "h2 x = q_store q x" if "c < 64" "c \<noteq> b" "x \<in> set (cs ! c)" for c x
      proof -
        have "x \<noteq> last (cs ! b)"
          using distinct_concat_in [OF len(4), of b c x] that b len False last_in_set by metis
        then show ?thesis using h2(3) pb [OF that(1)] that(3) by (auto simp: h_def)
      qed
      show "dom h2 = dom (q_store q)"
        using h2(1) p(2) by (auto simp: set_next_def h_def dom_def split: option.splits if_splits)
    qed (use len in auto)
  qed
  let ?q = "q\<lparr>q_store := h', q_head := hd', q_tail := (q_tail q)[b := Some p],
    q_occupied := q_occupied q OR push_bit b 1\<rparr>"
  have "class_ok ?q (cls_push b p cs) c" if c: "c < 64" for c
  proof (cases "c = b")
    case True
    then show ?thesis using chain_b b len by (simp add: class_ok_def cls_push_def class_mask)
  next
    case False
    then show ?thesis
      using c b by (intro class_ok_cong [OF cls [OF c]]) (simp_all add: hd' h' cls_push_def class_mask)
  qed
  moreover have "distinct (concat (cls_push b p cs))"
    using mset_cls_push [of b cs p] b len p(1) by (metis distinct_count_atmost_1 distinct.simps(2) mset.simps(2) mset_eq_imp_distinct_iff)
  ultimately have "queue_ok ?q (cls_push b p cs)"
    using len hd' by (simp add: queue_ok_def) (simp add: cls_push_def)
  with push dom_h' show ?thesis by (intro exI [of _ ?q]) (simp add: b_def)
qed

lemma top_class:
  assumes "\<And>b. b < 64 \<Longrightarrow> bit w b \<longleftrightarrow> cs ! b \<noteq> []"
  shows "w = 0 \<Longrightarrow> rev (filter (\<lambda>b. cs ! b \<noteq> []) [0 ..< 64]) = []"
    "w \<noteq> 0 \<Longrightarrow> \<exists>bs. rev (filter (\<lambda>b. cs ! b \<noteq> []) [0 ..< 64]) = highest_set_bit w # bs"
proof -
  let ?P = "\<lambda>b. cs ! b \<noteq> []"
  show "rev (filter ?P [0 ..< 64]) = []" if "w = 0"
    using assms that by (auto simp: filter_empty_conv)
  show "\<exists>bs. rev (filter ?P [0 ..< 64]) = highest_set_bit w # bs" if "w \<noteq> 0"
  proof -
    note top = highest_set_bit_top [OF that]
    let ?k = "highest_set_bit w"
    have "[0 ..< 64] = [0 ..< ?k] @ ?k # [?k + 1 ..< 64]"
      using upt_add_eq_append [of 0 ?k "64 - ?k"] top(2) upt_conv_Cons [OF top(2)] by simp
    moreover have "cs ! x = []" if "?k < x" "x < 64" for x
      using top(3) [OF that(1)] assms [OF that(2)] by simp
    then have "filter ?P [?k + 1 ..< 64] = []" by (auto simp: filter_empty_conv Suc_le_eq)
    moreover have "?P ?k" using top assms by simp
    ultimately have "filter ?P [0 ..< 64] = filter ?P [0 ..< ?k] @ [?k]" by simp
    then show ?thesis by simp
  qed
qed

lemma pop_refines:
  assumes q: "queue_ok q cs"
  shows "\<exists>q'. scan_workq_pop waited q = Some (fst (cls_pop (q_draining q) cs), q')
    \<and> queue_ok q' (snd (cls_pop (q_draining q) cs)) \<and> q_draining q' = q_draining q \<and> q_store q' = q_store q"
proof -
  have len: "length cs = 64" "length (q_head q) = 64" "length (q_tail q) = 64" "distinct (concat cs)"
    using q by (auto simp: queue_ok_def)
  have cls: "class_ok q cs c" if "c < 64" for c using q that by (simp add: queue_ok_def)
  have bits: "bit (q_occupied q) c \<longleftrightarrow> cs ! c \<noteq> []" if "c < 64" for c using cls [OF that] by (simp add: class_ok_def)
  show ?thesis
  proof (cases "q_occupied q = 0")
    case True
    then show ?thesis using q top_class(1) [OF bits True] by (auto simp: scan_workq_pop_def cls_pop_def)
  next
    case False
    define b where "b = highest_set_bit (q_occupied q)"
    have b: "b < 64" "cs ! b \<noteq> []" using highest_set_bit_top [OF False] bits by (auto simp: b_def)
    obtain bs where bs: "rev (filter (\<lambda>b. cs ! b \<noteq> []) [0 ..< 64]) = b # bs"
      using top_class(2) [OF bits False] by (auto simp: b_def)
    obtain p ps where cb: "cs ! b = p # ps" using b(2) by (cases "cs ! b") auto
    obtain f where f: "q_head q ! b = Some p" "q_store q p = Some f" "chain (q_store q) (ft_next f) ps"
        "q_tail q ! b = Some (last (p # ps))"
      using cls [OF b(1)] cb by (auto simp: class_ok_def split: option.splits)
    have nil: "ft_next f = None \<longleftrightarrow> ps = []" using f(3) by (cases ps) auto
    have spec: "cls_pop (q_draining q) cs = (Got p, cs[b := ps])"
      unfolding cls_pop_def bs by (simp add: cb)
    define q' where "q' = q\<lparr>q_head := (q_head q)[b := ft_next f],
        q_tail := (if ps = [] then (q_tail q)[b := None] else q_tail q),
        q_occupied := (if ps = [] then q_occupied q AND NOT (push_bit b 1) else q_occupied q),
        q_pop_total := q_pop_total q + 1,
        q_empty_waits := if waited then q_empty_waits q + 1 else q_empty_waits q\<rparr>"
    have pop: "scan_workq_pop waited q = Some (Got p, q')"
      using False f(1,2) nil by (simp add: scan_workq_pop_def b_def [symmetric] q'_def Let_def)
    have "class_ok q' (cs[b := ps]) c" if c: "c < 64" for c
    proof (cases "c = b")
      case True
      then show ?thesis
        using b f(3,4) len bits [OF b(1)] by (auto simp: class_ok_def q'_def class_mask)
    next
      case other: False
      then show ?thesis
        using c b by (intro class_ok_cong [OF cls [OF c]]) (simp_all add: q'_def class_mask)
    qed
    moreover have "distinct (concat (cs[b := ps]))"
    proof -
      have "add_mset p (mset (concat (cs[b := ps]))) = mset (concat cs)"
        using mset_concat_update [of b cs ps] b(1) len(1) cb by simp
      then show ?thesis using len(4) by (metis distinct.simps(2) mset.simps(2) mset_eq_imp_distinct_iff)
    qed
    ultimately have "queue_ok q' (cs[b := ps])" using len by (simp add: queue_ok_def) (simp add: q'_def)
    with pop spec show ?thesis by (simp add: q'_def)
  qed
qed

subsection \<open>Runs\<close>

text \<open>
  The operations in any order the producer and the workers make them: a file is queued at an address
  of its own, and the file a worker gets is freed, so that the queue may not look at it again.
\<close>

datatype qop = Push file_to_scan | Pop bool | Drain

fun run_ops :: "qop list \<Rightarrow> nat \<Rightarrow> scan_workq \<Rightarrow> popped list option" where
  "run_ops [] n q = Some []"
| "run_ops (Push f # ops) n q =
    (case scan_workq_push n (q\<lparr>q_store := (q_store q)(n \<mapsto> f)\<rparr>) of None \<Rightarrow> None | Some q' \<Rightarrow> run_ops ops (n + 1) q')"
| "run_ops (Pop waited # ops) n q =
    (case scan_workq_pop waited q of
       None \<Rightarrow> None
     | Some (r, q') \<Rightarrow>
         map_option ((#) r)
           (run_ops ops n (case r of Got p \<Rightarrow> q'\<lparr>q_store := (q_store q')(p := None)\<rparr> | _ \<Rightarrow> q')))"
| "run_ops (Drain # ops) n q = run_ops ops n (scan_workq_drain q)"

fun run_classes :: "qop list \<Rightarrow> nat \<Rightarrow> bool \<Rightarrow> nat list list \<Rightarrow> popped list" where
  "run_classes [] n draining cs = []"
| "run_classes (Push f # ops) n draining cs =
    run_classes ops (n + 1) draining (cls_push (scan_bucket (work_left f)) n cs)"
| "run_classes (Pop waited # ops) n draining cs =
    fst (cls_pop draining cs) # run_classes ops n draining (snd (cls_pop draining cs))"
| "run_classes (Drain # ops) n draining cs = run_classes ops n True cs"

lemma queue_ok_cong:
  assumes "queue_ok q cs" "q_head q' = q_head q" "q_tail q' = q_tail q" "q_occupied q' = q_occupied q"
    "\<And>p. p \<in> set (concat cs) \<Longrightarrow> q_store q' p = q_store q p"
  shows "queue_ok q' cs"
proof -
  have "class_ok q' cs b" if b: "b < 64" for b
  proof (rule class_ok_cong [of q cs b])
    show "class_ok q cs b" using assms(1) b by (simp add: queue_ok_def)
    fix p assume "p \<in> set (cs ! b)"
    then show "q_store q' p = q_store q p"
      using assms(1) b by (intro assms(5)) (auto simp: queue_ok_def)
  qed (use assms in simp_all)
  with assms show ?thesis by (simp add: queue_ok_def)
qed

lemma queue_ok_store:
  "queue_ok q cs \<Longrightarrow> (\<And>p. p \<in> set (concat cs) \<Longrightarrow> h p = q_store q p) \<Longrightarrow> queue_ok (q\<lparr>q_store := h\<rparr>) cs"
  by (erule queue_ok_cong) simp_all

lemma queue_ok_drain: "queue_ok q cs \<Longrightarrow> queue_ok (scan_workq_drain q) cs"
  by (erule queue_ok_cong) (simp_all add: scan_workq_drain_def)

lemma cls_pop_got:
  assumes len: "length cs = 64" and assms: "cls_pop draining cs = (Got p, cs')"
  shows "mset (concat cs) = add_mset p (mset (concat cs'))" "length cs' = 64"
proof -
  obtain b bs where bs: "rev (filter (\<lambda>b. cs ! b \<noteq> []) [0 ..< 64]) = b # bs"
    using assms by (auto simp: cls_pop_def split: list.splits if_splits)
  then have "b \<in> set (filter (\<lambda>b. cs ! b \<noteq> []) [0 ..< 64])" by (metis list.set_intros(1) set_rev)
  then have b: "b < 64" "cs ! b \<noteq> []" by auto
  with assms bs have p: "p = hd (cs ! b)" "cs' = cs[b := tl (cs ! b)]" by (auto simp: cls_pop_def)
  with b mset_concat_update [of b cs "tl (cs ! b)"] len
  show "mset (concat cs) = add_mset p (mset (concat cs'))" by (cases "cs ! b") auto
  show "length cs' = 64" using p len by simp
qed

lemma run_refines:
  assumes "queue_ok q cs" "set (concat cs) \<subseteq> {..< n}"
  shows "run_ops ops n q = Some (run_classes ops n (q_draining q) cs)"
  using assms
proof (induction ops arbitrary: n q cs)
  case Nil
  then show ?case by simp
next
  case (Cons op ops)
  show ?case
  proof (cases op)
    case (Push f)
    let ?q = "q\<lparr>q_store := (q_store q)(n \<mapsto> f)\<rparr>"
    have fresh: "n \<notin> set (concat cs)" using Cons.prems(2) by auto
    have "queue_ok ?q cs" by (rule queue_ok_store [OF Cons.prems(1)]) (use fresh in auto)
    from push_refines [OF this fresh, of f] obtain q' where q': "scan_workq_push n ?q = Some q'"
      "queue_ok q' (cls_push (scan_bucket (work_left f)) n cs)" "q_draining q' = q_draining q"
      by auto
    have "set_mset (mset (concat (cls_push (scan_bucket (work_left f)) n cs))) \<subseteq> {..< n + 1}"
      using Cons.prems scan_bucket_lt [of "work_left f"] by (subst mset_cls_push) (auto simp: queue_ok_def)
    then have "run_ops ops (n + 1) q' = Some (run_classes ops (n + 1) (q_draining q')
        (cls_push (scan_bucket (work_left f)) n cs))"
      by (intro Cons.IH [OF q'(2)]) (simp only: set_mset_mset)
    with Push q' show ?thesis by simp
  next
    case (Pop waited)
    obtain r cs' where spec: "cls_pop (q_draining q) cs = (r, cs')" by fastforce
    obtain q' where q': "scan_workq_pop waited q = Some (r, q')" "queue_ok q' cs'" "q_draining q' = q_draining q"
      using pop_refines [OF Cons.prems(1), of waited] spec by auto
    have left: "set (concat cs') \<subseteq> {..< n} \<and> (\<forall>p. r = Got p \<longrightarrow> p \<notin> set (concat cs'))"
    proof (cases r)
      case (Got p)
      have "length cs = 64" using Cons.prems(1) by (simp add: queue_ok_def)
      note m = cls_pop_got(1) [OF this spec [unfolded Got]]
      have "p \<notin> set (concat cs')"
        using m Cons.prems(1) by (metis distinct.simps(2) mset.simps(2) mset_eq_imp_distinct_iff queue_ok_def)
      moreover have "set (concat cs') \<subseteq> set (concat cs)"
        using arg_cong [OF m, of set_mset] by (auto simp del: set_concat)
      ultimately show ?thesis using Cons.prems(2) Got by auto
    qed (use spec Cons.prems(2) in \<open>auto simp: cls_pop_def split: list.splits if_splits\<close>)
    let ?q = "case r of Got p \<Rightarrow> q'\<lparr>q_store := (q_store q')(p := None)\<rparr> | _ \<Rightarrow> q'"
    have "queue_ok ?q cs'"
      using q'(2) left by (cases r) (auto intro!: queue_ok_store simp del: set_concat)
    from Cons.IH [OF this] left have "run_ops ops n ?q = Some (run_classes ops n (q_draining ?q) cs')" by blast
    moreover have "q_draining ?q = q_draining q" using q'(3) by (cases r) auto
    ultimately show ?thesis using Pop q'(1) spec by simp
  next
    case Drain
    with Cons.IH [OF queue_ok_drain [OF Cons.prems(1)] Cons.prems(2)] show ?thesis
      by (simp add: scan_workq_drain_def)
  qed
qed

lemma queue_ok_start:
  "\<exists>q. scan_workq_start nworkers scan_workq_zero = Some q \<and> queue_ok q (replicate 64 []) \<and> \<not> q_draining q"
  by (auto simp: scan_workq_start_def scan_workq_zero_def queue_ok_def class_ok_def)

text \<open>What the workers got, and how many files were queued.\<close>

definition gots :: "popped list \<Rightarrow> nat list" where
  "gots rs = concat (map (\<lambda>r. case r of Got p \<Rightarrow> [p] | _ \<Rightarrow> []) rs)"

definition pushes :: "qop list \<Rightarrow> nat" where
  "pushes ops = length (filter (\<lambda>op. case op of Push f \<Rightarrow> True | _ \<Rightarrow> False) ops)"

lemma gots_simps [simp]:
  "gots [] = []" "gots (Got p # rs) = p # gots rs" "gots (Waits # rs) = gots rs" "gots (Drained # rs) = gots rs"
  "gots (rs @ rs') = gots rs @ gots rs'"
  by (simp_all add: gots_def)

lemma pushes_simps [simp]:
  "pushes [] = 0" "pushes (Push f # ops) = Suc (pushes ops)" "pushes (Pop w # ops) = pushes ops"
  "pushes (Drain # ops) = pushes ops"
  by (simp_all add: pushes_def)

lemma pushes_le: "pushes ops \<le> length ops"
  by (simp add: pushes_def)

text \<open>A pop that gets nothing leaves the lists alone, and only empty lists give nothing.\<close>

lemma cls_pop_none:
  assumes "length cs = 64" "cls_pop draining cs = (r, cs')" "\<And>p. r \<noteq> Got p"
  shows "cs' = cs" "concat cs = []"
proof -
  have none: "rev (filter (\<lambda>b. cs ! b \<noteq> []) [0 ..< 64]) = []"
    using assms(2,3) by (auto simp: cls_pop_def split: list.splits)
  with assms(2) show "cs' = cs" by (simp add: cls_pop_def split: if_splits)
  have "cs ! b = []" if "b < 64" for b using none that by (simp add: filter_empty_conv)
  then show "concat cs = []" using assms(1) by (auto simp: in_set_conv_nth)
qed

lemma run_classes_split:
  assumes "length cs = 64"
  shows "\<exists>cs'. length cs' = 64
    \<and> (\<forall>ops'. run_classes (ops @ ops') n draining cs
        = run_classes ops n draining cs @ run_classes ops' (n + pushes ops) (draining \<or> Drain \<in> set ops) cs')
    \<and> mset (gots (run_classes ops n draining cs)) + mset (concat cs') = mset (concat cs) + mset [n ..< n + pushes ops]"
  using assms
proof (induction ops arbitrary: n draining cs)
  case Nil
  then show ?case by (intro exI [of _ cs]) simp
next
  case (Cons op ops)
  show ?case
  proof (cases op)
    case (Push f)
    let ?b = "scan_bucket (work_left f)"
    have len: "length (cls_push ?b n cs) = 64" using Cons.prems by (simp add: cls_push_def)
    obtain cs' where "length cs' = 64"
      "\<forall>ops'. run_classes (ops @ ops') (n + 1) draining (cls_push ?b n cs)
        = run_classes ops (n + 1) draining (cls_push ?b n cs)
          @ run_classes ops' (n + 1 + pushes ops) (draining \<or> Drain \<in> set ops) cs'"
      "mset (gots (run_classes ops (n + 1) draining (cls_push ?b n cs))) + mset (concat cs')
        = mset (concat (cls_push ?b n cs)) + mset [n + 1 ..< n + 1 + pushes ops]"
      using Cons.IH [OF len] by blast
    moreover have "mset (concat (cls_push ?b n cs)) = add_mset n (mset (concat cs))"
      using scan_bucket_lt [of "work_left f"] Cons.prems by (intro mset_cls_push) simp
    moreover have "mset [n ..< n + Suc (pushes ops)] = add_mset n (mset [n + 1 ..< n + 1 + pushes ops])"
      by (subst upt_conv_Cons) simp_all
    ultimately show ?thesis using Push by (intro exI [of _ cs']) simp
  next
    case (Pop w)
    obtain r cs1 where spec: "cls_pop draining cs = (r, cs1)" by fastforce
    have "length cs1 = 64 \<and> mset (gots [r]) + mset (concat cs1) = mset (concat cs)"
    proof (cases "\<exists>p. r = Got p")
      case True
      then show ?thesis using cls_pop_got [OF Cons.prems] spec by auto
    next
      case False
      with cls_pop_none [OF Cons.prems spec] Cons.prems show ?thesis by (cases r) auto
    qed
    moreover from this obtain cs' where "length cs' = 64"
      "\<forall>ops'. run_classes (ops @ ops') n draining cs1
        = run_classes ops n draining cs1 @ run_classes ops' (n + pushes ops) (draining \<or> Drain \<in> set ops) cs'"
      "mset (gots (run_classes ops n draining cs1)) + mset (concat cs') = mset (concat cs1) + mset [n ..< n + pushes ops]"
      using Cons.IH [of cs1 n draining] by blast
    ultimately show ?thesis using Pop spec
      by (intro exI [of _ cs']) (cases r, auto simp: ac_simps)
  next
    case Drain
    with Cons.IH [OF Cons.prems, of n True] show ?thesis by simp
  qed
qed

lemma run_pops:
  "length cs = 64 \<Longrightarrow> length (concat cs) \<le> k
    \<Longrightarrow> mset (gots (run_classes (replicate k (Pop w)) n draining cs)) = mset (concat cs)"
proof (induction k arbitrary: cs)
  case (Suc k)
  obtain r cs1 where spec: "cls_pop draining cs = (r, cs1)" by fastforce
  show ?case
  proof (cases "\<exists>p. r = Got p")
    case True
    then obtain p where r: "r = Got p" by blast
    note got = cls_pop_got [OF Suc.prems(1) spec [unfolded r]]
    have "length (concat cs) = Suc (length (concat cs1))" using arg_cong [OF got(1), of size] by simp
    then have "mset (gots (run_classes (replicate k (Pop w)) n draining cs1)) = mset (concat cs1)"
      using Suc.prems by (intro Suc.IH got) simp
    with r got spec show ?thesis by simp
  next
    case False
    then have none: "cs1 = cs" "concat cs = []" using cls_pop_none [OF Suc.prems(1) spec] by auto
    then have "mset (gots (run_classes (replicate k (Pop w)) n draining cs)) = mset (concat cs)"
      by (intro Suc.IH Suc.prems(1)) (simp only: list.size le0)
    with False none spec show ?thesis by (cases r) simp_all
  qed
qed simp

text \<open>C16: Whatever order files are queued, taken and freed in, the linked lists and the mask answer every
  pop as 64 plain lists would: the oldest file of the largest class that has one, or nothing when
  no class has; no pop or push follows a null pointer or looks at a freed file.\<close>

theorem scan_queue_refines:
  "\<exists>q. scan_workq_start nworkers scan_workq_zero = Some q
    \<and> run_ops ops 0 q = Some (run_classes ops 0 False (replicate 64 []))"
  using queue_ok_start [of nworkers] run_refines [of _ "replicate 64 []" 0 ops] by auto

text \<open>C17: Once the queue drains, the workers get every file that was queued, each exactly once, however
  the pops and pushes before were interleaved.\<close>

theorem scan_queue_hands_out_all:
  "\<exists>q rs. scan_workq_start nworkers scan_workq_zero = Some q
    \<and> run_ops (ops @ Drain # replicate (length ops) (Pop w)) 0 q = Some rs
    \<and> mset (gots rs) = mset [0 ..< pushes ops]"
proof -
  obtain q where q: "scan_workq_start nworkers scan_workq_zero = Some q" "queue_ok q (replicate 64 [])" "\<not> q_draining q"
    using queue_ok_start by blast
  let ?cs = "replicate 64 [] :: nat list list"
  obtain cs' where cs': "length cs' = 64"
    "\<And>ops'. run_classes (ops @ ops') 0 False ?cs = run_classes ops 0 False ?cs @ run_classes ops' (pushes ops) (Drain \<in> set ops) cs'"
    "mset (gots (run_classes ops 0 False ?cs)) + mset (concat cs') = mset [0 ..< pushes ops]"
    using run_classes_split [of ?cs ops 0 False] by auto
  have "size (mset (concat cs')) \<le> size (mset [0 ..< pushes ops])"
    using arg_cong [OF cs'(3), of size] by simp
  then have "length (concat cs') \<le> length ops" using pushes_le [of ops] by simp
  then have "mset (gots (run_classes (ops @ Drain # replicate (length ops) (Pop w)) 0 False ?cs)) = mset [0 ..< pushes ops]"
    using cs'(3) by (simp add: cs'(2) run_pops [OF cs'(1)])
  with q run_refines [OF q(2), of 0] show ?thesis by simp
qed

end
