(* ===== verification/ScanWriter.thy ===== *)
theory ScanWriter
  imports Base
begin

text \<open>
  The batched writer of the scan (file_scan.c): one connection, one transaction held open across many
  files, and every file's writes a unit of their own inside a savepoint. SQLite is a parameter, a
  record of the calls made on a connection; \<open>sqlite_ok\<close> is what its documentation promises of them,
  failures included: a statement that fails leaves the connection alone or, at worst, rolls its
  whole transaction back. Opening a transaction or a savepoint writes nothing, and failing to do so
  leaves the transaction alone. \<open>elapsed_seconds\<close> is an argument, in whole seconds. The write lock is held by the
  caller of every operation, so a unit runs without interleaving.
\<close>

subsection \<open>SQLite\<close>

datatype stmt = BeginTrans | CommitTrans | RollbackTrans | SpBegin | SpRelease | SpRollback

record ('c, 'w) sqlite =
  sq_exec :: "stmt \<Rightarrow> 'c \<Rightarrow> int \<times> 'c"
  sq_write :: "'w \<Rightarrow> 'c \<Rightarrow> int \<times> 'c"
  sq_prepare :: "stmt \<Rightarrow> 'c \<Rightarrow> int \<times> 'c"
  sq_autocommit :: "'c \<Rightarrow> bool"

text \<open>What a connection holds: the writes on disk, those of the open transaction, and how many of them
  the savepoint would keep.\<close>

record 'w dbview =
  v_durable :: "'w list"
  v_txn :: "'w list option"
  v_mark :: "nat option"

definition rolled_back :: "'w dbview \<Rightarrow> 'w dbview" where
  "rolled_back v = v\<lparr>v_txn := None, v_mark := None\<rparr>"

text \<open>What may follow a statement that succeeds, and one that fails.\<close>

fun stmt_done :: "stmt \<Rightarrow> 'w dbview \<Rightarrow> 'w dbview set" where
  "stmt_done BeginTrans v = (if v_txn v = None then {v\<lparr>v_txn := Some []\<rparr>} else {})"
| "stmt_done CommitTrans v =
    (case v_txn v of
       None \<Rightarrow> {}
     | Some ws \<Rightarrow> {\<lparr>v_durable = v_durable v @ ws, v_txn = None, v_mark = None\<rparr>})"
| "stmt_done RollbackTrans v = (if v_txn v = None then {} else {rolled_back v})"
| "stmt_done SpBegin v = (case v_txn v of None \<Rightarrow> UNIV | Some ws \<Rightarrow> {v\<lparr>v_mark := Some (length ws)\<rparr>})"
| "stmt_done SpRelease v = (if v_mark v = None then {} else {v\<lparr>v_mark := None\<rparr>})"
| "stmt_done SpRollback v =
    (case (v_txn v, v_mark v) of (Some ws, Some m) \<Rightarrow> {v\<lparr>v_txn := Some (take m ws)\<rparr>} | _ \<Rightarrow> {})"

definition stmt_failed :: "stmt \<Rightarrow> 'w dbview \<Rightarrow> 'w dbview set" where
  "stmt_failed s v = (if s = BeginTrans \<or> s = SpBegin then {v} else {v, rolled_back v})"

definition write_done :: "'w \<Rightarrow> 'w dbview \<Rightarrow> 'w dbview set" where
  "write_done w v = (case v_txn v of
     None \<Rightarrow> {v\<lparr>v_durable := v_durable v @ [w]\<rparr>} | Some ws \<Rightarrow> {v\<lparr>v_txn := Some (ws @ [w])\<rparr>})"

definition sqlite_ok :: "('c, 'w) sqlite \<Rightarrow> ('c \<Rightarrow> 'w dbview) \<Rightarrow> bool" where
  "sqlite_ok api view \<longleftrightarrow>
    (\<forall>s c. view (snd (sq_exec api s c)) \<in> (if fst (sq_exec api s c) = 0 then stmt_done s (view c) else stmt_failed s (view c)))
    \<and> (\<forall>w c. view (snd (sq_write api w c)) \<in> (if fst (sq_write api w c) = 0 then write_done w (view c)
         else {view c, rolled_back (view c)}))
    \<and> (\<forall>s c. view (snd (sq_prepare api s c)) = view c)
    \<and> (\<forall>c. sq_autocommit api c \<longleftrightarrow> v_txn (view c) = None)"

subsection \<open>The writer\<close>

record 'c scan_writer =
  sw_db :: 'c
  sw_trans_open :: bool
  sw_unit_open :: bool
  sw_batch_lost :: bool
  sw_write_start :: int
  sw_prepared :: "stmt list"

definition scan_writer_open :: "'c \<Rightarrow> 'c scan_writer" where
  "scan_writer_open c = \<lparr>sw_db = c, sw_trans_open = False, sw_unit_open = False, sw_batch_lost = False,
     sw_write_start = 0, sw_prepared = []\<rparr>"

abbreviation "COMMIT_INTERVAL_SEC \<equiv> (10 :: int)"

definition filescan_batch_lost :: "'c scan_writer \<Rightarrow> bool" where
  "filescan_batch_lost sw = sw_batch_lost sw"

definition dbfile_exec :: "('c, 'w) sqlite \<Rightarrow> stmt \<Rightarrow> 'c scan_writer \<Rightarrow> int \<times> 'c scan_writer" where
  "dbfile_exec api s sw = (case sq_exec api s (sw_db sw) of (ret, c) \<Rightarrow> (ret, sw\<lparr>sw_db := c\<rparr>))"

definition dbfile_begin_trans :: "('c, 'w) sqlite \<Rightarrow> 'c scan_writer \<Rightarrow> int \<times> 'c scan_writer" where
  "dbfile_begin_trans api sw = dbfile_exec api BeginTrans sw"

definition dbfile_commit_trans :: "('c, 'w) sqlite \<Rightarrow> 'c scan_writer \<Rightarrow> int \<times> 'c scan_writer" where
  "dbfile_commit_trans api sw = dbfile_exec api CommitTrans sw"

definition dbfile_abort_trans :: "('c, 'w) sqlite \<Rightarrow> 'c scan_writer \<Rightarrow> int \<times> 'c scan_writer" where
  "dbfile_abort_trans api sw = dbfile_exec api RollbackTrans sw"

definition batch_lost :: "('c, 'w) sqlite \<Rightarrow> 'c scan_writer \<Rightarrow> 'c scan_writer" where
  "batch_lost api sw =
    (let sw1 = (if \<not> sq_autocommit api (sw_db sw) then snd (dbfile_abort_trans api sw) else sw)
     in sw1\<lparr>sw_trans_open := False, sw_unit_open := False, sw_batch_lost := True\<rparr>)"

definition scan_exec :: "('c, 'w) sqlite \<Rightarrow> stmt \<Rightarrow> 'c scan_writer \<Rightarrow> int \<times> 'c scan_writer" where
  "scan_exec api which sw =
    (if which \<in> set (sw_prepared sw) then dbfile_exec api which sw
     else case sq_prepare api which (sw_db sw) of
            (ret, c) \<Rightarrow>
              if ret \<noteq> 0 then dbfile_exec api which (sw\<lparr>sw_db := c\<rparr>)
              else dbfile_exec api which (sw\<lparr>sw_db := c, sw_prepared := which # sw_prepared sw\<rparr>))"

definition scan_exec_free :: "'c scan_writer \<Rightarrow> 'c scan_writer" where
  "scan_exec_free sw = sw\<lparr>sw_prepared := []\<rparr>"

text \<open>\<open>None\<close> is the abort of a unit opened inside a unit.\<close>

definition scan_write_begin :: "('c, 'w) sqlite \<Rightarrow> int \<Rightarrow> 'c scan_writer \<Rightarrow> (int \<times> 'c scan_writer) option" where
  "scan_write_begin api now sw =
    (if filescan_batch_lost sw then Some (- 1, sw)
     else if sw_unit_open sw then None
     else
       let (ret, sw1) =
         (if sw_trans_open sw then (0, sw)
          else case dbfile_begin_trans api sw of
                 (ret, sw1) \<Rightarrow>
                   if ret \<noteq> 0 then (ret, sw1) else (0, sw1\<lparr>sw_trans_open := True, sw_write_start := now\<rparr>))
       in if ret \<noteq> 0 then Some (ret, sw1)
          else case scan_exec api SpBegin sw1 of
                 (ret, sw2) \<Rightarrow> if ret \<noteq> 0 then Some (ret, sw2) else Some (0, sw2\<lparr>sw_unit_open := True\<rparr>))"

definition scan_unit_release :: "('c, 'w) sqlite \<Rightarrow> 'c scan_writer \<Rightarrow> int \<times> 'c scan_writer" where
  "scan_unit_release api sw =
    (if \<not> sw_unit_open sw then (0, sw)
     else case scan_exec api SpRelease (sw\<lparr>sw_unit_open := False\<rparr>) of
            (ret, sw1) \<Rightarrow> (ret, if ret \<noteq> 0 then batch_lost api sw1 else sw1))"

definition scan_write_flush :: "('c, 'w) sqlite \<Rightarrow> 'c scan_writer \<Rightarrow> int \<times> 'c scan_writer" where
  "scan_write_flush api sw =
    (case scan_unit_release api sw of
       (ret, sw1) \<Rightarrow>
         if ret \<noteq> 0 \<or> \<not> sw_trans_open sw1 then (ret, sw1)
         else case dbfile_commit_trans api sw1 of
                (ret, sw2) \<Rightarrow>
                  let sw3 = sw2\<lparr>sw_trans_open := False\<rparr>
                  in (ret, if ret \<noteq> 0 then batch_lost api sw3 else sw3))"

definition scan_write_end :: "('c, 'w) sqlite \<Rightarrow> int \<Rightarrow> 'c scan_writer \<Rightarrow> int \<times> 'c scan_writer" where
  "scan_write_end api now sw =
    (case scan_unit_release api sw of
       (ret, sw1) \<Rightarrow>
         if ret \<noteq> 0 then (ret, sw1)
         else if sw_trans_open sw1 \<and> COMMIT_INTERVAL_SEC \<le> now - sw_write_start sw1 then scan_write_flush api sw1
         else (0, sw1))"

definition scan_write_abort :: "('c, 'w) sqlite \<Rightarrow> 'c scan_writer \<Rightarrow> 'c scan_writer" where
  "scan_write_abort api sw =
    (if \<not> sw_unit_open sw then sw
     else case scan_exec api SpRollback (sw\<lparr>sw_unit_open := False\<rparr>) of
            (ret, sw1) \<Rightarrow>
              if ret \<noteq> 0 then batch_lost api sw1
              else case scan_exec api SpRelease sw1 of
                     (ret, sw2) \<Rightarrow>
                       if ret \<noteq> 0 \<or> sq_autocommit api (sw_db sw2) then batch_lost api sw2 else sw2)"

definition scan_writer_close :: "('c, 'w) sqlite \<Rightarrow> 'c scan_writer \<Rightarrow> 'c scan_writer" where
  "scan_writer_close api sw = scan_exec_free (snd (scan_write_flush api sw))"

subsection \<open>Units\<close>

text \<open>
  How every caller brackets its writes: begin, the writes up to the first that fails, then an abort,
  or an end or flush. The answer is whether the unit was kept, as far as the caller is told.
\<close>

fun unit_writes :: "('c, 'w) sqlite \<Rightarrow> 'w list \<Rightarrow> 'c scan_writer \<Rightarrow> int \<times> 'c scan_writer" where
  "unit_writes api [] sw = (0, sw)"
| "unit_writes api (w # ws) sw =
    (case sq_write api w (sw_db sw) of
       (ret, c) \<Rightarrow> if ret \<noteq> 0 then (ret, sw\<lparr>sw_db := c\<rparr>) else unit_writes api ws (sw\<lparr>sw_db := c\<rparr>))"

record 'w write_unit =
  wu_writes :: "'w list"
  wu_flush :: bool
  wu_begun :: int
  wu_ended :: int

definition scan_unit :: "('c, 'w) sqlite \<Rightarrow> 'w write_unit \<Rightarrow> 'c scan_writer \<Rightarrow> (bool \<times> 'c scan_writer) option" where
  "scan_unit api u sw =
    (case scan_write_begin api (wu_begun u) sw of
       None \<Rightarrow> None
     | Some (ret, sw1) \<Rightarrow>
         if ret \<noteq> 0 then Some (False, sw1)
         else case unit_writes api (wu_writes u) sw1 of
                (ret, sw2) \<Rightarrow>
                  if ret \<noteq> 0 then Some (False, scan_write_abort api sw2)
                  else case (if wu_flush u then scan_write_flush api sw2 else scan_write_end api (wu_ended u) sw2) of
                         (ret, sw3) \<Rightarrow> Some (ret = 0, sw3))"

fun scan_units :: "('c, 'w) sqlite \<Rightarrow> 'w write_unit list \<Rightarrow> 'c scan_writer \<Rightarrow> ('w list list \<times> 'c scan_writer) option"
where
  "scan_units api [] sw = Some ([], sw)"
| "scan_units api (u # us) sw =
    (case scan_unit api u sw of
       None \<Rightarrow> None
     | Some (kept, sw1) \<Rightarrow>
         map_option (\<lambda>(acks, sw2). (if kept then wu_writes u # acks else acks, sw2)) (scan_units api us sw1))"

text \<open>
  The writer between units, and inside one: \<open>D\<close> the units on disk, \<open>K\<close> those kept in the open
  transaction, \<open>ws\<close> what the open unit has written, \<open>None\<close> when SQLite rolled it all back.
\<close>

definition idle :: "('c \<Rightarrow> 'w dbview) \<Rightarrow> 'c scan_writer \<Rightarrow> 'w list list \<Rightarrow> 'w list list \<Rightarrow> bool" where
  "idle view sw D K \<longleftrightarrow> \<not> sw_unit_open sw \<and> v_durable (view (sw_db sw)) = concat D
    \<and> (if sw_batch_lost sw then \<not> sw_trans_open sw
       else v_mark (view (sw_db sw)) = None \<and> (sw_trans_open sw \<or> K = [])
         \<and> v_txn (view (sw_db sw)) = (if sw_trans_open sw then Some (concat K) else None))"

definition inside :: "('c \<Rightarrow> 'w dbview) \<Rightarrow> 'c scan_writer \<Rightarrow> 'w list list \<Rightarrow> 'w list list \<Rightarrow> 'w list option \<Rightarrow> bool" where
  "inside view sw D K cur \<longleftrightarrow> sw_unit_open sw \<and> sw_trans_open sw \<and> \<not> sw_batch_lost sw
    \<and> view (sw_db sw) = (case cur of
         None \<Rightarrow> \<lparr>v_durable = concat D, v_txn = None, v_mark = None\<rparr>
       | Some ws \<Rightarrow> \<lparr>v_durable = concat D, v_txn = Some (concat K @ ws), v_mark = Some (length (concat K))\<rparr>)"

definition same_flags :: "'c scan_writer \<Rightarrow> 'c scan_writer \<Rightarrow> bool" where
  "same_flags sw sw' \<longleftrightarrow> sw_trans_open sw' = sw_trans_open sw \<and> sw_unit_open sw' = sw_unit_open sw
    \<and> sw_batch_lost sw' = sw_batch_lost sw \<and> sw_write_start sw' = sw_write_start sw"

lemma dbfile_exec_law:
  assumes "sqlite_ok api view" "dbfile_exec api s sw = (ret, sw')"
  shows "same_flags sw sw'"
    "view (sw_db sw') \<in> (if ret = 0 then stmt_done s (view (sw_db sw)) else stmt_failed s (view (sw_db sw)))"
proof -
  obtain c where c: "sq_exec api s (sw_db sw) = (ret, c)" "sw' = sw\<lparr>sw_db := c\<rparr>"
    using assms(2) by (cases "sq_exec api s (sw_db sw)") (simp add: dbfile_exec_def)
  show "same_flags sw sw'" by (simp add: c(2) same_flags_def)
  have "view (snd (sq_exec api s (sw_db sw)))
      \<in> (if fst (sq_exec api s (sw_db sw)) = 0 then stmt_done s (view (sw_db sw)) else stmt_failed s (view (sw_db sw)))"
    using assms(1) unfolding sqlite_ok_def by blast
  then show "view (sw_db sw') \<in> (if ret = 0 then stmt_done s (view (sw_db sw)) else stmt_failed s (view (sw_db sw)))"
    by (simp add: c)
qed

lemma scan_exec_law:
  assumes ok: "sqlite_ok api view" and ex: "scan_exec api s sw = (ret, sw')"
  shows "same_flags sw sw'"
    "view (sw_db sw') \<in> (if ret = 0 then stmt_done s (view (sw_db sw)) else stmt_failed s (view (sw_db sw)))"
proof -
  obtain sw1 where sw1: "dbfile_exec api s sw1 = (ret, sw')" "same_flags sw sw1" "view (sw_db sw1) = view (sw_db sw)"
  proof (cases "s \<in> set (sw_prepared sw)")
    case True
    with ex that [of sw] show thesis by (simp add: scan_exec_def same_flags_def)
  next
    case False
    obtain r c where p: "sq_prepare api s (sw_db sw) = (r, c)" by fastforce
    have "view c = view (sw_db sw)" using ok p unfolding sqlite_ok_def by (metis snd_conv)
    with False ex p show thesis
      by (intro that [of "if r \<noteq> 0 then sw\<lparr>sw_db := c\<rparr> else sw\<lparr>sw_db := c, sw_prepared := s # sw_prepared sw\<rparr>"])
        (simp_all add: scan_exec_def same_flags_def split: if_splits)
  qed
  show "same_flags sw sw'" using dbfile_exec_law(1) [OF ok sw1(1)] sw1(2) by (simp add: same_flags_def)
  show "view (sw_db sw') \<in> (if ret = 0 then stmt_done s (view (sw_db sw)) else stmt_failed s (view (sw_db sw)))"
    using dbfile_exec_law(2) [OF ok sw1(1)] unfolding sw1(3) .
qed

lemma batch_lost_idle:
  assumes ok: "sqlite_ok api view" and d: "v_durable (view (sw_db sw)) = concat D"
  shows "idle view (batch_lost api sw) D K" "sw_batch_lost (batch_lost api sw)"
proof -
  obtain r sw1 where r: "dbfile_exec api RollbackTrans sw = (r, sw1)" by fastforce
  have "v_durable (view (sw_db sw1)) = concat D"
    using dbfile_exec_law(2) [OF ok r] d
    by (auto simp: rolled_back_def stmt_failed_def split: if_splits)
  then show "idle view (batch_lost api sw) D K" "sw_batch_lost (batch_lost api sw)"
    using r d by (auto simp: batch_lost_def idle_def dbfile_abort_trans_def Let_def)
qed

lemma begin_spec:
  assumes ok: "sqlite_ok api view" and i: "idle view sw D K"
  shows "\<exists>ret sw'. scan_write_begin api now sw = Some (ret, sw')
    \<and> (if ret = 0 then inside view sw' D K (Some []) else idle view sw' D K \<and> sw_batch_lost sw' = sw_batch_lost sw)"
proof (cases "sw_batch_lost sw")
  case True
  with i show ?thesis by (simp add: scan_write_begin_def filescan_batch_lost_def)
next
  case False
  define step where "step = (if sw_trans_open sw then (0, sw)
     else case dbfile_begin_trans api sw of
       (ret, sw1) \<Rightarrow> if ret \<noteq> 0 then (ret, sw1) else (0, sw1\<lparr>sw_trans_open := True, sw_write_start := now\<rparr>))"
  obtain r1 sw1 where s1: "step = (r1, sw1)" by fastforce
  have "idle view sw1 D K \<and> \<not> sw_batch_lost sw1 \<and> (r1 = 0 \<longrightarrow> sw_trans_open sw1)"
  proof (cases "sw_trans_open sw")
    case True
    with s1 i False show ?thesis by (simp add: step_def)
  next
    case closed: False
    obtain r c where r: "dbfile_exec api BeginTrans sw = (r, c)" by fastforce
    note law = dbfile_exec_law [OF ok r]
    show ?thesis
      using s1 r law i False closed
      by (auto simp: step_def dbfile_begin_trans_def idle_def same_flags_def stmt_failed_def split: if_splits)
  qed
  note i1 = this
  have opened: "scan_write_begin api now sw = (if r1 \<noteq> 0 then Some (r1, sw1)
      else case scan_exec api SpBegin sw1 of
             (ret, sw2) \<Rightarrow> if ret \<noteq> 0 then Some (ret, sw2) else Some (0, sw2\<lparr>sw_unit_open := True\<rparr>))"
    using False i unfolding scan_write_begin_def step_def [symmetric] s1
    by (simp add: filescan_batch_lost_def idle_def)
  show ?thesis
  proof (cases "r1 = 0")
    case False
    with opened i1 \<open>\<not> sw_batch_lost sw\<close> show ?thesis by simp
  next
    case True
    obtain r2 sw2 where s2: "scan_exec api SpBegin sw1 = (r2, sw2)" by fastforce
    note law = scan_exec_law [OF ok s2]
    show ?thesis
      using opened s2 law i1 True \<open>\<not> sw_batch_lost sw\<close>
      by (cases "view (sw_db sw1)")
        (auto simp: idle_def inside_def same_flags_def stmt_failed_def split: if_splits)
  qed
qed

lemma writes_spec:
  assumes ok: "sqlite_ok api view"
  shows "inside view sw D K (Some us) \<Longrightarrow> unit_writes api ws sw = (ret, sw')
    \<Longrightarrow> (if ret = 0 then inside view sw' D K (Some (us @ ws)) else \<exists>cur. inside view sw' D K cur)"
proof (induction ws arbitrary: sw us)
  case Nil
  then show ?case by simp
next
  case (Cons w ws)
  obtain r c where w: "sq_write api w (sw_db sw) = (r, c)" by fastforce
  have law: "view c \<in> (if r = 0 then write_done w (view (sw_db sw)) else {view (sw_db sw), rolled_back (view (sw_db sw))})"
    using ok w unfolding sqlite_ok_def by (metis fst_conv snd_conv)
  show ?case
  proof (cases "r = 0")
    case True
    then have "inside view (sw\<lparr>sw_db := c\<rparr>) D K (Some (us @ [w]))"
      using law Cons.prems(1) by (auto simp: inside_def write_done_def)
    moreover have "unit_writes api ws (sw\<lparr>sw_db := c\<rparr>) = (ret, sw')" using Cons.prems(2) w True by simp
    ultimately show ?thesis using Cons.IH [of "sw\<lparr>sw_db := c\<rparr>" "us @ [w]"]
      by (simp split: if_splits)
  next
    case False
    then have "ret = r" "sw' = sw\<lparr>sw_db := c\<rparr>" using Cons.prems(2) w by auto
    moreover have "view c = view (sw_db sw) \<or> view c = rolled_back (view (sw_db sw))" using law False by simp
    ultimately have "inside view sw' D K (Some us) \<or> inside view sw' D K None"
      using Cons.prems(1) by (auto simp: inside_def rolled_back_def)
    with False \<open>ret = r\<close> show ?thesis by auto
  qed
qed

lemma abort_spec:
  assumes ok: "sqlite_ok api view" and i: "inside view sw D K cur"
  shows "idle view (scan_write_abort api sw) D K"
proof -
  obtain r1 sw1 where s1: "scan_exec api SpRollback (sw\<lparr>sw_unit_open := False\<rparr>) = (r1, sw1)" by fastforce
  note law1 = scan_exec_law [OF ok s1]
  show ?thesis
  proof (cases "r1 = 0")
    case False
    then have "v_durable (view (sw_db sw1)) = concat D"
      using law1 i by (auto simp: inside_def stmt_failed_def rolled_back_def split: option.splits)
    from batch_lost_idle(1) [OF ok this] False s1 i show ?thesis by (simp add: scan_write_abort_def inside_def)
  next
    case True
    then have cur: "cur \<noteq> None" using law1(2) i by (cases cur) (simp_all add: inside_def)
    then have v1: "view (sw_db sw1) = \<lparr>v_durable = concat D, v_txn = Some (concat K), v_mark = Some (length (concat K))\<rparr>"
      using law1(2) i True by (auto simp: inside_def)
    obtain r2 sw2 where s2: "scan_exec api SpRelease sw1 = (r2, sw2)" by fastforce
    note law2 = scan_exec_law [OF ok s2]
    have auto: "sq_autocommit api c \<longleftrightarrow> v_txn (view c) = None" for c using ok by (simp add: sqlite_ok_def)
    show ?thesis
    proof (cases "r2 = 0")
      case False
      then have "v_durable (view (sw_db sw2)) = concat D"
        using law2(2) v1 by (auto simp: stmt_failed_def rolled_back_def)
      from batch_lost_idle(1) [OF ok this] False True s1 s2 i show ?thesis by (simp add: scan_write_abort_def inside_def)
    next
      case kept: True
      then have "view (sw_db sw2) = \<lparr>v_durable = concat D, v_txn = Some (concat K), v_mark = None\<rparr>"
        using law2(2) v1 by simp
      with kept True s1 s2 law1(1) law2(1) i auto show ?thesis
        by (simp add: scan_write_abort_def inside_def idle_def same_flags_def)
    qed
  qed
qed

lemma release_spec:
  assumes ok: "sqlite_ok api view" and i: "inside view sw D K cur" and rel: "scan_unit_release api sw = (ret, sw')"
  shows "if ret = 0 then \<exists>ws. cur = Some ws \<and> idle view sw' D (K @ [ws]) \<and> sw_trans_open sw' \<and> \<not> sw_batch_lost sw'
    else idle view sw' D K \<and> sw_batch_lost sw'"
proof -
  obtain r1 sw1 where s1: "scan_exec api SpRelease (sw\<lparr>sw_unit_open := False\<rparr>) = (r1, sw1)" by fastforce
  note law1 = scan_exec_law [OF ok s1]
  have r: "ret = r1" "sw' = (if r1 \<noteq> 0 then batch_lost api sw1 else sw1)"
    using rel s1 i by (auto simp: scan_unit_release_def inside_def)
  show ?thesis
  proof (cases "r1 = 0")
    case False
    then have "v_durable (view (sw_db sw1)) = concat D"
      using law1(2) i by (auto simp: inside_def stmt_failed_def rolled_back_def split: option.splits)
    from batch_lost_idle [OF ok this] False r show ?thesis by simp
  next
    case True
    then obtain ws where ws: "cur = Some ws" using law1(2) i by (auto simp: inside_def split: option.splits)
    then have "idle view sw1 D (K @ [ws])"
      using True law1 i by (simp add: inside_def idle_def same_flags_def)
    with True r ws law1(1) i show ?thesis by (simp add: inside_def same_flags_def)
  qed
qed

lemma commit_spec:
  assumes ok: "sqlite_ok api view" and i: "idle view sw D K" "\<not> sw_batch_lost sw"
    and fl: "scan_write_flush api sw = (ret, sw')"
  shows "if ret = 0 then idle view sw' (D @ K) [] \<and> \<not> sw_trans_open sw' \<and> \<not> sw_batch_lost sw'
    else idle view sw' D K \<and> sw_batch_lost sw'"
proof (cases "sw_trans_open sw")
  case False
  with i fl show ?thesis by (auto simp: scan_write_flush_def scan_unit_release_def idle_def)
next
  case True
  obtain r1 sw1 where s1: "dbfile_exec api CommitTrans sw = (r1, sw1)" by fastforce
  note law1 = dbfile_exec_law [OF ok s1]
  have r: "ret = r1" "sw' = (if r1 \<noteq> 0 then batch_lost api (sw1\<lparr>sw_trans_open := False\<rparr>) else sw1\<lparr>sw_trans_open := False\<rparr>)"
    using fl s1 i True by (auto simp: scan_write_flush_def scan_unit_release_def dbfile_commit_trans_def idle_def Let_def
        split: if_splits)
  show ?thesis
  proof (cases "r1 = 0")
    case False
    then have "v_durable (view (sw_db (sw1\<lparr>sw_trans_open := False\<rparr>))) = concat D"
      using law1(2) i True by (auto simp: idle_def stmt_failed_def rolled_back_def)
    from batch_lost_idle [OF ok this] False r show ?thesis by simp
  next
    case ok1: True
    with r law1 i True show ?thesis by (simp add: idle_def same_flags_def)
  qed
qed

lemma flush_inside:
  assumes ok: "sqlite_ok api view" and i: "inside view sw D K cur" and fl: "scan_write_flush api sw = (ret, sw')"
  shows "if ret = 0 then \<exists>ws. cur = Some ws \<and> idle view sw' (D @ K @ [ws]) [] \<and> \<not> sw_batch_lost sw'
    else (\<exists>K'. idle view sw' D K') \<and> sw_batch_lost sw'"
proof -
  obtain r1 sw1 where s1: "scan_unit_release api sw = (r1, sw1)" by fastforce
  note law1 = release_spec [OF ok i s1]
  show ?thesis
  proof (cases "r1 = 0")
    case False
    with fl s1 law1 show ?thesis by (auto simp: scan_write_flush_def)
  next
    case True
    then obtain ws where ws: "cur = Some ws" "idle view sw1 D (K @ [ws])" "sw_trans_open sw1" "\<not> sw_batch_lost sw1"
      using law1 by auto
    have "scan_write_flush api sw1 = (ret, sw')"
      using fl s1 True ws by (simp add: scan_write_flush_def scan_unit_release_def idle_def)
    from commit_spec [OF ok ws(2,4) this] ws(1) show ?thesis by (auto split: if_splits)
  qed
qed

lemma end_inside:
  assumes ok: "sqlite_ok api view" and i: "inside view sw D K cur" and e: "scan_write_end api now sw = (ret, sw')"
  shows "if ret = 0 then \<exists>ws D' K'. cur = Some ws \<and> idle view sw' D' K' \<and> D' @ K' = D @ K @ [ws] \<and> \<not> sw_batch_lost sw'
    else (\<exists>K'. idle view sw' D K') \<and> sw_batch_lost sw'"
proof -
  obtain r1 sw1 where s1: "scan_unit_release api sw = (r1, sw1)" by fastforce
  note law1 = release_spec [OF ok i s1]
  show ?thesis
  proof (cases "r1 = 0")
    case False
    with e s1 law1 show ?thesis by (auto simp: scan_write_end_def)
  next
    case True
    then obtain ws where ws: "cur = Some ws" "idle view sw1 D (K @ [ws])" "sw_trans_open sw1" "\<not> sw_batch_lost sw1"
      using law1 by auto
    show ?thesis
    proof (cases "COMMIT_INTERVAL_SEC \<le> now - sw_write_start sw1")
      case due: True
      then have "scan_write_flush api sw1 = (ret, sw')" using e s1 True ws by (simp add: scan_write_end_def)
      from commit_spec [OF ok ws(2,4) this] ws(1) show ?thesis
        by (cases "ret = 0") (auto intro: exI [of _ "D @ K @ [ws]"] exI [of _ "[]"])
    next
      case False
      then have "ret = 0" "sw' = sw1" using e s1 True by (simp_all add: scan_write_end_def)
      with ws show ?thesis by auto
    qed
  qed
qed

text \<open>One unit: kept whole, or not at all; nothing more is kept once the batch is lost.\<close>

lemma unit_spec:
  assumes ok: "sqlite_ok api view" and i: "idle view sw D K"
  shows "\<exists>kept sw' D' K'. scan_unit api u sw = Some (kept, sw') \<and> idle view sw' D' K'
    \<and> (if sw_batch_lost sw' then D' = D \<and> \<not> kept
       else \<not> sw_batch_lost sw \<and> D' @ K' = D @ K @ (if kept then [wu_writes u] else []))"
proof -
  obtain r1 sw1 where b: "scan_write_begin api (wu_begun u) sw = Some (r1, sw1)"
    "if r1 = 0 then inside view sw1 D K (Some []) else idle view sw1 D K \<and> sw_batch_lost sw1 = sw_batch_lost sw"
    using begin_spec [OF ok i] by blast
  show ?thesis
  proof (cases "r1 = 0")
    case False
    with b show ?thesis by (intro exI [of _ False] exI [of _ sw1] exI [of _ D] exI [of _ K]) (simp add: scan_unit_def)
  next
    case True
    then have in1: "inside view sw1 D K (Some [])" using b by simp
    have alive: "\<not> sw_batch_lost sw"
      using b(1) True by (auto simp: scan_write_begin_def filescan_batch_lost_def split: if_splits)
    obtain r2 sw2 where w: "unit_writes api (wu_writes u) sw1 = (r2, sw2)" by fastforce
    note law2 = writes_spec [OF ok in1 w]
    show ?thesis
    proof (cases "r2 = 0")
      case False
      then obtain cur where "inside view sw2 D K cur" using law2 by auto
      from abort_spec [OF ok this] show ?thesis
        using b(1) True False w alive
        by (intro exI [of _ False] exI [of _ "scan_write_abort api sw2"] exI [of _ D] exI [of _ K])
          (simp add: scan_unit_def)
    next
      case ok2: True
      then have in2: "inside view sw2 D K (Some (wu_writes u))" using law2 by simp
      obtain r3 sw3 where e: "(if wu_flush u then scan_write_flush api sw2 else scan_write_end api (wu_ended u) sw2) = (r3, sw3)"
        by fastforce
      have unit: "scan_unit api u sw = Some (r3 = 0, sw3)" using b(1) True w ok2 e by (simp add: scan_unit_def)
      have "if r3 = 0 then \<exists>D' K'. idle view sw3 D' K' \<and> D' @ K' = D @ K @ [wu_writes u] \<and> \<not> sw_batch_lost sw3
          else (\<exists>K'. idle view sw3 D K') \<and> sw_batch_lost sw3"
      proof (cases "wu_flush u")
        case True
        with e have "scan_write_flush api sw2 = (r3, sw3)" by simp
        from flush_inside [OF ok in2 this] show ?thesis
          by (cases "r3 = 0") (auto intro: exI [of _ "D @ K @ [wu_writes u]"] exI [of _ "[]"])
      next
        case False
        with e have "scan_write_end api (wu_ended u) sw2 = (r3, sw3)" by simp
        from end_inside [OF ok in2 this] show ?thesis by (cases "r3 = 0") auto
      qed
      then show ?thesis using unit alive by (cases "r3 = 0") auto
    qed
  qed
qed

lemma units_spec:
  assumes ok: "sqlite_ok api view"
  shows "idle view sw D K \<Longrightarrow> \<exists>acks sw' D' K'. scan_units api us sw = Some (acks, sw') \<and> idle view sw' D' K'
    \<and> (if sw_batch_lost sw then D' = D \<and> acks = [] \<and> sw_batch_lost sw'
       else if sw_batch_lost sw' then prefix D' (D @ K @ acks) else D' @ K' = D @ K @ acks)"
proof (induction us arbitrary: sw D K)
  case Nil
  then show ?case by (intro exI [of _ "[]"] exI [of _ sw] exI [of _ D] exI [of _ K]) simp
next
  case (Cons u us)
  obtain kept sw1 D1 K1 where u: "scan_unit api u sw = Some (kept, sw1)" "idle view sw1 D1 K1"
    "if sw_batch_lost sw1 then D1 = D \<and> \<not> kept
     else \<not> sw_batch_lost sw \<and> D1 @ K1 = D @ K @ (if kept then [wu_writes u] else [])"
    using unit_spec [OF ok Cons.prems, of u] by blast
  obtain acks sw' D' K' where r: "scan_units api us sw1 = Some (acks, sw')" "idle view sw' D' K'"
    "if sw_batch_lost sw1 then D' = D1 \<and> acks = [] \<and> sw_batch_lost sw'
     else if sw_batch_lost sw' then prefix D' (D1 @ K1 @ acks) else D' @ K' = D1 @ K1 @ acks"
    using Cons.IH [OF u(2)] by blast
  let ?acks = "if kept then wu_writes u # acks else acks"
  have app: "D1 @ K1 @ acks = D @ K @ ?acks" if "\<not> sw_batch_lost sw1"
  proof -
    have "(D1 @ K1) @ acks = (D @ K @ (if kept then [wu_writes u] else [])) @ acks" using u(3) that by simp
    then show ?thesis by (cases kept) simp_all
  qed
  have "scan_units api (u # us) sw = Some (?acks, sw')" using u(1) r(1) by simp
  moreover have "if sw_batch_lost sw then D' = D \<and> ?acks = [] \<and> sw_batch_lost sw'
       else if sw_batch_lost sw' then prefix D' (D @ K @ ?acks) else D' @ K' = D @ K @ ?acks"
  proof (cases "sw_batch_lost sw1")
    case True
    then have "D1 = D" "\<not> kept" "D' = D1" "acks = []" "sw_batch_lost sw'" using u(3) r(3) by simp_all
    then show ?thesis by simp
  next
    case False
    then have "if sw_batch_lost sw' then prefix D' (D @ K @ ?acks) else D' @ K' = D @ K @ ?acks" "\<not> sw_batch_lost sw"
      using u(3) r(3) unfolding app [OF False] by simp_all
    then show ?thesis by simp
  qed
  ultimately show ?case using r(2) by blast
qed

text \<open>Closing flushes the writer.\<close>

lemma close_spec:
  assumes ok: "sqlite_ok api view" and i: "idle view sw D K"
  defines "sw' \<equiv> scan_writer_close api sw"
  shows "if sw_batch_lost sw' then v_durable (view (sw_db sw')) = concat D
    else \<not> sw_batch_lost sw \<and> v_durable (view (sw_db sw')) = concat (D @ K)"
proof -
  obtain ret sw1 where f: "scan_write_flush api sw = (ret, sw1)" by fastforce
  have close: "sw' = sw1\<lparr>sw_prepared := []\<rparr>" by (simp add: sw'_def scan_writer_close_def scan_exec_free_def f)
  show ?thesis
  proof (cases "sw_batch_lost sw")
    case True
    with i f have "sw1 = sw" by (simp add: scan_write_flush_def scan_unit_release_def idle_def)
    with True i show ?thesis by (simp add: close idle_def)
  next
    case False
    from commit_spec [OF ok i False f] False show ?thesis
      by (cases "ret = 0") (simp_all add: close idle_def)
  qed
qed


text \<open>A connection that fails where a script says: 0 does what is asked, 1 fails, any other code fails
  and rolls back.\<close>

definition scripted :: "(int list \<times> 'w dbview \<Rightarrow> bool) \<Rightarrow> bool \<Rightarrow> ('w dbview \<Rightarrow> 'w dbview)
    \<Rightarrow> int list \<times> 'w dbview \<Rightarrow> int \<times> int list \<times> 'w dbview" where
  "scripted able opens effect c =
    (case c of (fs, v) \<Rightarrow>
       let f = (case fs of [] \<Rightarrow> 0 | f # _ \<Rightarrow> f)
       in if f = 0 \<and> able c then (0, tl fs, effect v)
          else (if f = 0 then 1 else f, tl fs, if f = 0 \<or> f = 1 \<or> opens then v else rolled_back v))"

definition script_effect :: "stmt \<Rightarrow> 'w dbview \<Rightarrow> 'w dbview" where
  "script_effect s v =
    (case s of
       BeginTrans \<Rightarrow> v\<lparr>v_txn := Some []\<rparr>
     | CommitTrans \<Rightarrow> \<lparr>v_durable = v_durable v @ the (v_txn v), v_txn = None, v_mark = None\<rparr>
     | RollbackTrans \<Rightarrow> rolled_back v
     | SpBegin \<Rightarrow> v\<lparr>v_mark := Some (length (the (v_txn v)))\<rparr>
     | SpRelease \<Rightarrow> v\<lparr>v_mark := None\<rparr>
     | SpRollback \<Rightarrow> v\<lparr>v_txn := Some (take (the (v_mark v)) (the (v_txn v)))\<rparr>)"

definition script_db :: "(int list \<times> 'w dbview, 'w) sqlite" where
  "script_db = \<lparr>
     sq_exec = (\<lambda>s. scripted
       (\<lambda>c. case s of BeginTrans \<Rightarrow> v_txn (snd c) = None | SpRelease \<Rightarrow> v_mark (snd c) \<noteq> None
          | SpRollback \<Rightarrow> v_txn (snd c) \<noteq> None \<and> v_mark (snd c) \<noteq> None | _ \<Rightarrow> v_txn (snd c) \<noteq> None)
       (s = BeginTrans \<or> s = SpBegin) (script_effect s)),
     sq_write = (\<lambda>w. scripted (\<lambda>c. v_txn (snd c) \<noteq> None) False (\<lambda>v. v\<lparr>v_txn := Some (the (v_txn v) @ [w])\<rparr>)),
     sq_prepare = (\<lambda>s c. (0, c)),
     sq_autocommit = (\<lambda>c. v_txn (snd c) = None)\<rparr>"

lemma script_db_ok: "sqlite_ok (script_db :: (int list \<times> 'w dbview, 'w) sqlite) snd"
proof -
  have "snd (snd (sq_exec script_db s c))
      \<in> (if fst (sq_exec script_db s c) = 0 then stmt_done s (snd c) else stmt_failed s (snd c))" for s and c :: "int list \<times> 'w dbview"
    by (cases c; cases s) (auto simp: script_db_def scripted_def script_effect_def Let_def stmt_failed_def)
  moreover have "snd (snd (sq_write script_db w c))
      \<in> (if fst (sq_write script_db w c) = 0 then write_done w (snd c) else {snd c, rolled_back (snd c)})" for w and c :: "int list \<times> 'w dbview"
    by (cases c) (auto simp: script_db_def scripted_def Let_def write_done_def)
  ultimately show ?thesis by (simp add: sqlite_ok_def) (simp add: script_db_def)
qed

text \<open>Three units, the second failing its second write.\<close>

definition sample_units :: "nat write_unit list" where
  "sample_units = [\<lparr>wu_writes = [1, 2], wu_flush = False, wu_begun = 0, wu_ended = 1\<rparr>,
     \<lparr>wu_writes = [3, 4], wu_flush = False, wu_begun = 1, wu_ended = 2\<rparr>,
     \<lparr>wu_writes = [5], wu_flush = True, wu_begun = 2, wu_ended = 3\<rparr>]"


end
