(* ===== verification/Csum.thy ===== *)
theory Csum
  imports Base
begin

text \<open>
  \<open>src/csum.c\<close>: digests and running checksums. xxHash is a parameter: its 128-bit hash of a byte
  string, its version, and the bytes of its streaming state. A running checksum is the bytes it has
  been fed, which is what the hash of a stream depends on; freezing one to bytes and reading it back
  is the parameter's, the header in front of them is the code's. Words are stored little-endian, as
  on every machine the program supports.
\<close>

record xxhash =
  xx_hash128 :: "byte list \<Rightarrow> u64 \<times> u64"
  xx_hash64 :: "byte list \<Rightarrow> u64"
  xx_version :: u32
  xx_state_size :: u32
  xx_freeze :: "byte list \<Rightarrow> byte list"
  xx_thaw :: "byte list \<Rightarrow> byte list"

definition le_bytes :: "nat \<Rightarrow> nat \<Rightarrow> byte list" where
  "le_bytes n x = map (\<lambda>i. word_of_nat (x div 256 ^ i)) [0 ..< n]"

fun le_val :: "byte list \<Rightarrow> nat" where
  "le_val [] = 0"
| "le_val (b # bs) = unat b + 256 * le_val bs"

lemma length_le_bytes [simp]: "length (le_bytes n x) = n"
  by (simp add: le_bytes_def)

lemma le_bytes_Suc: "le_bytes (Suc n) x = word_of_nat x # le_bytes n (x div 256)"
  by (simp add: le_bytes_def upt_conv_Cons del: upt_Suc)
    (simp add: map_Suc_upt [symmetric] div_mult2_eq del: upt_Suc map_Suc_upt)

lemma le_val_le_bytes: "le_val (le_bytes n x) = x mod 256 ^ n"
proof (induction n arbitrary: x)
  case (Suc n)
  have "le_val (le_bytes (Suc n) x) = x mod 256 + 256 * (x div 256 mod 256 ^ n)"
    by (simp add: le_bytes_Suc Suc unat_of_nat)
  also have "\<dots> = x mod (256 * 256 ^ n)" by (simp add: mod_mult2_eq)
  finally show ?case by simp
qed (simp add: le_bytes_def)

subsection \<open>Digests\<close>

definition store_digest :: "u64 \<times> u64 \<Rightarrow> digest" where
  "store_digest h = (case h of (low, high) \<Rightarrow> le_bytes 8 (unat low) @ le_bytes 8 (unat high))"

definition checksum_block :: "xxhash \<Rightarrow> byte list \<Rightarrow> digest" where
  "checksum_block xx buf = store_digest (xx_hash128 xx buf)"

definition csum_path :: "xxhash \<Rightarrow> byte list \<Rightarrow> u64" where
  "csum_path xx path = xx_hash64 xx path"

type_synonym running_checksum = "byte list"

definition start_running_checksum :: running_checksum where
  "start_running_checksum = []"

definition add_to_running_checksum :: "running_checksum \<Rightarrow> byte list \<Rightarrow> running_checksum" where
  "add_to_running_checksum c buf = c @ buf"

definition finish_running_checksum :: "xxhash \<Rightarrow> running_checksum \<Rightarrow> digest" where
  "finish_running_checksum xx c = store_digest (xx_hash128 xx c)"

lemma length_store_digest [simp]: "length (store_digest h) = DIGEST_LEN"
  by (cases h) (simp add: store_digest_def)

subsection \<open>Frozen checksums\<close>

abbreviation "CSUM_STATE_MAGIC \<equiv> (0x4f414e5343534d32 :: u64)"
abbreviation "CSUM_STATE_MAGIC_V1 \<equiv> (0x4f414e5343534d31 :: u64)"

record csum_state_hdr =
  hdr_magic :: u64
  hdr_xxh_version :: u32
  hdr_state_size :: u32

abbreviation "HDR_LEN \<equiv> (16 :: nat)"

definition put_hdr :: "csum_state_hdr \<Rightarrow> byte list" where
  "put_hdr h = le_bytes 8 (unat (hdr_magic h)) @ le_bytes 4 (unat (hdr_xxh_version h)) @ le_bytes 4 (unat (hdr_state_size h))"

definition get_hdr :: "byte list \<Rightarrow> csum_state_hdr" where
  "get_hdr buf = \<lparr>hdr_magic = word_of_nat (le_val (take 8 buf)),
     hdr_xxh_version = word_of_nat (le_val (take 4 (drop 8 buf))),
     hdr_state_size = word_of_nat (le_val (take 4 (drop 12 buf)))\<rparr>"

definition state_version :: "u64 \<Rightarrow> nat" where
  "state_version magic = (if magic = CSUM_STATE_MAGIC_V1 then 1 else if magic = CSUM_STATE_MAGIC then 2 else 0)"

definition running_checksum_state_size :: "xxhash \<Rightarrow> nat" where
  "running_checksum_state_size xx = HDR_LEN + unat (xx_state_size xx)"

definition running_checksum_state_version :: "xxhash \<Rightarrow> byte list \<Rightarrow> nat" where
  "running_checksum_state_version xx buf =
    (if length buf \<noteq> running_checksum_state_size xx then 0 else state_version (hdr_magic (get_hdr buf)))"

text \<open>\<open>v1\<close> is the test hook that writes what older binaries wrote; \<open>len\<close> is the room there is.\<close>

definition running_checksum_save :: "xxhash \<Rightarrow> bool \<Rightarrow> running_checksum \<Rightarrow> nat \<Rightarrow> int + byte list" where
  "running_checksum_save xx v1 c len =
    (let hdr = \<lparr>hdr_magic = if v1 then CSUM_STATE_MAGIC_V1 else CSUM_STATE_MAGIC,
                hdr_xxh_version = xx_version xx, hdr_state_size = xx_state_size xx\<rparr>
     in if len < running_checksum_state_size xx then Inl (- EINVAL) else Inr (put_hdr hdr @ xx_freeze xx c))"

definition running_checksum_restore :: "xxhash \<Rightarrow> byte list \<Rightarrow> running_checksum option" where
  "running_checksum_restore xx buf =
    (if length buf \<noteq> running_checksum_state_size xx then None
     else let hdr = get_hdr buf
          in if state_version (hdr_magic hdr) = 0 \<or> hdr_xxh_version hdr \<noteq> xx_version xx
                \<or> hdr_state_size hdr \<noteq> xx_state_size xx
             then None else Some (xx_thaw xx (drop HDR_LEN buf)))"

text \<open>
  What xxHash is relied on for: a state has the size it says, and one copied out and in again goes
  on as the state it was copied from.
\<close>

definition goes_on_as :: "xxhash \<Rightarrow> running_checksum \<Rightarrow> running_checksum \<Rightarrow> bool" where
  "goes_on_as xx c c' \<longleftrightarrow>
    (\<forall>more. finish_running_checksum xx (add_to_running_checksum c' more)
       = finish_running_checksum xx (add_to_running_checksum c more))"

lemma goes_on_as_refl [simp]: "goes_on_as xx c c"
  by (simp add: goes_on_as_def)

lemma goes_on_as_trans: "goes_on_as xx a b \<Longrightarrow> goes_on_as xx b c \<Longrightarrow> goes_on_as xx a c"
  by (simp add: goes_on_as_def)

lemma goes_on_as_add:
  "goes_on_as xx a b \<Longrightarrow> goes_on_as xx (add_to_running_checksum a m) (add_to_running_checksum b m)"
  by (simp add: goes_on_as_def add_to_running_checksum_def)

lemma goes_on_as_finish: "goes_on_as xx a b \<Longrightarrow> finish_running_checksum xx b = finish_running_checksum xx a"
  unfolding goes_on_as_def add_to_running_checksum_def by (metis append_Nil2)

definition xxhash_ok :: "xxhash \<Rightarrow> bool" where
  "xxhash_ok xx \<longleftrightarrow> (\<forall>c. length (xx_freeze xx c) = unat (xx_state_size xx)
     \<and> goes_on_as xx c (xx_thaw xx (xx_freeze xx c)))"

lemma get_put_hdr: "get_hdr (put_hdr h @ rest) = h"
proof -
  have "word_of_nat (le_val (le_bytes 8 (unat (w :: u64)))) = w" for w
    using unat_u64_lt [of w] by (simp add: le_val_le_bytes)
  moreover have "word_of_nat (le_val (le_bytes 4 (unat (w :: u32)))) = w" for w
    using unat_u32_lt [of w] by (simp add: le_val_le_bytes)
  ultimately show ?thesis
    by (cases h) (simp add: get_hdr_def put_hdr_def)
qed

lemma length_put_hdr [simp]: "length (put_hdr h) = HDR_LEN"
  by (simp add: put_hdr_def)

lemma csum_state_spec:
  assumes "xxhash_ok xx" "running_checksum_state_size xx \<le> len"
  shows "\<exists>buf c'. running_checksum_save xx v1 c len = Inr buf
    \<and> running_checksum_restore xx buf = Some c' \<and> goes_on_as xx c c'
    \<and> running_checksum_state_version xx buf = (if v1 then 1 else 2)
    \<and> (xx_version other \<noteq> xx_version xx \<or> xx_state_size other \<noteq> xx_state_size xx
         \<longrightarrow> running_checksum_restore other buf = None)
    \<and> (\<forall>junk. length junk \<noteq> length buf \<longrightarrow> running_checksum_restore xx junk = None)"
proof -
  let ?hdr = "\<lparr>hdr_magic = if v1 then CSUM_STATE_MAGIC_V1 else CSUM_STATE_MAGIC,
                hdr_xxh_version = xx_version xx, hdr_state_size = xx_state_size xx\<rparr>"
  let ?buf = "put_hdr ?hdr @ xx_freeze xx c"
  have len: "length (xx_freeze xx c) = unat (xx_state_size xx)" "goes_on_as xx c (xx_thaw xx (xx_freeze xx c))"
    using assms(1) by (simp_all add: xxhash_ok_def)
  have hdr: "get_hdr ?buf = ?hdr" by (rule get_put_hdr)
  have save: "running_checksum_save xx v1 c len = Inr ?buf"
    using assms(2) by (simp add: running_checksum_save_def Let_def)
  have "running_checksum_restore xx ?buf = Some (xx_thaw xx (xx_freeze xx c))"
    using len hdr by (simp add: running_checksum_restore_def running_checksum_state_size_def Let_def state_version_def)
  moreover have "running_checksum_state_version xx ?buf = (if v1 then 1 else 2)"
    using len hdr by (simp add: running_checksum_state_version_def running_checksum_state_size_def state_version_def)
  moreover have "running_checksum_restore other ?buf = None"
    if "xx_version other \<noteq> xx_version xx \<or> xx_state_size other \<noteq> xx_state_size xx"
    using hdr that by (auto simp: running_checksum_restore_def Let_def)
  moreover have "running_checksum_restore xx junk = None" if "length junk \<noteq> length ?buf" for junk
    using that len by (simp add: running_checksum_restore_def running_checksum_state_size_def)
  ultimately show ?thesis using save len(2) by blast
qed


text \<open>A hash that counts its input, whose states are eight bytes.\<close>

definition count_hash :: "u32 \<Rightarrow> xxhash" where
  "count_hash version = \<lparr>xx_hash128 = (\<lambda>bs. (of_nat (length bs), 0)), xx_hash64 = (\<lambda>bs. of_nat (length bs)),
     xx_version = version, xx_state_size = 8, xx_freeze = (\<lambda>c. le_bytes 8 (length c)),
     xx_thaw = (\<lambda>b. replicate (le_val b) 0)\<rparr>"

lemma count_hash_ok: "xxhash_ok (count_hash version)"
proof -
  have "(of_nat (n mod 256 ^ 8) :: u64) = of_nat n" for n :: nat
    by (simp add: word_unat_eq_iff unsigned_of_nat take_bit_eq_mod)
  then show ?thesis
    by (simp add: xxhash_ok_def goes_on_as_def count_hash_def finish_running_checksum_def
        add_to_running_checksum_def le_val_le_bytes)
qed


end
