(* ===== verification/ScanHash.thy ===== *)
theory ScanHash
  imports Fiemap Csum ScanWriter
begin

text \<open>
  Hashing one file (file_scan.c): the hole and preallocation tests over the extent map, the read
  buffer, the digests of blocks and extents, and the checkpoints that let an interrupted run go on.

  Offsets and sizes in the file are natural numbers: a file is shorter than \<open>2 ^ 63\<close> bytes and a
  buffer holds a megabyte, so no \<open>size_t\<close> sum wraps; they become words where the extent map is
  asked. A difference the code relies on not to be negative is behind the assertion the code has,
  whose failure is \<open>None\<close>. Allocations succeed. The operating system (reads, the clock, the interrupt
  flag), SQLite and xxHash are the parameters of an environment record.
\<close>

subsection \<open>Environment and state\<close>

record extent_csum =
  ec_loff :: u64
  ec_poff :: u64
  ec_len :: u64
  ec_digest :: digest

record block_csum =
  bc_loff :: nat
  bc_digest :: digest

record scan_checkpoint =
  cp_loff :: nat
  cp_size :: nat
  cp_mtime :: u64
  cp_ext_loff :: u64
  cp_ext_len :: u64
  cp_file_state :: "byte list"
  cp_ext_state :: "byte list option"

text \<open>One statement that writes to the hashfile.\<close>

datatype hash_row =
    ExtentRow int extent_csum
  | BlockRow int block_csum
  | CheckpointRow int scan_checkpoint
  | RemoveBlocksFrom int u64
  | RemoveExtentsFrom int u64
  | RemoveCheckpoint int
  | ScannedFileRow int digest u32 nat
  | AddFileFlags int u32
  | CopyExtents int int
  | CopyBlocks int int
  | CopyFileRow int int u32

record ('c, 'k) scan_env =
  se_api :: "('c, hash_row) sqlite"
  se_xx :: xxhash
  se_pread :: "nat \<Rightarrow> nat \<Rightarrow> 'k \<Rightarrow> byte list option \<times> 'k"
  se_elapsed :: "'k \<Rightarrow> int \<times> 'k"
  se_interrupted :: "'k \<Rightarrow> bool \<times> 'k"
  se_blocksize :: nat
  se_block_hash :: bool
  se_skip_zeroes :: bool
  se_only_whole_files :: bool
  se_old_hole_digests :: bool
  se_block_batch_max :: nat
  se_checkpoint_interval :: nat

record buffer =
  bf_buf :: "byte list"
  bf_size :: nat
  bf_dl_offset :: nat
  bf_dl_len :: nat
  bf_faked :: bool

text \<open>An extent row that is \<open>None\<close> has length zero; its other fields are never looked at.\<close>

record hashes =
  h_extents_count :: nat
  h_extents :: "extent_csum option list"
  h_blocks_count :: nat
  h_blocks :: "block_csum list"
  h_blocks_flushed :: nat
  h_fileid :: int

record scan_ctxt =
  sc_filesize :: nat
  sc_off :: nat
  sc_read_cap :: nat
  sc_fiemap :: fiemap
  sc_cursor :: nat
  sc_file_csum :: running_checksum
  sc_extent_csum :: "running_checksum option"

record ('c, 'k) scan_run =
  sr_writer :: "'c scan_writer"
  sr_os :: 'k
  sr_hashes :: hashes
  sr_ctxt :: scan_ctxt
  sr_buffer :: buffer

abbreviation "READ_BUF_LEN \<equiv> (1024 * 1024 :: nat)"

definition prepare_buffer :: buffer where
  "prepare_buffer = \<lparr>bf_buf = replicate READ_BUF_LEN 0, bf_size = READ_BUF_LEN, bf_dl_offset = 0,
     bf_dl_len = 0, bf_faked = False\<rparr>"

subsection \<open>Holes and preallocated areas\<close>

abbreviation "FIEMAP_SKIP_FLAGS \<equiv> FIEMAP_EXTENT_DATA_INLINE OR FIEMAP_EXTENT_UNWRITTEN"

definition ext_skip :: "fiemap_extent \<Rightarrow> bool" where
  "ext_skip e \<longleftrightarrow> fe_flags e AND FIEMAP_SKIP_FLAGS \<noteq> 0"

text \<open>\<open>get_extent(fm, off, &cur)\<close>: the extent, and the cursor left behind.\<close>

definition ext_from :: "fiemap \<Rightarrow> nat \<Rightarrow> nat \<Rightarrow> fiemap_extent option \<times> nat" where
  "ext_from fm off cur =
    (case get_extent fm (word_of_nat off) (Some cur) of (i, c) \<Rightarrow> (map_option (ext_at fm) i, the c))"

text \<open>The loops below step over one extent a turn, so the number of extents and one more is fuel enough;
  \<open>None\<close> is running out of it.\<close>

fun ignored_loop :: "nat \<Rightarrow> fiemap \<Rightarrow> nat \<Rightarrow> nat \<Rightarrow> nat \<Rightarrow> bool \<Rightarrow> bool option" where
  "ignored_loop 0 fm start stop cur skipped = None"
| "ignored_loop (Suc n) fm start stop cur skipped =
    (if start < stop
     then (case ext_from fm start cur of
             (None, cur') \<Rightarrow> Some skipped
           | (Some e, cur') \<Rightarrow>
               if stop \<le> unat (fe_logical e) then Some skipped
               else if \<not> ext_skip e then Some False
               else ignored_loop n fm (unat (fe_end e)) stop cur' True)
     else Some skipped)"

definition ext_fuel :: "fiemap \<Rightarrow> nat" where
  "ext_fuel fm = fm_mapped_extents fm + 2"

definition is_area_ignored :: "fiemap \<Rightarrow> nat \<Rightarrow> nat \<Rightarrow> nat \<Rightarrow> (bool \<times> nat) option" where
  "is_area_ignored fm start len cursor =
    map_option (\<lambda>r. (r, if start < start + len then snd (ext_from fm start cursor) else cursor))
      (ignored_loop (ext_fuel fm) fm start (start + len) cursor False)"

definition is_block_ignored :: "nat \<Rightarrow> fiemap \<Rightarrow> nat \<Rightarrow> nat \<Rightarrow> (bool \<times> nat) option" where
  "is_block_ignored blocksize fm off cursor = is_area_ignored fm off blocksize cursor"

definition block_is_hole :: "nat \<Rightarrow> fiemap_extent option \<Rightarrow> nat \<Rightarrow> bool" where
  "block_is_hole blocksize e off \<longleftrightarrow> (case e of None \<Rightarrow> True | Some e \<Rightarrow> off + blocksize \<le> unat (fe_logical e))"

definition hole_run_length :: "nat \<Rightarrow> scan_ctxt \<Rightarrow> nat \<times> scan_ctxt" where
  "hole_run_length blocksize ctxt =
    (case ext_from (sc_fiemap ctxt) (sc_off ctxt) (sc_cursor ctxt) of
       (e, cur) \<Rightarrow>
         (if \<not> block_is_hole blocksize e (sc_off ctxt) then 0
          else case e of
                 None \<Rightarrow> sc_filesize ctxt - sc_off ctxt
               | Some e \<Rightarrow> (unat (fe_logical e) div blocksize) * blocksize - sc_off ctxt,
          ctxt\<lparr>sc_cursor := cur\<rparr>))"

fun next_hole_loop :: "nat \<Rightarrow> nat \<Rightarrow> fiemap \<Rightarrow> nat \<Rightarrow> nat \<Rightarrow> nat \<Rightarrow> nat option" where
  "next_hole_loop 0 blocksize fm filesize cur b = None"
| "next_hole_loop (Suc n) blocksize fm filesize cur b =
    (case ext_from fm b cur of
       (e, cur') \<Rightarrow>
         if block_is_hole blocksize e b then Some b
         else let b' = ((unat (fe_end (the e)) + blocksize - 1) div blocksize) * blocksize
              in if filesize \<le> b' then Some filesize else next_hole_loop n blocksize fm filesize cur' b')"

definition next_hole_block :: "nat \<Rightarrow> scan_ctxt \<Rightarrow> nat \<Rightarrow> nat option" where
  "next_hole_block blocksize ctxt from =
    next_hole_loop (ext_fuel (sc_fiemap ctxt)) blocksize (sc_fiemap ctxt) (sc_filesize ctxt) (sc_cursor ctxt) from"

subsection \<open>Staging digests\<close>

definition ensure_hash_capacity :: "nat \<Rightarrow> nat \<Rightarrow> nat" where
  "ensure_hash_capacity nr index = (if index < nr then nr else if nr \<noteq> 0 then nr * 2 else 4)"

definition dbfile_store_block_hashes ::
  "('c, hash_row) sqlite \<Rightarrow> int \<Rightarrow> block_csum list \<Rightarrow> 'c scan_writer \<Rightarrow> int \<times> 'c scan_writer" where
  "dbfile_store_block_hashes api fileid blocks sw = unit_writes api (map (BlockRow fileid) blocks) sw"

text \<open>Rows of length zero are not stored.\<close>

definition dbfile_store_extent_hashes ::
  "('c, hash_row) sqlite \<Rightarrow> int \<Rightarrow> extent_csum option list \<Rightarrow> 'c scan_writer \<Rightarrow> int \<times> 'c scan_writer" where
  "dbfile_store_extent_hashes api fileid extents sw =
    unit_writes api (map (ExtentRow fileid \<circ> the) (filter (\<lambda>e. e \<noteq> None) extents)) sw"

definition dbfile_store_checkpoint ::
  "('c, hash_row) sqlite \<Rightarrow> int \<Rightarrow> scan_checkpoint \<Rightarrow> 'c scan_writer \<Rightarrow> int \<times> 'c scan_writer" where
  "dbfile_store_checkpoint api fileid cp sw = unit_writes api [CheckpointRow fileid cp] sw"

definition store_block_batch ::
  "('c, hash_row) sqlite \<Rightarrow> hashes \<Rightarrow> 'c scan_writer \<Rightarrow> int \<times> hashes \<times> 'c scan_writer" where
  "store_block_batch api h sw =
    (if h_blocks h = [] then (0, h, sw)
     else case dbfile_store_block_hashes api (h_fileid h) (h_blocks h) sw of
            (ret, sw') \<Rightarrow>
              if ret \<noteq> 0 then (ret, h, sw')
              else (0, h\<lparr>h_blocks_flushed := h_blocks_flushed h + length (h_blocks h), h_blocks := []\<rparr>, sw'))"

definition store_extent_batch ::
  "('c, hash_row) sqlite \<Rightarrow> hashes \<Rightarrow> 'c scan_writer \<Rightarrow> int \<times> hashes \<times> 'c scan_writer" where
  "store_extent_batch api h sw =
    (if h_extents h = [] then (0, h, sw)
     else case dbfile_store_extent_hashes api (h_fileid h) (h_extents h) sw of
            (ret, sw') \<Rightarrow> if ret \<noteq> 0 then (ret, h, sw') else (0, h\<lparr>h_extents := []\<rparr>, sw'))"

definition flush_block_hashes :: "('c, 'k) scan_env \<Rightarrow> ('c, 'k) scan_run \<Rightarrow> (int \<times> ('c, 'k) scan_run) option" where
  "flush_block_hashes env s =
    (if h_blocks (sr_hashes s) = [] then Some (0, s)
     else case se_elapsed env (sr_os s) of
       (now, k) \<Rightarrow>
         (case scan_write_begin (se_api env) now (sr_writer s) of
            None \<Rightarrow> None
          | Some (ret, sw) \<Rightarrow>
              if ret \<noteq> 0 then Some (ret, s\<lparr>sr_os := k, sr_writer := sw\<rparr>)
              else case store_block_batch (se_api env) (sr_hashes s) sw of
                     (ret, h, sw') \<Rightarrow>
                       if ret \<noteq> 0
                       then Some (ret, s\<lparr>sr_os := k, sr_hashes := h, sr_writer := scan_write_abort (se_api env) sw'\<rparr>)
                       else case se_elapsed env k of
                              (now', k') \<Rightarrow>
                                (case scan_write_end (se_api env) now' sw' of
                                   (ret, sw'') \<Rightarrow> Some (ret, s\<lparr>sr_os := k', sr_hashes := h, sr_writer := sw''\<rparr>))))"

definition add_block_hash ::
  "('c, 'k) scan_env \<Rightarrow> nat \<Rightarrow> digest \<Rightarrow> ('c, 'k) scan_run \<Rightarrow> (int \<times> ('c, 'k) scan_run) option" where
  "add_block_hash env loff digest s =
    (case (if se_block_batch_max env \<le> length (h_blocks (sr_hashes s)) then flush_block_hashes env s else Some (0, s)) of
       None \<Rightarrow> None
     | Some (ret, s1) \<Rightarrow>
         if ret \<noteq> 0 then Some (ret, s1)
         else let h = sr_hashes s1
              in Some (0, s1\<lparr>sr_hashes := h\<lparr>
                   h_blocks_count := ensure_hash_capacity (h_blocks_count h) (length (h_blocks h)),
                   h_blocks := h_blocks h @ [\<lparr>bc_loff = loff, bc_digest = digest\<rparr>]\<rparr>\<rparr>))"

definition process_block ::
  "('c, 'k) scan_env \<Rightarrow> byte list \<Rightarrow> nat \<Rightarrow> ('c, 'k) scan_run \<Rightarrow> (int \<times> ('c, 'k) scan_run) option" where
  "process_block env buf file_off s = add_block_hash env file_off (checksum_block (se_xx env) buf) s"

definition is_block_zeroed :: "byte list \<Rightarrow> bool" where
  "is_block_zeroed buf \<longleftrightarrow> take 4 buf = [0, 0, 0, 0] \<and> memcmp (take (length buf - 1) buf) (drop 1 buf) = 0"

text \<open>The bytes of the buffer from an offset on.\<close>

definition buf_at :: "buffer \<Rightarrow> nat \<Rightarrow> nat \<Rightarrow> byte list" where
  "buf_at b off len = take len (drop off (bf_buf b))"

text \<open>The loop over the whole blocks of the buffer; the first answer is the value returned early.\<close>

fun blocks_loop ::
  "('c, 'k) scan_env \<Rightarrow> nat \<Rightarrow> nat \<Rightarrow> nat \<Rightarrow> ('c, 'k) scan_run \<Rightarrow> (int \<times> ('c, 'k) scan_run) option" where
  "blocks_loop env 0 i file_off s = Some (0, s)"
| "blocks_loop env (Suc n) i file_off s =
    (case is_block_ignored (se_blocksize env) (sc_fiemap (sr_ctxt s)) file_off (sc_cursor (sr_ctxt s)) of
       None \<Rightarrow> None
     | Some (ignored, cur) \<Rightarrow>
         let s1 = s\<lparr>sr_ctxt := (sr_ctxt s)\<lparr>sc_cursor := cur\<rparr>\<rparr>;
             block = buf_at (sr_buffer s) (i * se_blocksize env) (se_blocksize env)
         in if \<not> ignored \<and> \<not> (se_skip_zeroes env \<and> is_block_zeroed block)
            then (case process_block env block file_off s1 of
                    None \<Rightarrow> None
                  | Some (ret, s2) \<Rightarrow>
                      if ret \<noteq> 0 then Some (ret, s2)
                      else blocks_loop env n (i + 1) (file_off + se_blocksize env) s2)
            else blocks_loop env n (i + 1) (file_off + se_blocksize env) s1)"

definition process_blocks :: "('c, 'k) scan_env \<Rightarrow> ('c, 'k) scan_run \<Rightarrow> (int \<times> ('c, 'k) scan_run) option" where
  "process_blocks env s =
    (let nb_blocks = bf_dl_len (sr_buffer s) div se_blocksize env
     in if \<not> se_block_hash env \<or> bf_faked (sr_buffer s) then Some (int (bf_dl_len (sr_buffer s)), s)
        else case blocks_loop env nb_blocks 0 (sc_off (sr_ctxt s)) s of
               None \<Rightarrow> None
             | Some (ret, s1) \<Rightarrow>
                 if ret \<noteq> 0 then Some (ret, s1) else Some (int (nb_blocks * se_blocksize env), s1))"

subsection \<open>Extents\<close>

text \<open>\<open>None\<close> is finishing a checksum that was never started.\<close>

definition store_extent :: "('c, 'k) scan_env \<Rightarrow> fiemap_extent \<Rightarrow> ('c, 'k) scan_run \<Rightarrow> ('c, 'k) scan_run option" where
  "store_extent env e s =
    (let h = (sr_hashes s)\<lparr>h_extents_count := ensure_hash_capacity (h_extents_count (sr_hashes s)) (length (h_extents (sr_hashes s)))\<rparr>
     in if ext_skip e then Some (s\<lparr>sr_hashes := h\<lparr>h_extents := h_extents h @ [None]\<rparr>\<rparr>)
        else case sc_extent_csum (sr_ctxt s) of
               None \<Rightarrow> None
             | Some c \<Rightarrow>
                 Some (s\<lparr>sr_hashes := h\<lparr>h_extents := h_extents h @ [Some \<lparr>ec_loff = fe_logical e,
                         ec_poff = fe_physical e, ec_len = fe_length e,
                         ec_digest = finish_running_checksum (se_xx env) c\<rparr>]\<rparr>,
                       sr_ctxt := (sr_ctxt s)\<lparr>sc_extent_csum := None\<rparr>\<rparr>))"

text \<open>Every turn steps at least a byte, so \<open>bytes + 1\<close> turns are enough; \<open>None\<close> is running out of them, or
  the assertion.\<close>

fun extents_loop ::
  "nat \<Rightarrow> ('c, 'k) scan_env \<Rightarrow> nat \<Rightarrow> nat \<Rightarrow> nat \<Rightarrow> ('c, 'k) scan_run \<Rightarrow> ('c, 'k) scan_run option" where
  "extents_loop 0 env bytes file_off buf_off s = None"
| "extents_loop (Suc n) env bytes file_off buf_off s =
    (if \<not> file_off < sc_off (sr_ctxt s) + bytes then Some s
     else case ext_from (sc_fiemap (sr_ctxt s)) file_off (sc_cursor (sr_ctxt s)) of
       (found, cur) \<Rightarrow>
         let s0 = s\<lparr>sr_ctxt := (sr_ctxt s)\<lparr>sc_cursor := cur\<rparr>\<rparr>
         in case found of
              None \<Rightarrow> Some (s0\<lparr>sr_ctxt := (sr_ctxt s0)\<lparr>sc_extent_csum := None\<rparr>\<rparr>)
            | Some e \<Rightarrow>
                if file_off < unat (fe_logical e) \<and> \<not> se_old_hole_digests env
                then let gap = min (unat (fe_logical e) - file_off) (bytes - buf_off)
                     in extents_loop n env bytes (file_off + gap) (buf_off + gap) s0
                else
                  let ext_end = unat (fe_end e);
                      to_add = (if sc_off (sr_ctxt s) + bytes < ext_end then bytes - buf_off else ext_end - file_off);
                      s1 = (if \<not> ext_skip e
                            then s0\<lparr>sr_ctxt := (sr_ctxt s0)\<lparr>sc_extent_csum := Some (add_to_running_checksum
                                   (case sc_extent_csum (sr_ctxt s0) of None \<Rightarrow> start_running_checksum | Some c \<Rightarrow> c)
                                   (buf_at (sr_buffer s) buf_off to_add))\<rparr>\<rparr>
                            else s0);
                      dummy = (if sc_filesize (sr_ctxt s) < ext_end then ext_end - sc_filesize (sr_ctxt s) else 0)
                  in if \<not> file_off + to_add \<le> sc_off (sr_ctxt s) + bytes then None
                     else case (if file_off + to_add + dummy = ext_end then store_extent env e s1 else Some s1) of
                            None \<Rightarrow> None
                          | Some s2 \<Rightarrow> extents_loop n env bytes (file_off + to_add) (buf_off + to_add) s2)"

definition process_extents :: "('c, 'k) scan_env \<Rightarrow> nat \<Rightarrow> ('c, 'k) scan_run \<Rightarrow> ('c, 'k) scan_run option" where
  "process_extents env bytes s = extents_loop (bytes + 1) env bytes (sc_off (sr_ctxt s)) 0 s"

subsection \<open>Filling the buffer\<close>

text \<open>The answer is what the C function returns: negative for a failed read, zero at the end of the
  file. \<open>None\<close> is an assertion.\<close>

definition fill_buffer :: "('c, 'k) scan_env \<Rightarrow> ('c, 'k) scan_run \<Rightarrow> (int \<times> ('c, 'k) scan_run) option" where
  "fill_buffer env s =
    (let b = sr_buffer s; ctxt = sr_ctxt s; fake = bf_size b - bf_size b mod se_blocksize env
     in case is_area_ignored (sc_fiemap ctxt) (sc_off ctxt) fake (sc_cursor ctxt) of
          None \<Rightarrow> None
        | Some (ignored, cur) \<Rightarrow>
            let ctxt1 = ctxt\<lparr>sc_cursor := cur\<rparr>
            in if ignored \<and> sc_off ctxt + fake \<le> sc_filesize ctxt
               then Some (if sc_filesize ctxt \<le> sc_off ctxt + fake then 0 else 1,
                      s\<lparr>sr_ctxt := ctxt1, sr_buffer := b\<lparr>bf_buf := replicate fake 0 @ drop fake (bf_buf b),
                           bf_dl_len := fake, bf_dl_offset := 0, bf_faked := True\<rparr>\<rparr>)
               else
                 let b1 = b\<lparr>bf_buf := buf_at b (bf_dl_offset b) (bf_dl_len b) @ drop (bf_dl_len b) (bf_buf b),
                            bf_dl_offset := 0, bf_faked := False\<rparr>
                 in case (if sc_read_cap ctxt \<le> sc_off ctxt then next_hole_block (se_blocksize env) ctxt1 (sc_off ctxt)
                          else Some (sc_read_cap ctxt)) of
                      None \<Rightarrow> None
                    | Some cap \<Rightarrow>
                        let ctxt2 = ctxt1\<lparr>sc_read_cap := cap\<rparr>; pos = sc_off ctxt + bf_dl_len b
                        in if \<not> pos \<le> cap then None
                           else
                             let want = min (bf_size b - bf_dl_len b) (cap - pos)
                             in if want = 0
                                then (if \<not> bf_dl_len b \<le> bf_size b then None
                                      else Some (if sc_filesize ctxt \<le> pos then 0 else int (bf_dl_len b),
                                             s\<lparr>sr_ctxt := ctxt2, sr_buffer := b1\<rparr>))
                                else case se_pread env want pos (sr_os s) of
                                       (None, k) \<Rightarrow> Some (- 1, s\<lparr>sr_os := k, sr_ctxt := ctxt2, sr_buffer := b1\<rparr>)
                                     | (Some bs, k) \<Rightarrow>
                                         if bs = [] then Some (0, s\<lparr>sr_os := k, sr_ctxt := ctxt2, sr_buffer := b1\<rparr>)
                                         else
                                           let len = bf_dl_len b + length bs
                                           in if \<not> len \<le> bf_size b then None
                                              else Some (if sc_filesize ctxt \<le> pos + length bs then 0 else int len,
                                                s\<lparr>sr_os := k, sr_ctxt := ctxt2, sr_buffer := b1\<lparr>
                                                  bf_buf := take (bf_dl_len b) (bf_buf b1) @ bs @ drop len (bf_buf b1),
                                                  bf_dl_len := len\<rparr>\<rparr>))"

subsection \<open>Checkpoints\<close>

text \<open>The offset, the file's running checksum and that of an extent in progress, frozen; the left
  answer is an early return.\<close>

definition checkpoint_of ::
  "('c, 'k) scan_env \<Rightarrow> u64 \<Rightarrow> scan_ctxt \<Rightarrow> (int + scan_checkpoint) \<times> scan_ctxt" where
  "checkpoint_of env mtime ctxt =
    (let freeze = (\<lambda>c. running_checksum_save (se_xx env) (se_old_hole_digests env) c (running_checksum_state_size (se_xx env)))
     in case freeze (sc_file_csum ctxt) of
          Inl ret \<Rightarrow> (Inl ret, ctxt)
        | Inr file_state \<Rightarrow>
            let cp = \<lparr>cp_loff = sc_off ctxt, cp_size = sc_filesize ctxt, cp_mtime = mtime, cp_ext_loff = 0, cp_ext_len = 0,
                      cp_file_state = file_state, cp_ext_state = None\<rparr>
            in (case sc_extent_csum ctxt of
                  None \<Rightarrow> (Inr cp, ctxt)
                | Some c \<Rightarrow>
                    (case ext_from (sc_fiemap ctxt) (sc_off ctxt) (sc_cursor ctxt) of
                       (None, cur) \<Rightarrow> (Inl (- EINVAL), ctxt\<lparr>sc_cursor := cur\<rparr>)
                     | (Some e, cur) \<Rightarrow>
                         (case freeze c of
                            Inl ret \<Rightarrow> Inl ret
                          | Inr ext_state \<Rightarrow>
                              Inr (cp\<lparr>cp_ext_loff := fe_logical e, cp_ext_len := fe_length e, cp_ext_state := Some ext_state\<rparr>),
                          ctxt\<lparr>sc_cursor := cur\<rparr>))))"

text \<open>The unit that stores it, with the rows it claims; it is flushed at once.\<close>

definition checkpoint_unit ::
  "('c, 'k) scan_env \<Rightarrow> scan_checkpoint \<Rightarrow> ('c, 'k) scan_run \<Rightarrow> (int \<times> ('c, 'k) scan_run) option" where
  "checkpoint_unit env cp s =
    (case se_elapsed env (sr_os s) of
       (now, k) \<Rightarrow>
         (case scan_write_begin (se_api env) now (sr_writer s) of
            None \<Rightarrow> None
          | Some (ret, sw) \<Rightarrow>
              if ret \<noteq> 0 then Some (ret, s\<lparr>sr_os := k, sr_writer := sw\<rparr>)
              else
                case store_extent_batch (se_api env) (sr_hashes s) sw of
                  (ret1, h1, sw1) \<Rightarrow>
                    (case (if ret1 = 0 then store_block_batch (se_api env) h1 sw1 else (ret1, h1, sw1)) of
                       (ret2, h2, sw2) \<Rightarrow>
                         (case (if ret2 = 0 then dbfile_store_checkpoint (se_api env) (h_fileid h2) cp sw2
                                else (ret2, sw2)) of
                            (ret3, sw3) \<Rightarrow>
                              if ret3 \<noteq> 0
                              then Some (ret3, s\<lparr>sr_os := k, sr_hashes := h2, sr_writer := scan_write_abort (se_api env) sw3\<rparr>)
                              else case scan_write_flush (se_api env) sw3 of
                                     (ret4, sw4) \<Rightarrow> Some (ret4, s\<lparr>sr_os := k, sr_hashes := h2, sr_writer := sw4\<rparr>)))))"

definition write_checkpoint ::
  "('c, 'k) scan_env \<Rightarrow> u64 \<Rightarrow> ('c, 'k) scan_run \<Rightarrow> (int \<times> ('c, 'k) scan_run) option" where
  "write_checkpoint env mtime s =
    (case checkpoint_of env mtime (sr_ctxt s) of
       (Inl ret, ctxt) \<Rightarrow> Some (ret, s\<lparr>sr_ctxt := ctxt\<rparr>)
     | (Inr cp, ctxt) \<Rightarrow> checkpoint_unit env cp (s\<lparr>sr_ctxt := ctxt\<rparr>))"

subsection \<open>The loop over the file\<close>

text \<open>
  How the loop of \<open>csum_whole_file\<close> ends: at the end of the file or because it moved (\<open>LoopDone\<close>), on a
  failed read or block, or on an interrupt. \<open>ckpt\<close> and \<open>enabled\<close> are \<open>last_checkpoint\<close> and
  \<open>checkpoints_enabled\<close>. One pass is the body once; its first answer is \<open>None\<close> to go round again.
\<close>

datatype scan_end = LoopDone | ReadFailed | BlocksFailed | LastBlockFailed | Interrupted

definition skip_hole :: "nat \<Rightarrow> ('c, 'k) scan_run \<Rightarrow> ('c, 'k) scan_run" where
  "skip_hole hole s =
    (let ctxt = sr_ctxt s
     in s\<lparr>sr_ctxt := ctxt\<lparr>sc_file_csum := add_to_running_checksum (sc_file_csum ctxt)
            (le_bytes 8 (sc_off ctxt) @ le_bytes 8 hole), sc_off := sc_off ctxt + hole\<rparr>\<rparr>)"

definition consume :: "('c, 'k) scan_env \<Rightarrow> nat \<Rightarrow> ('c, 'k) scan_run \<Rightarrow> ('c, 'k) scan_run option" where
  "consume env bytes s =
    (let ctxt = sr_ctxt s;
         s1 = s\<lparr>sr_ctxt := ctxt\<lparr>sc_file_csum := add_to_running_checksum (sc_file_csum ctxt) (buf_at (sr_buffer s) 0 bytes)\<rparr>\<rparr>
     in case (if se_only_whole_files env then Some s1 else process_extents env bytes s1) of
          None \<Rightarrow> None
        | Some s2 \<Rightarrow>
            Some (s2\<lparr>sr_buffer := (sr_buffer s2)\<lparr>bf_dl_offset := bytes, bf_dl_len := bf_dl_len (sr_buffer s2) - bytes\<rparr>,
                     sr_ctxt := (sr_ctxt s2)\<lparr>sc_off := sc_off (sr_ctxt s2) + bytes\<rparr>\<rparr>))"

text \<open>What follows a pass that has not reached the end of the file: the interrupt and the checkpoint.\<close>

definition after_pass ::
  "('c, 'k) scan_env \<Rightarrow> u64 \<Rightarrow> nat \<Rightarrow> bool \<Rightarrow> ('c, 'k) scan_run \<Rightarrow> (scan_end option \<times> ('c, 'k) scan_run \<times> nat \<times> bool) option"
where
  "after_pass env mtime ckpt enabled s =
    (case se_interrupted env (sr_os s) of
       (intr, k) \<Rightarrow>
         let s1 = s\<lparr>sr_os := k\<rparr>; lost = filescan_batch_lost (sr_writer s)
         in if intr \<or> lost
            then (if enabled \<and> ckpt < sc_off (sr_ctxt s) \<and> \<not> lost
                  then map_option (\<lambda>(ret, s2). (Some Interrupted, s2, ckpt, enabled)) (write_checkpoint env mtime s1)
                  else Some (Some Interrupted, s1, ckpt, enabled))
            else if \<not> enabled \<or> sc_off (sr_ctxt s) - ckpt < se_checkpoint_interval env
            then Some (None, s1, ckpt, enabled)
            else (case write_checkpoint env mtime s1 of
                    None \<Rightarrow> None
                  | Some (ret, s2) \<Rightarrow>
                      if ret \<noteq> 0 then Some (None, s2, ckpt, False)
                      else Some (None, s2, sc_off (sr_ctxt s2), enabled)))"

definition scan_pass ::
  "('c, 'k) scan_env \<Rightarrow> u64 \<Rightarrow> nat \<Rightarrow> bool \<Rightarrow> ('c, 'k) scan_run \<Rightarrow> (scan_end option \<times> ('c, 'k) scan_run \<times> nat \<times> bool) option"
where
  "scan_pass env mtime ckpt enabled s =
    (case hole_run_length (se_blocksize env) (sr_ctxt s) of
       (hole, ctxt) \<Rightarrow>
         let s0 = s\<lparr>sr_ctxt := ctxt\<rparr>
         in if hole \<noteq> 0 then Some (None, skip_hole hole s0, ckpt, enabled)
            else case fill_buffer env s0 of
              None \<Rightarrow> None
            | Some (ret, s1) \<Rightarrow>
                if ret < 0 then Some (Some ReadFailed, s1, ckpt, enabled)
                else let eof = (ret = 0)
                     in case process_blocks env s1 of
                          None \<Rightarrow> None
                        | Some (processed, s2) \<Rightarrow>
                            if processed < 0 then Some (Some BlocksFailed, s2, ckpt, enabled)
                            else
                              (case (if eof \<and> nat processed < bf_dl_len (sr_buffer s2)
                                     then map_option (\<lambda>(ret, s3). (ret, bf_dl_len (sr_buffer s2), s3))
                                            (process_block env
                                              (buf_at (sr_buffer s2) (nat processed) (bf_dl_len (sr_buffer s2) - nat processed))
                                              (sc_off (sr_ctxt s2) + nat processed) s2)
                                     else Some (0, nat processed, s2)) of
                                 None \<Rightarrow> None
                               | Some (ret, bytes, s3) \<Rightarrow>
                                   if ret \<noteq> 0 then Some (Some LastBlockFailed, s3, ckpt, enabled)
                                   else case consume env bytes s3 of
                                          None \<Rightarrow> None
                                        | Some s4 \<Rightarrow>
                                            if eof then Some (Some LoopDone, s4, ckpt, enabled)
                                            else after_pass env mtime ckpt enabled s4))"

fun scan_loop ::
  "nat \<Rightarrow> ('c, 'k) scan_env \<Rightarrow> u64 \<Rightarrow> nat \<Rightarrow> bool \<Rightarrow> ('c, 'k) scan_run \<Rightarrow> (scan_end \<times> ('c, 'k) scan_run \<times> nat \<times> bool) option"
where
  "scan_loop 0 env mtime ckpt enabled s = None"
| "scan_loop (Suc n) env mtime ckpt enabled s =
    (if \<not> sc_off (sr_ctxt s) < sc_filesize (sr_ctxt s) then Some (LoopDone, s, ckpt, enabled)
     else case scan_pass env mtime ckpt enabled s of
            None \<Rightarrow> None
          | Some (Some e, s', ckpt', enabled') \<Rightarrow> Some (e, s', ckpt', enabled')
          | Some (None, s', ckpt', enabled') \<Rightarrow> scan_loop n env mtime ckpt' enabled' s')"

end
