(* ===== verification/ScanExtents.thy ===== *)
theory ScanExtents
  imports ScanHash
begin

text \<open>
  The hashing of \<open>ScanHash\<close> over an extent map the kernel keeps its promises about (\<open>fm_wf\<close>): what the
  tests for holes and preallocated areas answer, and what one buffer's pass over the extents stages,
  compared with the rows the extents of the map ought to have.
\<close>

subsection \<open>The extent at an offset\<close>

abbreviation exts :: "fiemap \<Rightarrow> fiemap_extent list" where
  "exts fm \<equiv> fm_extents fm"

definition next_ext :: "fiemap \<Rightarrow> nat \<Rightarrow> fiemap_extent option" where
  "next_ext fm off = find (\<lambda>e. off < nhi e) (exts fm)"

lemma find_index: "map_option ((!) xs) (find (\<lambda>j. P (xs ! j)) [0 ..< length xs]) = find P xs"
proof (induction xs)
  case (Cons x xs)
  have shift: "find (\<lambda>j. P ((x # xs) ! j)) (map Suc ys) = map_option Suc (find (\<lambda>j. P (xs ! j)) ys)" for ys
    by (induction ys) auto
  have "[0 ..< length (x # xs)] = 0 # map Suc [0 ..< length xs]" by (simp add: upt_conv_Cons map_Suc_upt del: upt_Suc)
  then show ?case
    using Cons by (simp add: shift option.map_comp comp_def del: upt_Suc)
qed simp

lemma unat_u64_of_nat: "off < 2 ^ 64 \<Longrightarrow> unat (word_of_nat off :: u64) = off"
  by (simp add: unsigned_of_nat take_bit_nat_eq_self)

lemma ext_from_next: "fm_wf fm \<Longrightarrow> off < 2 ^ 64 \<Longrightarrow> fst (ext_from fm off cur) = next_ext fm off"
  using get_extent_find [of fm "word_of_nat off" "Some cur"] find_index [of "exts fm" "\<lambda>e. off < nhi e"]
  by (simp add: ext_from_def next_ext_def split_def fm_wf_len unat_u64_of_nat)

lemma fm_wf_ext:
  assumes "fm_wf fm" "e \<in> set (exts fm)"
  shows "unat (fe_end e) = nhi e" "nlo e < nhi e" "nhi e < 2 ^ 64"
proof -
  obtain i where "i < length (exts fm)" "exts fm ! i = e" using assms(2) by (auto simp: in_set_conv_nth)
  with fm_wf_nth [OF assms(1), of i] show "unat (fe_end e) = nhi e" "nlo e < nhi e" "nhi e < 2 ^ 64"
    by (simp_all add: fm_wf_len [OF assms(1)])
qed

lemma next_ext_None: "next_ext fm off = None \<longleftrightarrow> (\<forall>e \<in> set (exts fm). nhi e \<le> off)"
  by (auto simp: next_ext_def find_None_iff not_less)

lemma next_ext_split:
  assumes "fm_wf fm" "next_ext fm off = Some e"
  shows "\<exists>xs ys. exts fm = xs @ e # ys \<and> (\<forall>x \<in> set xs. nhi x \<le> off) \<and> (\<forall>y \<in> set ys. nhi e \<le> nlo y)
    \<and> off < nhi e"
proof -
  obtain i where i: "i < length (exts fm)" "off < nhi (exts fm ! i)" "e = exts fm ! i"
    "\<forall>j < i. \<not> off < nhi (exts fm ! j)"
    using assms(2) by (auto simp: next_ext_def find_Some_iff)
  let ?xs = "take i (exts fm)" and ?ys = "drop (Suc i) (exts fm)"
  have split: "exts fm = ?xs @ e # ?ys" unfolding i(3) by (rule id_take_nth_drop [OF i(1)])
  have "sorted_wrt (\<lambda>a b. nhi a \<le> nlo b) (exts fm)" using assms(1) by (simp add: fm_wf_def recs_wf_def)
  then have "sorted_wrt (\<lambda>a b. nhi a \<le> nlo b) (?xs @ e # ?ys)" by (simp only: split [symmetric])
  then have "\<forall>y \<in> set ?ys. nhi e \<le> nlo y" by (simp only: sorted_wrt_append sorted_wrt.simps) blast
  moreover have "\<forall>x \<in> set ?xs. nhi x \<le> off"
    using i(1,4) by (auto simp: in_set_conv_nth not_less)
  ultimately show ?thesis
    using split i(2,3) by blast
qed

lemma next_ext_in: "next_ext fm off = Some e \<Longrightarrow> e \<in> set (exts fm) \<and> off < nhi e"
  by (auto simp: next_ext_def find_Some_iff)

text \<open>An extent that ends after the offset is the one found, or lies behind it.\<close>

lemma next_ext_first:
  assumes "fm_wf fm" "next_ext fm off = Some e" "x \<in> set (exts fm)" "off < nhi x"
  shows "x = e \<or> nhi e \<le> nlo x"
  using next_ext_split [OF assms(1,2)] assms(3,4) by force

lemma next_ext_same:
  assumes "next_ext fm off = Some e" "off \<le> x" "x < nhi e"
  shows "next_ext fm x = Some e"
proof -
  obtain i where "i < length (exts fm)" "off < nhi (exts fm ! i)" "e = exts fm ! i" "\<forall>j < i. \<not> off < nhi (exts fm ! j)"
    using assms(1) by (auto simp: next_ext_def find_Some_iff)
  with assms(2,3) show ?thesis
    unfolding next_ext_def find_Some_iff by (intro exI [of _ i]) (auto simp: not_less intro: order.trans)
qed

text \<open>How many extents are still ahead: the measure of the loops over the map.\<close>

definition ahead :: "fiemap \<Rightarrow> nat \<Rightarrow> nat" where
  "ahead fm off = length (filter (\<lambda>e. off < nhi e) (exts fm))"

lemma ahead_less_fuel: "fm_wf fm \<Longrightarrow> ahead fm off < ext_fuel fm"
  using length_filter_le [of "\<lambda>e. off < nhi e" "exts fm"]
  by (simp add: ahead_def ext_fuel_def fm_wf_len le_imp_less_Suc less_SucI)

lemma ahead_step:
  assumes "next_ext fm off = Some e" "nhi e \<le> off'"
  shows "ahead fm off' < ahead fm off"
proof -
  have e: "e \<in> set (exts fm)" "off < nhi e" using next_ext_in [OF assms(1)] by auto
  have le: "off \<le> off'" using e assms(2) by simp
  have "filter (\<lambda>e. off' < nhi e) (exts fm) = filter (\<lambda>e. off' < nhi e) (filter (\<lambda>e. off < nhi e) (exts fm))"
    using le by (auto simp: filter_filter intro!: filter_cong)
  moreover have "length (filter (\<lambda>e. off' < nhi e) (filter (\<lambda>e. off < nhi e) (exts fm)))
      < length (filter (\<lambda>e. off < nhi e) (exts fm))"
    using e assms(2) by (intro length_filter_less [of e]) auto
  ultimately show ?thesis by (simp add: ahead_def)
qed

subsection \<open>Areas without data\<close>

definition in_data :: "fiemap \<Rightarrow> nat \<Rightarrow> bool" where
  "in_data fm x \<longleftrightarrow> (\<exists>e \<in> set (exts fm). \<not> ext_skip e \<and> nlo e \<le> x \<and> x < nhi e)"

lemma ignored_loop_spec:
  assumes wf: "fm_wf fm"
  shows "start < 2 ^ 64 \<Longrightarrow> ahead fm start < n \<Longrightarrow>
    \<exists>r. ignored_loop n fm start stop cur skipped = Some r \<and> (r \<longrightarrow> (\<forall>x. start \<le> x \<and> x < stop \<longrightarrow> \<not> in_data fm x))"
proof (induction n arbitrary: start cur skipped)
  case 0
  then show ?case by simp
next
  case (Suc n)
  obtain found cur' where f: "ext_from fm start cur = (found, cur')" by fastforce
  then have found: "found = next_ext fm start" using ext_from_next [OF wf Suc.prems(1), of cur] by simp
  show ?case
  proof (cases "start < stop")
    case False
    then show ?thesis by auto
  next
    case lt: True
    show ?thesis
    proof (cases found)
      case None
      then have "\<not> in_data fm x" if "start \<le> x" for x
        using found that next_ext_None [of fm start] by (auto simp: in_data_def)
      then show ?thesis using lt f None by simp
    next
      case (Some e)
      note e = next_ext_in [OF found [symmetric, unfolded Some]]
      note w = fm_wf_ext [OF wf conjunct1 [OF e]]
      have first: "x = e \<or> nhi e \<le> nlo x" if "x \<in> set (exts fm)" "start < nhi x" for x
        using next_ext_first [OF wf found [symmetric, unfolded Some] that] .
      show ?thesis
      proof (cases "stop \<le> nlo e")
        case True
        have "\<not> in_data fm x" if x: "start \<le> x" "x < stop" for x
        proof
          assume "in_data fm x"
          then obtain y where y: "y \<in> set (exts fm)" "nlo y \<le> x" "x < nhi y" by (auto simp: in_data_def)
          then have "nlo e \<le> nlo y" using first [of y] x w(2) by auto
          with y x True show False by simp
        qed
        with lt f Some True show ?thesis by simp
      next
        case False
        show ?thesis
        proof (cases "ext_skip e")
          case no: False
          with lt f Some False show ?thesis by (intro exI [of _ False]) simp
        next
          case True
          have less: "ahead fm (nhi e) < n" "nhi e < 2 ^ 64"
            using ahead_step [OF found [symmetric, unfolded Some], of "nhi e"] Suc.prems(2) w by auto
          obtain r where r: "ignored_loop n fm (nhi e) stop cur' True = Some r"
            "r \<longrightarrow> (\<forall>x. nhi e \<le> x \<and> x < stop \<longrightarrow> \<not> in_data fm x)"
            using Suc.IH [OF less(2,1), of cur' True] by blast
          have "\<not> in_data fm x" if x: r "start \<le> x" "x < stop" for x
          proof
            assume "in_data fm x"
            then obtain y where y: "y \<in> set (exts fm)" "\<not> ext_skip y" "nlo y \<le> x" "x < nhi y"
              by (auto simp: in_data_def)
            then have "nhi e \<le> nlo y" using first [of y] x True by auto
            then have "nhi e \<le> x" using y by simp
            with r(2) x y show False by (auto simp: in_data_def)
          qed
          with lt f Some False True r(1) w(1) show ?thesis by simp
        qed
      qed
    qed
  qed
qed

lemma is_area_ignored_spec:
  assumes "fm_wf fm" "start < 2 ^ 64"
  shows "\<exists>r cur'. is_area_ignored fm start len cur = Some (r, cur')
    \<and> (r \<longrightarrow> (\<forall>x. start \<le> x \<and> x < start + len \<longrightarrow> \<not> in_data fm x))"
  using ignored_loop_spec [OF assms ahead_less_fuel [OF assms(1)], of "start + len" cur False]
  by (auto simp: is_area_ignored_def)

subsection \<open>Blocks without any extent\<close>

lemma round_up: "0 < bs \<Longrightarrow> x \<le> ((x + bs - 1) div bs) * bs" for x bs :: nat
proof -
  assume "0 < bs"
  have "(x + bs - 1) div bs * bs + (x + bs - 1) mod bs = x + bs - 1" by simp
  moreover have "(x + bs - 1) mod bs < bs" using \<open>0 < bs\<close> by simp
  ultimately show ?thesis by linarith
qed

text \<open>No block of the grid between two offsets is a hole.\<close>

definition nohole :: "nat \<Rightarrow> fiemap \<Rightarrow> nat \<Rightarrow> nat \<Rightarrow> bool" where
  "nohole bs fm lo hi \<longleftrightarrow> (\<forall>b. lo \<le> b \<and> b < hi \<and> b mod bs = 0 \<longrightarrow> \<not> block_is_hole bs (next_ext fm b) b)"

lemma next_hole_loop_spec:
  assumes wf: "fm_wf fm" and bs: "0 < bs" and size: "filesize < 2 ^ 64"
  shows "b < filesize \<Longrightarrow> ahead fm b < n \<Longrightarrow>
    \<exists>r. next_hole_loop n bs fm filesize cur b = Some r \<and> b \<le> r \<and> r \<le> filesize
      \<and> (r = b \<longrightarrow> block_is_hole bs (next_ext fm b) b) \<and> (b mod bs = 0 \<longrightarrow> r mod bs = 0 \<or> r = filesize)
      \<and> (b mod bs = 0 \<longrightarrow> nohole bs fm b r)"
proof (induction n arbitrary: b cur)
  case 0
  then show ?case by simp
next
  case (Suc n)
  obtain found cur' where f: "ext_from fm b cur = (found, cur')" by fastforce
  have "b < 2 ^ 64" using Suc.prems size by simp
  then have found: "found = next_ext fm b" using ext_from_next [OF wf, of b cur] f by simp
  show ?case
  proof (cases "block_is_hole bs found b")
    case True
    with f found Suc.prems show ?thesis by (auto simp: nohole_def)
  next
    case False
    then obtain e where e: "found = Some e" by (cases found) (auto simp: block_is_hole_def)
    note ne = found [symmetric, unfolded e]
    note w = fm_wf_ext [OF wf conjunct1 [OF next_ext_in [OF ne]]]
    define b' where "b' = (nhi e + bs - 1) div bs * bs"
    have b': "nhi e \<le> b'" "b' mod bs = 0" using round_up [OF bs] by (simp_all add: b'_def)
    have past: "b < b'" using next_ext_in [OF ne] b'(1) by simp
    have lo: "nlo e < b + bs" using False e by (simp add: block_is_hole_def)
    have skipped: "\<not> block_is_hole bs (next_ext fm x) x" if x: "b \<le> x" "x < b'" "x mod bs = 0" "b mod bs = 0" for x
    proof -
      define q where "q = x div bs"
      have q: "x = q * bs" using x(3) div_mult_mod_eq [of x bs] unfolding q_def by linarith
      have "x < nhi e"
      proof (rule ccontr)
        assume "\<not> x < nhi e"
        then have "nhi e + bs - 1 \<le> bs * q + (bs - 1)" using bs q mult.commute [of bs q] by linarith
        then have "(nhi e + bs - 1) div bs \<le> (bs * q + (bs - 1)) div bs" by (rule div_le_mono)
        also have "(bs * q + (bs - 1)) div bs = q"
          using div_mult_self2 [of bs "bs - 1" q] bs by (simp only: add.commute) simp
        finally have "b' \<le> x" unfolding b'_def q by (rule mult_le_mono1)
        with x(2) show False by simp
      qed
      then have "next_ext fm x = Some e" by (rule next_ext_same [OF ne x(1)])
      then show ?thesis using lo x by (simp add: block_is_hole_def)
    qed
    show ?thesis
    proof (cases "filesize \<le> b'")
      case True
      then have "next_hole_loop (Suc n) bs fm filesize cur b = Some filesize"
        using f False e w(1) by (simp add: b'_def)
      moreover have "nohole bs fm b filesize" if "b mod bs = 0"
        using skipped True that by (auto simp: nohole_def)
      ultimately show ?thesis using Suc.prems(1) by auto
    next
      case more: False
      have "ahead fm b' < n" using ahead_step [OF ne b'(1)] Suc.prems(2) by simp
      from Suc.IH [OF _ this, of cur'] more obtain r where r: "next_hole_loop n bs fm filesize cur' b' = Some r"
        "b' \<le> r" "r \<le> filesize" "r mod bs = 0 \<or> r = filesize" "nohole bs fm b' r"
        using b'(2) by auto
      have "nohole bs fm b r" if "b mod bs = 0"
        using skipped r(5) that unfolding nohole_def by (metis not_le)
      moreover have "next_hole_loop (Suc n) bs fm filesize cur b = Some r"
        using f False e w(1) more r(1) by (simp add: b'_def)
      ultimately show ?thesis using r past by (intro exI [of _ r]) simp
    qed
  qed
qed

lemma next_hole_block_spec:
  assumes "fm_wf (sc_fiemap ctxt)" "0 < bs" "sc_filesize ctxt < 2 ^ 64" "b < sc_filesize ctxt"
    and "\<not> block_is_hole bs (next_ext (sc_fiemap ctxt) b) b"
  shows "\<exists>r. next_hole_block bs ctxt b = Some r \<and> b < r \<and> r \<le> sc_filesize ctxt
    \<and> (b mod bs = 0 \<longrightarrow> (r mod bs = 0 \<or> r = sc_filesize ctxt) \<and> nohole bs (sc_fiemap ctxt) b r)"
  using next_hole_loop_spec [OF assms(1-4) ahead_less_fuel [OF assms(1)], of "sc_cursor ctxt"] assms(5)
  unfolding next_hole_block_def by (auto simp: le_less)

text \<open>Where the hole at an offset ends, in whole blocks.\<close>

definition hole_end :: "nat \<Rightarrow> fiemap \<Rightarrow> nat \<Rightarrow> nat \<Rightarrow> nat" where
  "hole_end bs fm n p = (case next_ext fm p of None \<Rightarrow> n | Some e \<Rightarrow> nlo e div bs * bs)"

lemma hole_run_length_spec:
  assumes wf: "fm_wf (sc_fiemap ctxt)" and bs: "0 < bs" and off: "sc_off ctxt < sc_filesize ctxt" "sc_filesize ctxt < 2 ^ 64"
  shows "\<exists>hole cur. hole_run_length bs ctxt = (hole, ctxt\<lparr>sc_cursor := cur\<rparr>)
    \<and> (hole = 0 \<longleftrightarrow> \<not> block_is_hole bs (next_ext (sc_fiemap ctxt) (sc_off ctxt)) (sc_off ctxt))
    \<and> (\<forall>x. sc_off ctxt \<le> x \<and> x < sc_off ctxt + hole \<longrightarrow> (\<forall>e \<in> set (exts (sc_fiemap ctxt)). \<not> (nlo e \<le> x \<and> x < nhi e)))
    \<and> (hole \<noteq> 0 \<longrightarrow> (sc_off ctxt + hole) mod bs = 0 \<or> sc_off ctxt + hole = sc_filesize ctxt)
    \<and> (hole \<noteq> 0 \<longrightarrow> sc_off ctxt + hole = hole_end bs (sc_fiemap ctxt) (sc_filesize ctxt) (sc_off ctxt))"
proof -
  let ?fm = "sc_fiemap ctxt" and ?off = "sc_off ctxt"
  obtain found cur where f: "ext_from ?fm ?off (sc_cursor ctxt) = (found, cur)" by fastforce
  have found: "found = next_ext ?fm ?off" using ext_from_next [OF wf, of ?off "sc_cursor ctxt"] f off by simp
  show ?thesis
  proof (cases found)
    case None
    have "\<forall>e \<in> set (exts ?fm). \<not> (nlo e \<le> x \<and> x < nhi e)" if "?off \<le> x" for x
      using that found None next_ext_None [of ?fm ?off] by fastforce
    then show ?thesis
      using f None found off by (auto simp: hole_run_length_def block_is_hole_def hole_end_def)
  next
    case (Some e)
    show ?thesis
    proof (cases "?off + bs \<le> nlo e")
      case False
      then show ?thesis using f Some found by (auto simp: hole_run_length_def block_is_hole_def)
    next
      case True
      define b where "b = nlo e div bs * bs"
      have b: "b \<le> nlo e" "nlo e < b + bs" "b mod bs = 0"
        using bs by (simp_all add: b_def) (metis add.commute div_mult_mod_eq mod_less_divisor nat_add_left_cancel_less)
      have "\<forall>y \<in> set (exts ?fm). \<not> (nlo y \<le> x \<and> x < nhi y)" if x: "?off \<le> x" "x < b" for x
      proof
        fix y assume y: "y \<in> set (exts ?fm)"
        show "\<not> (nlo y \<le> x \<and> x < nhi y)"
        proof
          assume a: "nlo y \<le> x \<and> x < nhi y"
          then have "?off < nhi y" using x by simp
          from next_ext_first [OF wf found [symmetric, unfolded Some] y this] a x b(1)
            fm_wf_ext(2) [OF wf conjunct1 [OF next_ext_in [OF found [symmetric, unfolded Some]]]]
          show False by auto
        qed
      qed
      then show ?thesis
        using f Some found True b by (auto simp: hole_run_length_def block_is_hole_def hole_end_def b_def [symmetric])
    qed
  qed
qed

subsection \<open>The rows of a file\<close>

text \<open>
  \<open>fin\<close> is where an extent ends within the file. \<open>rows\<close> are the rows of the extents that end past
  \<open>base\<close> and no further than \<open>p\<close>; \<open>inflight\<close> is the extent a digest is in progress for at \<open>p\<close>.
\<close>

definition fin :: "nat \<Rightarrow> fiemap_extent \<Rightarrow> nat" where
  "fin sz e = min (nhi e) sz"

definition slice :: "byte list \<Rightarrow> nat \<Rightarrow> nat \<Rightarrow> byte list" where
  "slice c lo hi = take (hi - lo) (drop lo c)"

definition row :: "xxhash \<Rightarrow> byte list \<Rightarrow> fiemap_extent \<Rightarrow> extent_csum option" where
  "row xx c e =
    (if ext_skip e then None
     else Some \<lparr>ec_loff = fe_logical e, ec_poff = fe_physical e, ec_len = fe_length e,
            ec_digest = finish_running_checksum xx (slice c (nlo e) (fin (length c) e))\<rparr>)"

definition rows :: "xxhash \<Rightarrow> byte list \<Rightarrow> fiemap \<Rightarrow> nat \<Rightarrow> nat \<Rightarrow> extent_csum option list" where
  "rows xx c fm base p =
    map (row xx c) (filter (\<lambda>e. base < fin (length c) e \<and> fin (length c) e \<le> p \<and> nlo e < length c) (exts fm))"

definition inflight :: "nat \<Rightarrow> fiemap \<Rightarrow> nat \<Rightarrow> fiemap_extent option" where
  "inflight sz fm p = find (\<lambda>e. \<not> ext_skip e \<and> nlo e < p \<and> p < fin sz e) (exts fm)"

definition partial :: "byte list \<Rightarrow> fiemap \<Rightarrow> nat \<Rightarrow> running_checksum option" where
  "partial c fm p = map_option (\<lambda>e. slice c (nlo e) p) (inflight (length c) fm p)"

lemma slice_append: "a \<le> b \<Longrightarrow> b \<le> d \<Longrightarrow> slice c a b @ slice c b d = slice c a d"
proof -
  assume "a \<le> b" "b \<le> d"
  then have "slice c a d = take ((b - a) + (d - b)) (drop a c)" by (simp add: slice_def)
  also have "\<dots> = take (b - a) (drop a c) @ take (d - b) (drop (b - a) (drop a c))" by (rule take_add)
  finally show ?thesis using \<open>a \<le> b\<close> by (simp add: slice_def)
qed

lemma length_slice [simp]: "hi \<le> length c \<Longrightarrow> length (slice c lo hi) = hi - lo"
  by (simp add: slice_def)

lemma slice_self [simp]: "slice c p p = []"
  by (simp add: slice_def)

lemma rows_self [simp]: "rows xx c fm p p = []"
  by (simp add: rows_def filter_empty_conv)

lemma rows_gap:
  assumes "\<And>e. e \<in> set (exts fm) \<Longrightarrow> nlo e < length c \<Longrightarrow> \<not> (p < fin (length c) e \<and> fin (length c) e \<le> p')" "p \<le> p'"
  shows "rows xx c fm base p' = rows xx c fm base p"
proof -
  have "filter (\<lambda>e. base < fin (length c) e \<and> fin (length c) e \<le> p' \<and> nlo e < length c) (exts fm)
      = filter (\<lambda>e. base < fin (length c) e \<and> fin (length c) e \<le> p \<and> nlo e < length c) (exts fm)"
    using assms by (intro filter_cong refl) (meson le_trans not_le)
  then show ?thesis by (simp add: rows_def)
qed

lemma rows_step:
  assumes wf: "fm_wf fm" and e: "next_ext fm p = Some e" "nlo e \<le> p" and base: "base \<le> p" and p: "p < length c"
  shows "rows xx c fm base (fin (length c) e) = rows xx c fm base p @ [row xx c e]"
proof -
  obtain xs ys where s: "exts fm = xs @ e # ys" "\<forall>x \<in> set xs. nhi x \<le> p" "\<forall>y \<in> set ys. nhi e \<le> nlo y" "p < nhi e"
    using next_ext_split [OF wf e(1)] by blast
  let ?n = "length c"
  have fe: "p < fin ?n e" using s(4) p by (simp add: fin_def)
  have "filter (\<lambda>e'. base < fin ?n e' \<and> fin ?n e' \<le> fin ?n e \<and> nlo e' < ?n) xs
      = filter (\<lambda>e'. base < fin ?n e' \<and> fin ?n e' \<le> p \<and> nlo e' < ?n) xs"
    using s(2) fe by (intro filter_cong refl) (auto simp: fin_def)
  moreover have "filter (\<lambda>e'. base < fin ?n e' \<and> fin ?n e' \<le> fin ?n e \<and> nlo e' < ?n) ys = []"
    using s(1,3) fm_wf_ext(2) [OF wf] by (fastforce simp: filter_empty_conv fin_def)
  moreover have "filter (\<lambda>e'. base < fin ?n e' \<and> fin ?n e' \<le> p \<and> nlo e' < ?n) ys = []"
    using s(1,3,4) fm_wf_ext(2) [OF wf] p by (fastforce simp: filter_empty_conv fin_def)
  ultimately show ?thesis
    using fe base e(2) p unfolding rows_def s(1) by simp
qed

lemma inflight_gap:
  assumes "\<And>e. e \<in> set (exts fm) \<Longrightarrow> \<not> (nlo e < p \<and> p < nhi e)"
  shows "inflight n fm p = None"
  using assms by (auto simp: inflight_def find_None_iff fin_def)

lemma find_append: "find P (xs @ ys) = (case find P xs of None \<Rightarrow> find P ys | Some x \<Rightarrow> Some x)"
  by (induction xs) auto

text \<open>At an offset inside an extent, or at its start, only that extent can be in flight.\<close>

lemma inflight_inside:
  assumes wf: "fm_wf fm" and e: "next_ext fm p = Some e" "nlo e \<le> p" and q: "p \<le> q" "q \<le> nhi e"
  shows "inflight n fm q = (if \<not> ext_skip e \<and> nlo e < q \<and> q < fin n e then Some e else None)"
proof -
  obtain xs ys where s: "exts fm = xs @ e # ys" "\<forall>x \<in> set xs. nhi x \<le> p" "\<forall>y \<in> set ys. nhi e \<le> nlo y" "p < nhi e"
    using next_ext_split [OF wf e(1)] by blast
  have "find (\<lambda>e. \<not> ext_skip e \<and> nlo e < q \<and> q < fin n e) xs = None"
    using s(2) q(1) by (fastforce simp: find_None_iff fin_def)
  moreover have "find (\<lambda>e. \<not> ext_skip e \<and> nlo e < q \<and> q < fin n e) ys = None"
    using s(3) q(2) by (fastforce simp: find_None_iff fin_def)
  ultimately show ?thesis
    unfolding inflight_def s(1) by (simp add: find_append)
qed

subsection \<open>One buffer's extents\<close>

text \<open>What the extent pass leaves alone.\<close>

definition frame :: "('c, 'k) scan_run \<Rightarrow> ('c, 'k) scan_run \<Rightarrow> bool" where
  "frame s s' \<longleftrightarrow> sr_writer s' = sr_writer s \<and> sr_os s' = sr_os s \<and> sr_buffer s' = sr_buffer s
    \<and> sc_filesize (sr_ctxt s') = sc_filesize (sr_ctxt s) \<and> sc_off (sr_ctxt s') = sc_off (sr_ctxt s)
    \<and> sc_read_cap (sr_ctxt s') = sc_read_cap (sr_ctxt s) \<and> sc_fiemap (sr_ctxt s') = sc_fiemap (sr_ctxt s)
    \<and> sc_file_csum (sr_ctxt s') = sc_file_csum (sr_ctxt s)
    \<and> h_blocks (sr_hashes s') = h_blocks (sr_hashes s) \<and> h_fileid (sr_hashes s') = h_fileid (sr_hashes s)"

lemma frame_refl [simp]: "frame s s"
  by (simp add: frame_def)

lemma frame_trans: "frame s t \<Longrightarrow> frame t u \<Longrightarrow> frame s u"
  by (simp add: frame_def)

text \<open>The buffer holds the file's bytes wherever there is data.\<close>

definition agree :: "buffer \<Rightarrow> fiemap \<Rightarrow> byte list \<Rightarrow> nat \<Rightarrow> nat \<Rightarrow> bool" where
  "agree b fm c off stop \<longleftrightarrow> stop - off \<le> length (bf_buf b)
    \<and> (\<forall>x. off \<le> x \<and> x < stop \<and> in_data fm x \<longrightarrow> bf_buf b ! (x - off) = c ! x)"

definition ext_inv :: "('c, 'k) scan_env \<Rightarrow> byte list \<Rightarrow> fiemap \<Rightarrow> nat \<Rightarrow> nat \<Rightarrow> ('c, 'k) scan_run \<Rightarrow> bool" where
  "ext_inv env c fm base p s \<longleftrightarrow> h_extents (sr_hashes s) = rows (se_xx env) c fm base p
     \<and> rel_option (goes_on_as (se_xx env)) (partial c fm p) (sc_extent_csum (sr_ctxt s))"

lemma buf_slice:
  assumes "agree b fm c off stop" "e \<in> set (exts fm)" "\<not> ext_skip e" "nlo e \<le> p" "q \<le> nhi e"
    "off \<le> p" "p \<le> q" "q \<le> stop" "stop \<le> length c"
  shows "buf_at b (p - off) (q - p) = slice c p q"
proof (rule nth_equalityI)
  have "stop - off \<le> length (bf_buf b)" using assms(1) by (simp add: agree_def)
  then show "length (buf_at b (p - off) (q - p)) = length (slice c p q)"
    using assms(6-9) by (simp add: buf_at_def min_def) linarith
  fix i assume "i < length (buf_at b (p - off) (q - p))"
  then have i: "i < q - p" "p - off + i < length (bf_buf b)" by (auto simp: buf_at_def)
  have "in_data fm (p + i)" using assms i(1) by (auto simp: in_data_def intro!: bexI [of _ e])
  then have "bf_buf b ! (p + i - off) = c ! (p + i)" using assms i(1) by (simp add: agree_def)
  then show "buf_at b (p - off) (q - p) ! i = slice c p q ! i"
    using assms i by (simp add: buf_at_def slice_def)
qed

lemma extents_loop_inside:
  assumes "p < sc_off (sr_ctxt s) + bytes" "ext_from (sc_fiemap (sr_ctxt s)) p (sc_cursor (sr_ctxt s)) = (Some e, cur)"
    "nlo e \<le> p" "p + to_add \<le> sc_off (sr_ctxt s) + bytes" "s0 = s\<lparr>sr_ctxt := (sr_ctxt s)\<lparr>sc_cursor := cur\<rparr>\<rparr>"
    "to_add = (if sc_off (sr_ctxt s) + bytes < unat (fe_end e) then bytes - buf_off else unat (fe_end e) - p)"
    "dummy = (if sc_filesize (sr_ctxt s) < unat (fe_end e) then unat (fe_end e) - sc_filesize (sr_ctxt s) else 0)"
    "s1 = (if \<not> ext_skip e
           then s0\<lparr>sr_ctxt := (sr_ctxt s0)\<lparr>sc_extent_csum := Some (add_to_running_checksum
                  (case sc_extent_csum (sr_ctxt s0) of None \<Rightarrow> start_running_checksum | Some c \<Rightarrow> c)
                  (buf_at (sr_buffer s0) buf_off to_add))\<rparr>\<rparr>
           else s0)"
  shows "extents_loop (Suc n) env bytes p buf_off s
    = (case (if p + to_add + dummy = unat (fe_end e) then store_extent env e s1 else Some s1) of
         None \<Rightarrow> None
       | Some s2 \<Rightarrow> extents_loop n env bytes (p + to_add) (buf_off + to_add) s2)"
  using assms(1-5) unfolding assms(6-8) by (simp add: Let_def)

lemma extents_loop_spec:
  assumes wf: "fm_wf fm" and size: "length c < 2 ^ 64" and old: "\<not> se_old_hole_digests env"
    and stop: "off + bytes \<le> length c" and base: "base \<le> off" and ag: "agree b fm c off (off + bytes)"
  shows "sr_buffer s = b \<Longrightarrow> sc_fiemap (sr_ctxt s) = fm \<Longrightarrow> sc_off (sr_ctxt s) = off \<Longrightarrow>
    sc_filesize (sr_ctxt s) = length c \<Longrightarrow> off \<le> p \<Longrightarrow> p \<le> off + bytes \<Longrightarrow> off + bytes - p < n \<Longrightarrow>
    ext_inv env c fm base p s \<Longrightarrow>
    \<exists>s'. extents_loop n env bytes p (p - off) s = Some s' \<and> frame s s' \<and> ext_inv env c fm base (off + bytes) s'"
proof (induction n arbitrary: p s)
  case 0
  then show ?case by simp
next
  case (Suc n)
  note pr = Suc.prems
  show ?case
  proof (cases "p < off + bytes")
    case False
    then have "p = off + bytes" using pr by simp
    with pr show ?thesis by (intro exI [of _ s]) simp
  next
    case lt: True
    then have plen: "p < length c" "p < 2 ^ 64" using stop size by simp_all
    obtain found cur where f: "ext_from fm p (sc_cursor (sr_ctxt s)) = (found, cur)" by fastforce
    then have found: "found = next_ext fm p" using ext_from_next [OF wf plen(2), of "sc_cursor (sr_ctxt s)"] by simp
    define s0 where "s0 = s\<lparr>sr_ctxt := (sr_ctxt s)\<lparr>sc_cursor := cur\<rparr>\<rparr>"
    have s0: "frame s s0" "ext_inv env c fm base p s0" "sr_buffer s0 = b" "sc_fiemap (sr_ctxt s0) = fm"
      "sc_off (sr_ctxt s0) = off" "sc_filesize (sr_ctxt s0) = length c"
      using pr by (simp_all add: s0_def frame_def ext_inv_def)
    show ?thesis
    proof (cases found)
      case None
      have past: "nhi e \<le> p" if "e \<in> set (exts fm)" for e
        using found None that next_ext_None [of fm p] by auto
      have "rows (se_xx env) c fm base (off + bytes) = rows (se_xx env) c fm base p"
        using past lt by (intro rows_gap) (auto simp: fin_def dest: past)
      moreover have "inflight (length c) fm (off + bytes) = None"
        using past lt by (intro inflight_gap) (auto dest: past)
      ultimately show ?thesis
        using lt pr f None s0 by (simp add: s0_def ext_inv_def partial_def frame_def)
    next
      case (Some e)
      note ne = found [symmetric, unfolded Some]
      have e: "e \<in> set (exts fm)" "p < nhi e" using next_ext_in [OF ne] by auto
      note w = fm_wf_ext [OF wf e(1)]
      have later: "x = e \<or> nhi e \<le> nlo x" if "x \<in> set (exts fm)" "p < nhi x" for x
        using next_ext_first [OF wf ne that] .
      show ?thesis
      proof (cases "p < nlo e")
        case gap: True
        define p' where "p' = min (nlo e) (off + bytes)"
        have p': "p < p'" "p' \<le> off + bytes" "p' \<le> nlo e" using gap lt by (auto simp: p'_def)
        have behind: "nlo e \<le> nlo x" if "x \<in> set (exts fm)" "p < nhi x" for x
          using later [OF that] w(2) by auto
        have "rows (se_xx env) c fm base p' = rows (se_xx env) c fm base p"
        proof (rule rows_gap)
          fix x assume x: "x \<in> set (exts fm)" "nlo x < length c"
          show "\<not> (p < fin (length c) x \<and> fin (length c) x \<le> p')"
            using behind [OF x(1)] x(2) fm_wf_ext(2) [OF wf x(1)] p' by (auto simp: fin_def)
        qed (use p' in simp)
        moreover have "inflight (length c) fm p = None" "inflight (length c) fm p' = None"
          using behind p' gap by (auto intro!: inflight_gap) (meson leD less_trans le_less_trans)+
        ultimately have inv': "ext_inv env c fm base p' s0" using s0(2) by (simp add: ext_inv_def partial_def)
        have "off + bytes - p' < n" using pr p' by simp
        from Suc.IH [OF s0(3-6) _ p'(2) this inv'] obtain s' where
          s': "extents_loop n env bytes p' (p' - off) s0 = Some s'" "frame s0 s'" "ext_inv env c fm base (off + bytes) s'"
          using pr p' by auto
        have steps: "p + min (nlo e - p) (bytes - (p - off)) = p'" "p - off + min (nlo e - p) (bytes - (p - off)) = p' - off"
          using gap lt pr by (auto simp: p'_def min_def)
        have "extents_loop (Suc n) env bytes p (p - off) s
            = extents_loop n env bytes (p + min (nlo e - p) (bytes - (p - off))) (p - off + min (nlo e - p) (bytes - (p - off))) s0"
          using lt pr(2-6) f Some gap old by (simp add: Let_def s0_def)
        then have "extents_loop (Suc n) env bytes p (p - off) s = Some s'" unfolding steps s'(1) .
        with s' s0(1) frame_trans show ?thesis by blast
      next
        case False
        then have inside: "nlo e \<le> p" by simp
        define p' where "p' = min (nhi e) (off + bytes)"
        have p': "p < p'" "p' \<le> off + bytes" "p' \<le> nhi e" using e lt by (auto simp: p'_def)
        define to_add where "to_add = (if off + bytes < nhi e then bytes - (p - off) else nhi e - p)"
        have to_add: "p + to_add = p'" "p - off + to_add = p' - off" "to_add = p' - p"
          using lt pr e by (auto simp: p'_def to_add_def min_def)
        define dummy where "dummy = (if length c < nhi e then nhi e - length c else 0)"
        have done_iff: "p + to_add + dummy = nhi e \<longleftrightarrow> p' = fin (length c) e"
          using p' stop by (auto simp: to_add(1) dummy_def fin_def min_def)
        have part: "partial c fm q = (if \<not> ext_skip e \<and> nlo e < q \<and> q < fin (length c) e then Some (slice c (nlo e) q) else None)"
          if "p \<le> q" "q \<le> nhi e" for q
          using inflight_inside [OF wf ne inside that, of "length c"] by (simp add: partial_def)
        define q where "q = add_to_running_checksum
            (case sc_extent_csum (sr_ctxt s0) of None \<Rightarrow> start_running_checksum | Some c \<Rightarrow> c) (slice c p p')"
        define s1 where "s1 = (if \<not> ext_skip e then s0\<lparr>sr_ctxt := (sr_ctxt s0)\<lparr>sc_extent_csum := Some q\<rparr>\<rparr> else s0)"
        have fed: "(if \<not> ext_skip e
            then s0\<lparr>sr_ctxt := (sr_ctxt s0)\<lparr>sc_extent_csum := Some (add_to_running_checksum
                  (case sc_extent_csum (sr_ctxt s0) of None \<Rightarrow> start_running_checksum | Some c \<Rightarrow> c)
                  (buf_at (sr_buffer s0) (p - off) to_add))\<rparr>\<rparr>
            else s0) = s1"
        proof (cases "ext_skip e")
          case data: False
          have "buf_at b (p - off) to_add = slice c p p'"
            unfolding to_add(3) using buf_slice [OF ag e(1) data inside p'(3)] pr p' stop by simp
          with data s0(3) show ?thesis by (simp add: s1_def q_def)
        qed (simp add: s1_def)
        have q: "goes_on_as (se_xx env) (slice c (nlo e) p') q" if data: "\<not> ext_skip e"
        proof -
          have now: "partial c fm p = (if nlo e < p then Some (slice c (nlo e) p) else None)"
            using part [of p] e data plen(1) by (simp add: fin_def)
          have "goes_on_as (se_xx env) (slice c (nlo e) p)
              (case sc_extent_csum (sr_ctxt s0) of None \<Rightarrow> start_running_checksum | Some c \<Rightarrow> c)"
          proof (cases "nlo e < p")
            case True
            with s0(2) now show ?thesis by (auto simp: ext_inv_def option_rel_Some1)
          next
            case False
            with inside have "nlo e = p" by simp
            with s0(2) now show ?thesis by (simp add: ext_inv_def start_running_checksum_def)
          qed
          from goes_on_as_add [OF this, of "slice c p p'"] show ?thesis
            using inside p'(1) slice_append [of "nlo e" p p' c] by (simp add: q_def add_to_running_checksum_def)
        qed
        have s1: "frame s s1" "sr_buffer s1 = b" "sc_fiemap (sr_ctxt s1) = fm" "sc_off (sr_ctxt s1) = off"
          "sc_filesize (sr_ctxt s1) = length c" "h_extents (sr_hashes s1) = rows (se_xx env) c fm base p"
          "sc_extent_csum (sr_ctxt s1) = (if ext_skip e then None else Some q)"
          using s0 part [of p] e by (cases "ext_skip e"; simp add: s1_def frame_def ext_inv_def)+
        obtain s2 where s2: "(if p' = fin (length c) e then store_extent env e s1 else Some s1) = Some s2"
          "frame s s2" "ext_inv env c fm base p' s2" "sr_buffer s2 = b" "sc_fiemap (sr_ctxt s2) = fm"
          "sc_off (sr_ctxt s2) = off" "sc_filesize (sr_ctxt s2) = length c"
        proof (cases "p' = fin (length c) e")
          case True
          have "rows (se_xx env) c fm base p' = rows (se_xx env) c fm base p @ [row (se_xx env) c e]"
            using rows_step [OF wf ne inside _ plen(1)] base pr True by simp
          with True part [of p'] p' s1 goes_on_as_finish [OF q] show thesis
            by (cases "ext_skip e")
              (auto intro!: that simp: store_extent_def Let_def frame_def ext_inv_def row_def)
        next
          case more: False
          have "p' < fin (length c) e" using more p' stop by (auto simp: fin_def p'_def)
          moreover have "rows (se_xx env) c fm base p' = rows (se_xx env) c fm base p"
          proof (rule rows_gap)
            fix x assume x: "x \<in> set (exts fm)" "nlo x < length c"
            show "\<not> (p < fin (length c) x \<and> fin (length c) x \<le> p')"
            proof
              assume a: "p < fin (length c) x \<and> fin (length c) x \<le> p'"
              then have "p < nhi x" by (simp add: fin_def)
              with later [OF x(1)] have "x = e \<or> nhi e \<le> nlo x" by simp
              with a \<open>p' < fin (length c) e\<close> p' x(2) fm_wf_ext(2) [OF wf x(1)] show False by (auto simp: fin_def)
            qed
          qed (use p' in simp)
          ultimately show thesis
            using more part [of p'] p' s1 inside q by (intro that) (auto simp: ext_inv_def)
        qed
        have "off + bytes - p' < n" using pr p' by simp
        from Suc.IH [OF s2(4-7) _ p'(2) this s2(3)] obtain s' where
          s': "extents_loop n env bytes p' (p' - off) s2 = Some s'" "frame s2 s'" "ext_inv env c fm base (off + bytes) s'"
          using pr p' by auto
        have "extents_loop (Suc n) env bytes p (p - off) s
            = (case (if p + to_add + dummy = unat (fe_end e) then store_extent env e s1 else Some s1) of
                 None \<Rightarrow> None
               | Some s2 \<Rightarrow> extents_loop n env bytes (p + to_add) (p - off + to_add) s2)"
        proof (rule extents_loop_inside)
          show "p < sc_off (sr_ctxt s) + bytes" using lt pr(3) by simp
          show "ext_from (sc_fiemap (sr_ctxt s)) p (sc_cursor (sr_ctxt s)) = (Some e, cur)" using f Some pr(2) by simp
          show "nlo e \<le> p" by (rule inside)
          show "p + to_add \<le> sc_off (sr_ctxt s) + bytes" using to_add(1) p'(2) pr(3) by simp
          show "s0 = s\<lparr>sr_ctxt := (sr_ctxt s)\<lparr>sc_cursor := cur\<rparr>\<rparr>" by (rule s0_def)
          show "to_add = (if sc_off (sr_ctxt s) + bytes < unat (fe_end e) then bytes - (p - off) else unat (fe_end e) - p)"
            unfolding pr(3) w(1) by (rule to_add_def)
          show "dummy = (if sc_filesize (sr_ctxt s) < unat (fe_end e) then unat (fe_end e) - sc_filesize (sr_ctxt s) else 0)"
            unfolding pr(4) w(1) by (rule dummy_def)
        qed (rule fed [symmetric])
        also have "\<dots> = Some s'" unfolding w(1) done_iff unfolding to_add(1,2) s2(1) by (simp add: s'(1))
        finally have "extents_loop (Suc n) env bytes p (p - off) s = Some s'" .
        with s' s2(2) frame_trans show ?thesis by blast
      qed
    qed
  qed
qed

subsection \<open>What the whole-file digest is of\<close>

text \<open>
  The file's bytes in blocks, with a hole in whole blocks standing as its offset and length. The last
  test never fails for a positive block size; it is there for the recursion to end.
\<close>

function file_stream :: "nat \<Rightarrow> fiemap \<Rightarrow> byte list \<Rightarrow> nat \<Rightarrow> byte list" where
  "file_stream bs fm c p =
    (if p < length c
     then let hole = block_is_hole bs (next_ext fm p) p;
              q = (if hole then hole_end bs fm (length c) p else min (p + bs) (length c))
          in if p < q then (if hole then le_bytes 8 p @ le_bytes 8 (q - p) else slice c p q) @ file_stream bs fm c q else []
     else [])"
  by pat_completeness auto
termination
  by (relation "measure (\<lambda>(bs, fm, c, p). length c - p)") auto

declare file_stream.simps [simp del]

lemma file_stream_end [simp]: "file_stream bs fm c (length c) = []"
  by (simp add: file_stream.simps)

lemma file_stream_hole:
  "p < length c \<Longrightarrow> block_is_hole bs (next_ext fm p) p \<Longrightarrow> 0 < h \<Longrightarrow> p + h = hole_end bs fm (length c) p \<Longrightarrow>
    file_stream bs fm c p = (le_bytes 8 p @ le_bytes 8 h) @ file_stream bs fm c (p + h)"
  by (subst file_stream.simps) (simp add: Let_def, metis add_diff_cancel_left' less_add_same_cancel1)

lemma file_stream_data:
  "p < length c \<Longrightarrow> 0 < bs \<Longrightarrow> \<not> block_is_hole bs (next_ext fm p) p \<Longrightarrow>
    file_stream bs fm c p = slice c p (min (p + bs) (length c)) @ file_stream bs fm c (min (p + bs) (length c))"
  by (subst file_stream.simps) (simp add: Let_def)

text \<open>A run of blocks none of which is a hole.\<close>

lemma file_stream_run:
  assumes bs: "0 < bs"
  shows "nohole bs fm p r \<Longrightarrow> p mod bs = 0 \<Longrightarrow> p + n \<le> r \<Longrightarrow> p + n \<le> length c \<Longrightarrow> n mod bs = 0 \<or> p + n = length c \<Longrightarrow>
    file_stream bs fm c p = slice c p (p + n) @ file_stream bs fm c (p + n)"
proof (induction n arbitrary: p rule: less_induct)
  case (less n)
  show ?case
  proof (cases "n = 0")
    case False
    then have p: "p < r" "p < length c" using less.prems by auto
    then have "\<not> block_is_hole bs (next_ext fm p) p" using less.prems(1,2) by (simp add: nohole_def)
    note step = file_stream_data [OF p(2) bs this]
    show ?thesis
    proof (cases "bs \<le> n")
      case True
      have "(n - bs) mod bs = n mod bs" using True by (simp add: le_mod_geq)
      then have rest: "(n - bs) mod bs = 0 \<or> p + bs + (n - bs) = length c" using less.prems(5) True by auto
      have q: "min (p + bs) (length c) = p + bs" using True less.prems(4) by simp
      have "nohole bs fm (p + bs) r" using less.prems(1) by (simp add: nohole_def)
      moreover have "(p + bs) mod bs = 0" using less.prems(2) by simp
      ultimately have "file_stream bs fm c (p + bs) = slice c (p + bs) (p + bs + (n - bs)) @ file_stream bs fm c (p + bs + (n - bs))"
        using less.IH [of "n - bs" "p + bs"] rest True bs less.prems(3,4) by simp
      with step q True slice_append [of p "p + bs" "p + n" c] show ?thesis by simp
    next
      case small: False
      then have "p + n = length c" using less.prems(5) False bs by (simp add: mod_less)
      with step small show ?thesis by simp
    qed
  qed simp
qed

definition file_inv :: "('c, 'k) scan_env \<Rightarrow> byte list \<Rightarrow> fiemap \<Rightarrow> nat \<Rightarrow> running_checksum \<Rightarrow> bool" where
  "file_inv env c fm off fc \<longleftrightarrow>
    (se_block_hash env \<and> (\<forall>e \<in> set (exts fm). \<not> ext_skip e) \<longrightarrow>
      (\<exists>pre. goes_on_as (se_xx env) pre fc
        \<and> pre @ file_stream (se_blocksize env) fm c off = file_stream (se_blocksize env) fm c 0))"

lemma file_inv_start: "file_inv env c fm 0 start_running_checksum"
  by (simp add: file_inv_def start_running_checksum_def exI [of _ "[]"])

lemma file_inv_step:
  assumes "file_inv env c fm off fc"
    and "se_block_hash env \<Longrightarrow> (\<forall>e \<in> set (exts fm). \<not> ext_skip e) \<Longrightarrow>
      file_stream (se_blocksize env) fm c off = m @ file_stream (se_blocksize env) fm c off'"
  shows "file_inv env c fm off' (add_to_running_checksum fc m)"
  unfolding file_inv_def
proof
  assume a: "se_block_hash env \<and> (\<forall>e \<in> set (exts fm). \<not> ext_skip e)"
  with assms(1) obtain pre where pre: "goes_on_as (se_xx env) pre fc"
    "pre @ file_stream (se_blocksize env) fm c off = file_stream (se_blocksize env) fm c 0"
    by (auto simp: file_inv_def)
  have "goes_on_as (se_xx env) (add_to_running_checksum pre m) (add_to_running_checksum fc m)"
    using pre(1) by (rule goes_on_as_add)
  with pre(2) assms(2) a show "\<exists>pre. goes_on_as (se_xx env) pre (add_to_running_checksum fc m)
      \<and> pre @ file_stream (se_blocksize env) fm c off' = file_stream (se_blocksize env) fm c 0"
    by (intro exI [of _ "pre @ m"]) (simp add: add_to_running_checksum_def)
qed

end
