(* ===== verification/ScanLoop.thy ===== *)
theory ScanLoop
  imports ScanExtents
begin

text \<open>
  The loop of \<open>csum_whole_file\<close> over a file that holds still, with a hashfile that takes its writes: it
  ends, and every data extent of the file gets the digest of its own bytes.
\<close>

subsection \<open>A hashfile that takes every write\<close>

definition writes_ok :: "('c, 'w) sqlite \<Rightarrow> ('c \<Rightarrow> 'w dbview) \<Rightarrow> bool" where
  "writes_ok api view \<longleftrightarrow> sqlite_ok api view
    \<and> (\<forall>s c. stmt_done s (view c) \<noteq> {} \<longrightarrow> fst (sq_exec api s c) = 0)
    \<and> (\<forall>w c. v_txn (view c) \<noteq> None \<longrightarrow> fst (sq_write api w c) = 0)"

lemma writes_ok_sqlite: "writes_ok api view \<Longrightarrow> sqlite_ok api view"
  by (simp add: writes_ok_def)

lemma dbfile_exec_ok:
  "writes_ok api view \<Longrightarrow> stmt_done s (view (sw_db sw)) \<noteq> {} \<Longrightarrow> \<exists>sw'. dbfile_exec api s sw = (0, sw')"
  by (cases "sq_exec api s (sw_db sw)") (fastforce simp: writes_ok_def dbfile_exec_def)

lemma scan_exec_ok:
  assumes ok: "writes_ok api view" and s: "stmt_done s (view (sw_db sw)) \<noteq> {}"
  shows "\<exists>sw'. scan_exec api s sw = (0, sw')"
proof (cases "s \<in> set (sw_prepared sw)")
  case True
  with dbfile_exec_ok [OF ok s] show ?thesis by (simp add: scan_exec_def)
next
  case False
  obtain r c where p: "sq_prepare api s (sw_db sw) = (r, c)" by fastforce
  have v: "view c = view (sw_db sw)"
    using writes_ok_sqlite [OF ok] p unfolding sqlite_ok_def by (metis snd_conv)
  have "\<exists>sw'. dbfile_exec api s (sw\<lparr>sw_db := c\<rparr>) = (0, sw')"
    "\<exists>sw'. dbfile_exec api s (sw\<lparr>sw_db := c, sw_prepared := s # sw_prepared sw\<rparr>) = (0, sw')"
    using dbfile_exec_ok [OF ok] s v by simp_all
  with False p show ?thesis by (simp add: scan_exec_def)
qed

lemma begin_ok:
  assumes ok: "writes_ok api view" and i: "idle view sw D K" "\<not> sw_batch_lost sw"
  shows "\<exists>sw'. scan_write_begin api now sw = Some (0, sw') \<and> inside view sw' D K (Some [])"
proof -
  have ex: "\<exists>sw'. scan_exec api SpBegin sw1 = (0, sw')" for sw1
    by (rule scan_exec_ok [OF ok]) (auto split: option.splits)
  have "\<exists>sw'. scan_write_begin api now sw = Some (0, sw')"
  proof (cases "sw_trans_open sw")
    case True
    with i ex [of sw] show ?thesis by (auto simp: scan_write_begin_def filescan_batch_lost_def idle_def)
  next
    case False
    then have "stmt_done BeginTrans (view (sw_db sw)) \<noteq> {}" using i by (simp add: idle_def)
    then obtain sw1 where "dbfile_exec api BeginTrans sw = (0, sw1)" using dbfile_exec_ok [OF ok] by blast
    with False i ex [of "sw1\<lparr>sw_trans_open := True, sw_write_start := now\<rparr>"] show ?thesis
      by (auto simp: scan_write_begin_def filescan_batch_lost_def idle_def dbfile_begin_trans_def)
  qed
  with begin_spec [OF writes_ok_sqlite [OF ok] i(1), of now] show ?thesis by auto
qed

lemma writes_take:
  assumes ok: "writes_ok api view"
  shows "inside view sw D K (Some us) \<Longrightarrow> \<exists>sw'. unit_writes api ws sw = (0, sw') \<and> inside view sw' D K (Some (us @ ws))"
proof (induction ws arbitrary: sw us)
  case Nil
  then show ?case by simp
next
  case (Cons w ws)
  obtain r c where w: "sq_write api w (sw_db sw) = (r, c)" by fastforce
  have "v_txn (view (sw_db sw)) \<noteq> None" using Cons.prems by (simp add: inside_def)
  then have r: "r = 0" using ok w unfolding writes_ok_def by (metis fst_conv)
  have "unit_writes api [w] sw = (0, sw\<lparr>sw_db := c\<rparr>)" using w r by simp
  from writes_spec [OF writes_ok_sqlite [OF ok] Cons.prems this]
  have "inside view (sw\<lparr>sw_db := c\<rparr>) D K (Some (us @ [w]))" by simp
  from Cons.IH [OF this] w r show ?case by auto
qed

lemma release_ok:
  assumes ok: "writes_ok api view" and i: "inside view sw D K (Some ws)"
  shows "\<exists>sw'. scan_unit_release api sw = (0, sw')"
proof -
  have "\<exists>sw'. scan_exec api SpRelease (sw\<lparr>sw_unit_open := False\<rparr>) = (0, sw')"
    by (rule scan_exec_ok [OF ok]) (use i in \<open>simp add: inside_def\<close>)
  with i show ?thesis by (auto simp: scan_unit_release_def inside_def)
qed

lemma commit_ok:
  assumes ok: "writes_ok api view" and i: "idle view sw D K" "\<not> sw_batch_lost sw" "sw_trans_open sw"
  shows "\<exists>sw'. scan_write_flush api sw = (0, sw')"
proof -
  have "\<exists>sw'. dbfile_exec api CommitTrans sw = (0, sw')"
    by (rule dbfile_exec_ok [OF ok]) (use i in \<open>simp add: idle_def\<close>)
  with i show ?thesis
    by (auto simp: scan_write_flush_def scan_unit_release_def idle_def dbfile_commit_trans_def Let_def)
qed

lemma flush_ok:
  assumes ok: "writes_ok api view" and i: "inside view sw D K (Some ws)"
  shows "\<exists>sw'. scan_write_flush api sw = (0, sw') \<and> idle view sw' (D @ K @ [ws]) [] \<and> \<not> sw_batch_lost sw'"
proof -
  obtain sw1 where r: "scan_unit_release api sw = (0, sw1)" using release_ok [OF ok i] by blast
  from release_spec [OF writes_ok_sqlite [OF ok] i r]
  have i1: "idle view sw1 D (K @ [ws])" "sw_trans_open sw1" "\<not> sw_batch_lost sw1" by auto
  obtain sw2 where f: "scan_write_flush api sw1 = (0, sw2)" using commit_ok [OF ok i1(1,3,2)] by blast
  have "scan_write_flush api sw = (0, sw2)"
    using f r i1 by (simp add: scan_write_flush_def scan_unit_release_def idle_def)
  from flush_inside [OF writes_ok_sqlite [OF ok] i this] this show ?thesis by simp
qed

lemma end_ok:
  assumes ok: "writes_ok api view" and i: "inside view sw D K (Some ws)"
  shows "\<exists>sw' D' K'. scan_write_end api now sw = (0, sw') \<and> idle view sw' D' K' \<and> D' @ K' = D @ K @ [ws]
    \<and> \<not> sw_batch_lost sw'"
proof -
  obtain sw1 where r: "scan_unit_release api sw = (0, sw1)" using release_ok [OF ok i] by blast
  from release_spec [OF writes_ok_sqlite [OF ok] i r]
  have i1: "idle view sw1 D (K @ [ws])" "sw_trans_open sw1" "\<not> sw_batch_lost sw1" by auto
  have "\<exists>sw'. scan_write_end api now sw = (0, sw')"
    using commit_ok [OF ok i1(1,3,2)] r i1 by (auto simp: scan_write_end_def)
  then obtain sw' where e: "scan_write_end api now sw = (0, sw')" by blast
  from end_inside [OF writes_ok_sqlite [OF ok] i e] e show ?thesis by auto
qed

subsection \<open>Blocks\<close>

text \<open>The extent rows among the writes, and a writer between units that has taken just these.\<close>

definition erows :: "hash_row list \<Rightarrow> (int \<times> extent_csum) list" where
  "erows ws = concat (map (\<lambda>w. case w of ExtentRow f r \<Rightarrow> [(f, r)] | _ \<Rightarrow> []) ws)"

lemma erows_simps [simp]:
  "erows [] = []" "erows (u @ v) = erows u @ erows v" "erows (ExtentRow f r # u) = (f, r) # erows u"
  "erows (BlockRow f b # u) = erows u" "erows (CheckpointRow f cp # u) = erows u"
  "erows (RemoveBlocksFrom f l # u) = erows u" "erows (RemoveExtentsFrom f l # u) = erows u"
  "erows (RemoveCheckpoint f # u) = erows u" "erows (ScannedFileRow f d g n # u) = erows u"
  "erows (AddFileFlags f g # u) = erows u" "erows (CopyExtents f f2 # u) = erows u"
  "erows (CopyBlocks f f2 # u) = erows u" "erows (CopyFileRow f f2 g # u) = erows u"
  by (simp_all add: erows_def)

lemma erows_blocks [simp]: "erows (map (BlockRow f) bs) = []"
  by (induction bs) simp_all

lemma erows_extents: "erows (map (ExtentRow f \<circ> the) rs) = map (Pair f \<circ> the) rs"
  by (induction rs) simp_all

definition taken :: "('c \<Rightarrow> hash_row dbview) \<Rightarrow> 'c scan_writer \<Rightarrow> (int \<times> extent_csum) list \<Rightarrow> bool" where
  "taken view sw E \<longleftrightarrow> (\<exists>D K. idle view sw D K \<and> \<not> sw_batch_lost sw \<and> erows (concat (D @ K)) = E)"

definition same_run :: "('c, 'k) scan_run \<Rightarrow> ('c, 'k) scan_run \<Rightarrow> bool" where
  "same_run s s' \<longleftrightarrow> sr_buffer s' = sr_buffer s
    \<and> sc_filesize (sr_ctxt s') = sc_filesize (sr_ctxt s) \<and> sc_off (sr_ctxt s') = sc_off (sr_ctxt s)
    \<and> sc_read_cap (sr_ctxt s') = sc_read_cap (sr_ctxt s) \<and> sc_fiemap (sr_ctxt s') = sc_fiemap (sr_ctxt s)
    \<and> sc_file_csum (sr_ctxt s') = sc_file_csum (sr_ctxt s) \<and> sc_extent_csum (sr_ctxt s') = sc_extent_csum (sr_ctxt s)
    \<and> h_extents (sr_hashes s') = h_extents (sr_hashes s) \<and> h_fileid (sr_hashes s') = h_fileid (sr_hashes s)"

lemma same_run_refl [simp]: "same_run s s"
  by (simp add: same_run_def)

lemma same_run_trans: "same_run s t \<Longrightarrow> same_run t u \<Longrightarrow> same_run s u"
  by (simp add: same_run_def)

lemma unit_taken:
  assumes ok: "writes_ok api view" and t: "taken view sw E"
  shows "\<exists>sw1. scan_write_begin api now sw = Some (0, sw1)
    \<and> (\<forall>ws. \<exists>sw2. unit_writes api ws sw1 = (0, sw2)
        \<and> (\<exists>sw3. scan_write_end api now' sw2 = (0, sw3) \<and> taken view sw3 (E @ erows ws)))"
proof -
  obtain D K where i: "idle view sw D K" "\<not> sw_batch_lost sw" "erows (concat (D @ K)) = E"
    using t by (auto simp: taken_def)
  obtain sw1 where b: "scan_write_begin api now sw = Some (0, sw1)" "inside view sw1 D K (Some [])"
    using begin_ok [OF ok i(1,2)] by blast
  have "\<exists>sw2. unit_writes api ws sw1 = (0, sw2) \<and> (\<exists>sw3. scan_write_end api now' sw2 = (0, sw3) \<and> taken view sw3 (E @ erows ws))"
    for ws
  proof -
    obtain sw2 where w: "unit_writes api ws sw1 = (0, sw2)" "inside view sw2 D K (Some ws)"
      using writes_take [OF ok b(2), of ws] by auto
    obtain sw3 D' K' where e: "scan_write_end api now' sw2 = (0, sw3)" "idle view sw3 D' K'" "D' @ K' = D @ K @ [ws]"
      "\<not> sw_batch_lost sw3"
      using end_ok [OF ok w(2)] by blast
    have "erows (concat (D' @ K')) = E @ erows ws" unfolding e(3) using i(3) by simp
    then have "taken view sw3 (E @ erows ws)" unfolding taken_def using e(2,4) by blast
    with e(1) w(1) show ?thesis by blast
  qed
  with b show ?thesis by blast
qed

lemma flush_block_hashes_ok:
  assumes ok: "writes_ok (se_api env) view" and t: "taken view (sr_writer s) E"
  shows "\<exists>s'. flush_block_hashes env s = Some (0, s') \<and> same_run s s' \<and> taken view (sr_writer s') E"
proof (cases "h_blocks (sr_hashes s) = []")
  case True
  with t show ?thesis by (simp add: flush_block_hashes_def)
next
  case False
  obtain now k where k: "se_elapsed env (sr_os s) = (now, k)" by fastforce
  obtain now' k' where k': "se_elapsed env k = (now', k')" by fastforce
  let ?ws = "map (BlockRow (h_fileid (sr_hashes s))) (h_blocks (sr_hashes s))"
  obtain sw1 sw2 sw3 where b: "scan_write_begin (se_api env) now (sr_writer s) = Some (0, sw1)"
    "unit_writes (se_api env) ?ws sw1 = (0, sw2)" "scan_write_end (se_api env) now' sw2 = (0, sw3)" "taken view sw3 (E @ erows ?ws)"
    using unit_taken [OF ok t, of now now'] by blast
  show ?thesis
    using False k k' b
    by (simp add: flush_block_hashes_def store_block_batch_def dbfile_store_block_hashes_def same_run_def)
qed

lemma process_block_ok:
  assumes ok: "writes_ok (se_api env) view" and t: "taken view (sr_writer s) E"
  shows "\<exists>s'. process_block env buf file_off s = Some (0, s') \<and> same_run s s' \<and> taken view (sr_writer s') E"
proof -
  obtain s1 where s1: "(if se_block_batch_max env \<le> length (h_blocks (sr_hashes s)) then flush_block_hashes env s else Some (0, s))
      = Some (0, s1)" "same_run s s1" "taken view (sr_writer s1) E"
    using flush_block_hashes_ok [OF ok t] t by (cases "se_block_batch_max env \<le> length (h_blocks (sr_hashes s))") auto
  then show ?thesis by (simp add: process_block_def add_block_hash_def Let_def same_run_def)
qed

lemma blocks_loop_ok:
  assumes ok: "writes_ok (se_api env) view" and wf: "fm_wf (sc_fiemap (sr_ctxt s))"
  shows "taken view (sr_writer s) E \<Longrightarrow> file_off + n * se_blocksize env < 2 ^ 64 \<Longrightarrow>
    \<exists>s'. blocks_loop env n i file_off s = Some (0, s') \<and> same_run s s' \<and> taken view (sr_writer s') E"
  using wf
proof (induction n arbitrary: i file_off s)
  case 0
  then show ?case by simp
next
  case (Suc n)
  have "file_off < 2 ^ 64" using Suc.prems(2) by simp
  from is_area_ignored_spec [OF Suc.prems(3) this, of "se_blocksize env" "sc_cursor (sr_ctxt s)"]
  obtain ig cur where ig: "is_block_ignored (se_blocksize env) (sc_fiemap (sr_ctxt s)) file_off (sc_cursor (sr_ctxt s)) = Some (ig, cur)"
    by (auto simp: is_block_ignored_def)
  define s1 where "s1 = s\<lparr>sr_ctxt := (sr_ctxt s)\<lparr>sc_cursor := cur\<rparr>\<rparr>"
  have s1: "same_run s s1" "taken view (sr_writer s1) E" using Suc.prems(1) by (simp_all add: s1_def same_run_def)
  let ?block = "buf_at (sr_buffer s) (i * se_blocksize env) (se_blocksize env)"
  obtain s2 where s2: "(if \<not> ig \<and> \<not> (se_skip_zeroes env \<and> is_block_zeroed ?block)
      then process_block env ?block file_off s1 else Some (0, s1)) = Some (0, s2)" "same_run s1 s2" "taken view (sr_writer s2) E"
    using process_block_ok [OF ok s1(2), of ?block file_off] s1(2)
    by (cases "\<not> ig \<and> \<not> (se_skip_zeroes env \<and> is_block_zeroed ?block)") auto
  have r2: "same_run s s2" using s1(1) s2(2) by (rule same_run_trans)
  have "fm_wf (sc_fiemap (sr_ctxt s2))" using Suc.prems(3) r2 by (simp add: same_run_def)
  from Suc.IH [OF s2(3) _ this, of "file_off + se_blocksize env" "i + 1"] Suc.prems(2) obtain s' where
    s': "blocks_loop env n (i + 1) (file_off + se_blocksize env) s2 = Some (0, s')" "same_run s2 s'" "taken view (sr_writer s') E"
    by (auto simp: algebra_simps)
  have "blocks_loop env (Suc n) i file_off s = Some (0, s')"
    using ig s2(1) s'(1) by (auto simp: Let_def s1_def [symmetric] split: if_splits)
  with same_run_trans [OF r2 s'(2)] s'(3) show ?case by blast
qed

lemma process_blocks_ok:
  assumes ok: "writes_ok (se_api env) view" and wf: "fm_wf (sc_fiemap (sr_ctxt s))"
    and t: "taken view (sr_writer s) E" and fit: "sc_off (sr_ctxt s) + bf_dl_len (sr_buffer s) < 2 ^ 64"
  shows "\<exists>s'. process_blocks env s = Some (int (if \<not> se_block_hash env \<or> bf_faked (sr_buffer s) then bf_dl_len (sr_buffer s)
        else bf_dl_len (sr_buffer s) div se_blocksize env * se_blocksize env), s')
    \<and> same_run s s' \<and> taken view (sr_writer s') E"
proof (cases "\<not> se_block_hash env \<or> bf_faked (sr_buffer s)")
  case True
  with t show ?thesis by (simp add: process_blocks_def)
next
  case False
  let ?n = "bf_dl_len (sr_buffer s) div se_blocksize env"
  have "?n * se_blocksize env \<le> bf_dl_len (sr_buffer s)" by simp
  then have "sc_off (sr_ctxt s) + ?n * se_blocksize env < 2 ^ 64" using fit by linarith
  from blocks_loop_ok [OF ok wf t this, of 0] False show ?thesis by (auto simp: process_blocks_def Let_def)
qed

subsection \<open>The buffer\<close>

text \<open>
  The file holds still: a read gives some of the bytes asked for, at least one while there are any,
  and the bytes are the file's. No read fails and no interrupt comes.
\<close>

definition still_file :: "('c, 'k) scan_env \<Rightarrow> byte list \<Rightarrow> bool" where
  "still_file env c \<longleftrightarrow>
    (\<forall>want pos k. \<exists>bs k'. se_pread env want pos k = (Some bs, k') \<and> length bs \<le> want
       \<and> bs = slice c pos (pos + length bs) \<and> (0 < want \<and> pos < length c \<longrightarrow> bs \<noteq> []))
    \<and> (\<forall>k. \<not> fst (se_interrupted env k))"

text \<open>The buffer and the read cap between two passes.\<close>

definition buf_inv :: "('c, 'k) scan_env \<Rightarrow> byte list \<Rightarrow> fiemap \<Rightarrow> scan_ctxt \<Rightarrow> buffer \<Rightarrow> bool" where
  "buf_inv env c fm ctxt b \<longleftrightarrow> sc_fiemap ctxt = fm \<and> sc_filesize ctxt = length c
    \<and> sc_off ctxt + bf_dl_len b \<le> length c \<and> sc_read_cap ctxt \<le> length c
    \<and> length (bf_buf b) = bf_size b \<and> bf_dl_offset b + bf_dl_len b \<le> bf_size b
    \<and> buf_at b (bf_dl_offset b) (bf_dl_len b) = slice c (sc_off ctxt) (sc_off ctxt + bf_dl_len b)
    \<and> bf_dl_len b < se_blocksize env \<and> se_blocksize env \<le> bf_size b
    \<and> (bf_dl_len b = 0 \<or> sc_off ctxt + bf_dl_len b \<le> sc_read_cap ctxt \<and> se_block_hash env)
    \<and> (se_block_hash env \<longrightarrow> (sc_off ctxt mod se_blocksize env = 0 \<or> sc_off ctxt = length c)
        \<and> (sc_off ctxt < sc_read_cap ctxt \<longrightarrow>
            (sc_read_cap ctxt mod se_blocksize env = 0 \<or> sc_read_cap ctxt = length c)
            \<and> nohole (se_blocksize env) fm (sc_off ctxt) (sc_read_cap ctxt)))"

text \<open>The buffer after it was filled: the file's data from the offset on, up to the next hole.\<close>

definition filled :: "('c, 'k) scan_env \<Rightarrow> byte list \<Rightarrow> fiemap \<Rightarrow> scan_ctxt \<Rightarrow> buffer \<Rightarrow> bool" where
  "filled env c fm ctxt b \<longleftrightarrow> sc_fiemap ctxt = fm \<and> sc_filesize ctxt = length c
    \<and> sc_off ctxt + bf_dl_len b \<le> length c \<and> sc_read_cap ctxt \<le> length c
    \<and> length (bf_buf b) = bf_size b \<and> bf_dl_offset b = 0 \<and> bf_dl_len b \<le> bf_size b \<and> se_blocksize env \<le> bf_size b
    \<and> agree b fm c (sc_off ctxt) (sc_off ctxt + bf_dl_len b)
    \<and> (if bf_faked b then bf_dl_len b mod se_blocksize env = 0
       else sc_off ctxt + bf_dl_len b \<le> sc_read_cap ctxt
         \<and> buf_at b 0 (bf_dl_len b) = slice c (sc_off ctxt) (sc_off ctxt + bf_dl_len b))
    \<and> (se_block_hash env \<longrightarrow> sc_off ctxt mod se_blocksize env = 0
        \<and> (sc_off ctxt < sc_read_cap ctxt \<longrightarrow>
            (sc_read_cap ctxt mod se_blocksize env = 0 \<or> sc_read_cap ctxt = length c)
            \<and> nohole (se_blocksize env) fm (sc_off ctxt) (sc_read_cap ctxt)))"

lemma slice_agree:
  assumes "buf_at b 0 n = slice c off (off + n)" "n \<le> length (bf_buf b)"
  shows "agree b fm c off (off + n)"
proof -
  have "n = length (slice c off (off + n))"
    using assms by (simp add: buf_at_def flip: assms(1))
  then have "n = 0 \<or> off + n \<le> length c" by (auto simp: slice_def)
  moreover have "bf_buf b ! (x - off) = c ! x" if "off \<le> x" "x < off + n" "off + n \<le> length c" for x
  proof -
    have "buf_at b 0 n ! (x - off) = slice c off (off + n) ! (x - off)" using assms(1) by simp
    moreover have "x - off < n" using that by arith
    ultimately show ?thesis using that assms(2) by (simp add: buf_at_def slice_def)
  qed
  ultimately show ?thesis using assms(2) by (auto simp: agree_def)
qed

lemma whole_blocks:
  fixes n bs :: nat
  assumes "0 < bs" "bs \<le> n"
  shows "(n - n mod bs) mod bs = 0" "bs \<le> n - n mod bs" "n - n mod bs \<le> n"
proof -
  have eq: "n - n mod bs = bs * (n div bs)" by (rule minus_mod_eq_mult_div)
  show "(n - n mod bs) mod bs = 0" "n - n mod bs \<le> n" by (simp_all add: eq)
  have "1 \<le> n div bs" using assms div_le_mono [of bs n bs] by simp
  then have "bs * 1 \<le> bs * (n div bs)" by (rule mult_le_mono2)
  then show "bs \<le> n - n mod bs" by (simp add: eq)
qed

text \<open>The cap: where it stood, or the next hole after the offset.\<close>

lemma read_cap_spec:
  assumes "fm_wf fm" "length c < 2 ^ 63" "0 < se_blocksize env" "buf_inv env c fm ctxt b" "sc_off ctxt < length c"
    "\<not> block_is_hole (se_blocksize env) (next_ext fm (sc_off ctxt)) (sc_off ctxt)"
  shows "\<exists>cap. (if sc_read_cap ctxt \<le> sc_off ctxt then next_hole_block (se_blocksize env) (ctxt\<lparr>sc_cursor := cur\<rparr>) (sc_off ctxt)
        else Some (sc_read_cap ctxt)) = Some cap
    \<and> sc_off ctxt < cap \<and> cap \<le> length c \<and> (bf_dl_len b = 0 \<or> sc_off ctxt + bf_dl_len b \<le> cap \<and> se_block_hash env)
    \<and> (se_block_hash env \<longrightarrow> sc_off ctxt mod se_blocksize env = 0
        \<and> (cap mod se_blocksize env = 0 \<or> cap = length c) \<and> nohole (se_blocksize env) fm (sc_off ctxt) cap)"
proof (cases "sc_read_cap ctxt \<le> sc_off ctxt")
  case False
  with assms(4,5) show ?thesis by (auto simp: buf_inv_def)
next
  case True
  then have "bf_dl_len b = 0" using assms(4) by (auto simp: buf_inv_def)
  moreover have "\<exists>r. next_hole_block (se_blocksize env) (ctxt\<lparr>sc_cursor := cur\<rparr>) (sc_off ctxt) = Some r \<and> sc_off ctxt < r \<and> r \<le> length c
    \<and> (sc_off ctxt mod se_blocksize env = 0 \<longrightarrow> (r mod se_blocksize env = 0 \<or> r = length c) \<and> nohole (se_blocksize env) fm (sc_off ctxt) r)"
    using next_hole_block_spec [of "ctxt\<lparr>sc_cursor := cur\<rparr>" "se_blocksize env" "sc_off ctxt"] assms
    by (auto simp: buf_inv_def)
  ultimately show ?thesis using True assms(4,5) by (auto simp: buf_inv_def)
qed

text \<open>The buffer with its leftover moved to the front, and with bytes read behind it.\<close>

definition moved :: "buffer \<Rightarrow> buffer" where
  "moved b = b\<lparr>bf_buf := buf_at b (bf_dl_offset b) (bf_dl_len b) @ drop (bf_dl_len b) (bf_buf b),
     bf_dl_offset := 0, bf_faked := False\<rparr>"

definition appended :: "buffer \<Rightarrow> byte list \<Rightarrow> buffer" where
  "appended b bs = (moved b)\<lparr>bf_buf := take (bf_dl_len b) (bf_buf (moved b)) @ bs @ drop (bf_dl_len b + length bs) (bf_buf (moved b)),
     bf_dl_len := bf_dl_len b + length bs\<rparr>"

lemma fill_faked:
  assumes "is_area_ignored (sc_fiemap (sr_ctxt s)) (sc_off (sr_ctxt s)) fake (sc_cursor (sr_ctxt s)) = Some (True, cur)"
    "fake = bf_size (sr_buffer s) - bf_size (sr_buffer s) mod se_blocksize env"
    "sc_off (sr_ctxt s) + fake \<le> sc_filesize (sr_ctxt s)"
  shows "fill_buffer env s = Some (if sc_filesize (sr_ctxt s) \<le> sc_off (sr_ctxt s) + fake then 0 else 1,
    s\<lparr>sr_ctxt := (sr_ctxt s)\<lparr>sc_cursor := cur\<rparr>, sr_buffer := (sr_buffer s)\<lparr>
       bf_buf := replicate fake 0 @ drop fake (bf_buf (sr_buffer s)), bf_dl_len := fake, bf_dl_offset := 0, bf_faked := True\<rparr>\<rparr>)"
  using assms(1,3) unfolding assms(2) by (simp add: fill_buffer_def Let_def)

lemma fill_from_cap:
  assumes "is_area_ignored (sc_fiemap (sr_ctxt s)) (sc_off (sr_ctxt s)) fake (sc_cursor (sr_ctxt s)) = Some (ig, cur)"
    "fake = bf_size (sr_buffer s) - bf_size (sr_buffer s) mod se_blocksize env"
    "\<not> (ig \<and> sc_off (sr_ctxt s) + fake \<le> sc_filesize (sr_ctxt s))"
    "(if sc_read_cap (sr_ctxt s) \<le> sc_off (sr_ctxt s)
      then next_hole_block (se_blocksize env) ((sr_ctxt s)\<lparr>sc_cursor := cur\<rparr>) (sc_off (sr_ctxt s))
      else Some (sc_read_cap (sr_ctxt s))) = Some cap"
    "pos = sc_off (sr_ctxt s) + bf_dl_len (sr_buffer s)" "pos \<le> cap"
    "want = min (bf_size (sr_buffer s) - bf_dl_len (sr_buffer s)) (cap - pos)" "bf_dl_len (sr_buffer s) \<le> bf_size (sr_buffer s)"
    "s1 = s\<lparr>sr_ctxt := (sr_ctxt s)\<lparr>sc_cursor := cur, sc_read_cap := cap\<rparr>\<rparr>"
  shows "want = 0 \<Longrightarrow> fill_buffer env s = Some (if sc_filesize (sr_ctxt s) \<le> pos then 0 else int (bf_dl_len (sr_buffer s)),
      s1\<lparr>sr_buffer := moved (sr_buffer s)\<rparr>)"
    "0 < want \<Longrightarrow> se_pread env want pos (sr_os s) = (Some bs, k) \<Longrightarrow> bs \<noteq> [] \<Longrightarrow> length bs \<le> want \<Longrightarrow>
      fill_buffer env s = Some (if sc_filesize (sr_ctxt s) \<le> pos + length bs then 0 else int (bf_dl_len (sr_buffer s) + length bs),
        s1\<lparr>sr_os := k, sr_buffer := appended (sr_buffer s) bs\<rparr>)"
proof -
  define fk where "fk = bf_size (sr_buffer s) - bf_size (sr_buffer s) mod se_blocksize env"
  have area: "is_area_ignored (sc_fiemap (sr_ctxt s)) (sc_off (sr_ctxt s)) fk (sc_cursor (sr_ctxt s)) = Some (ig, cur)"
    "(ig \<and> sc_off (sr_ctxt s) + fk \<le> sc_filesize (sr_ctxt s)) = False"
    using assms(1,3) unfolding assms(2) fk_def by simp_all
  note unfold = fill_buffer_def fk_def [symmetric] Let_def area option.case prod.case if_False
  show "fill_buffer env s = Some (if sc_filesize (sr_ctxt s) \<le> pos then 0 else int (bf_dl_len (sr_buffer s)),
      s1\<lparr>sr_buffer := moved (sr_buffer s)\<rparr>)" if "want = 0"
    using assms(4,6,8) that unfolding assms(5,7,9) unfold by (simp add: moved_def)
  show "fill_buffer env s = Some (if sc_filesize (sr_ctxt s) \<le> pos + length bs then 0 else int (bf_dl_len (sr_buffer s) + length bs),
        s1\<lparr>sr_os := k, sr_buffer := appended (sr_buffer s) bs\<rparr>)"
    if "0 < want" "se_pread env want pos (sr_os s) = (Some bs, k)" "bs \<noteq> []" "length bs \<le> want"
  proof -
    have fits: "bf_dl_len (sr_buffer s) + length bs \<le> bf_size (sr_buffer s)" using that(4) assms(8) unfolding assms(7) by (simp add: le_diff_conv2)
    have nz: "(min (bf_size (sr_buffer s) - bf_dl_len (sr_buffer s)) (cap - (sc_off (sr_ctxt s) + bf_dl_len (sr_buffer s))) = 0)
        = False"
      using that(1) unfolding assms(5,7) by simp
    show ?thesis
      using assms(4,6) that(2,3) fits unfolding assms(5,7,9) unfold
      by (simp add: moved_def appended_def nz)
  qed
qed

lemma moved_spec:
  assumes "bf_dl_offset b + bf_dl_len b \<le> bf_size b" "length (bf_buf b) = bf_size b"
  shows "length (bf_buf (moved b)) = bf_size b" "buf_at (moved b) 0 (bf_dl_len b) = buf_at b (bf_dl_offset b) (bf_dl_len b)"
    "bf_size (moved b) = bf_size b" "bf_dl_len (moved b) = bf_dl_len b" "bf_dl_offset (moved b) = 0" "\<not> bf_faked (moved b)"
  using assms by (simp_all add: moved_def buf_at_def)

lemma appended_spec:
  assumes "bf_dl_offset b + bf_dl_len b \<le> bf_size b" "length (bf_buf b) = bf_size b" "bf_dl_len b + length bs \<le> bf_size b"
  shows "length (bf_buf (appended b bs)) = bf_size b"
    "buf_at (appended b bs) 0 (bf_dl_len b + length bs) = buf_at b (bf_dl_offset b) (bf_dl_len b) @ bs"
    "bf_size (appended b bs) = bf_size b" "bf_dl_len (appended b bs) = bf_dl_len b + length bs"
    "bf_dl_offset (appended b bs) = 0" "\<not> bf_faked (appended b bs)"
proof -
  note m = moved_spec [OF assms(1,2)]
  show "length (bf_buf (appended b bs)) = bf_size b" using m(1) assms(3) by (simp add: appended_def)
  have "bf_dl_len b \<le> length (bf_buf (moved b))" using m(1) assms(1) by simp
  then have "buf_at (appended b bs) 0 (bf_dl_len b + length bs) = buf_at (moved b) 0 (bf_dl_len b) @ bs"
    by (simp add: appended_def buf_at_def)
  then show "buf_at (appended b bs) 0 (bf_dl_len b + length bs) = buf_at b (bf_dl_offset b) (bf_dl_len b) @ bs"
    by (simp add: m(2))
qed (simp_all add: appended_def moved_def)

lemma fill_buffer_spec:
  assumes wf: "fm_wf fm" and size: "length c < 2 ^ 63" and bs: "0 < se_blocksize env" and still: "still_file env c"
    and inv: "buf_inv env c fm (sr_ctxt s) (sr_buffer s)" and off: "sc_off (sr_ctxt s) < length c"
    and data: "\<not> block_is_hole (se_blocksize env) (next_ext fm (sc_off (sr_ctxt s))) (sc_off (sr_ctxt s))"
  shows "\<exists>ret s'. fill_buffer env s = Some (ret, s') \<and> 0 \<le> ret
    \<and> sr_hashes s' = sr_hashes s \<and> sr_writer s' = sr_writer s
    \<and> sc_off (sr_ctxt s') = sc_off (sr_ctxt s) \<and> sc_file_csum (sr_ctxt s') = sc_file_csum (sr_ctxt s)
    \<and> sc_extent_csum (sr_ctxt s') = sc_extent_csum (sr_ctxt s)
    \<and> filled env c fm (sr_ctxt s') (sr_buffer s')
    \<and> (ret = 0 \<longleftrightarrow> sc_off (sr_ctxt s) + bf_dl_len (sr_buffer s') = length c)
    \<and> (ret \<noteq> 0 \<longrightarrow> bf_dl_len (sr_buffer s) < bf_dl_len (sr_buffer s'))
    \<and> (bf_faked (sr_buffer s') \<longrightarrow> (\<exists>e \<in> set (exts fm). ext_skip e))"
proof -
  define b where "b = sr_buffer s"
  define ctxt where "ctxt = sr_ctxt s"
  define off where "off = sc_off ctxt"
  define dl where "dl = bf_dl_len b"
  define fake where "fake = bf_size b - bf_size b mod se_blocksize env"
  note I = inv [folded b_def ctxt_def, unfolded buf_inv_def, folded off_def dl_def]
  note fold = b_def [symmetric] ctxt_def [symmetric] off_def [symmetric] dl_def [symmetric] fake_def [symmetric]
  have off_lt: "off < length c" using off by (simp add: off_def ctxt_def)
  have off64: "off < 2 ^ 64" using off_lt size by simp
  have wf': "fm_wf (sc_fiemap ctxt)" using wf I by simp
  obtain ig cur where ig: "is_area_ignored (sc_fiemap ctxt) off fake (sc_cursor ctxt) = Some (ig, cur)"
    "ig \<longrightarrow> (\<forall>x. off \<le> x \<and> x < off + fake \<longrightarrow> \<not> in_data fm x)"
    using is_area_ignored_spec [OF wf' off64, of fake "sc_cursor ctxt"] I by auto
  have fake: "fake mod se_blocksize env = 0" "se_blocksize env \<le> fake" "fake \<le> bf_size b"
    using whole_blocks [OF bs, of "bf_size b"] I by (simp_all add: fake_def)
  show ?thesis
  proof (cases "ig \<and> off + fake \<le> length c")
    case True
    let ?b = "b\<lparr>bf_buf := replicate fake 0 @ drop fake (bf_buf b), bf_dl_len := fake, bf_dl_offset := 0, bf_faked := True\<rparr>"
    have "fill_buffer env s = Some (if length c \<le> off + fake then 0 else 1, s\<lparr>sr_ctxt := ctxt\<lparr>sc_cursor := cur\<rparr>, sr_buffer := ?b\<rparr>)"
      using fill_faked [of s fake cur env, unfolded fold] ig(1) True I by (simp add: fake_def)
    moreover have "filled env c fm (ctxt\<lparr>sc_cursor := cur\<rparr>) ?b"
    proof -
      have "agree ?b fm c off (off + fake)" using True ig(2) fake by (auto simp: agree_def)
      then show ?thesis using True I fake off_lt by (simp add: filled_def fold)
    qed
    moreover have "dl < fake" using I fake by arith
    moreover have "\<exists>e \<in> set (exts fm). ext_skip e"
    proof -
      obtain e where e: "next_ext fm off = Some e" "nlo e < off + se_blocksize env"
        using data by (auto simp: block_is_hole_def off_def ctxt_def split: option.splits)
      note x = next_ext_in [OF e(1)]
      have "off \<le> max off (nlo e)" "max off (nlo e) < off + fake" using e(2) fake(2) bs by auto
      then have "\<not> in_data fm (max off (nlo e))" using ig(2) True by blast
      moreover have "max off (nlo e) < nhi e" using x fm_wf_ext(2) [OF wf, of e] by auto
      ultimately show ?thesis using x by (auto simp: in_data_def)
    qed
    ultimately show ?thesis
      using True by (simp add: fold)
  next
    case False
    obtain cap where cap: "(if sc_read_cap ctxt \<le> off then next_hole_block (se_blocksize env) (ctxt\<lparr>sc_cursor := cur\<rparr>) off
        else Some (sc_read_cap ctxt)) = Some cap"
      "off < cap" "cap \<le> length c" "dl = 0 \<or> off + dl \<le> cap \<and> se_block_hash env"
      "se_block_hash env \<longrightarrow> off mod se_blocksize env = 0 \<and> (cap mod se_blocksize env = 0 \<or> cap = length c)
        \<and> nohole (se_blocksize env) fm off cap"
      using read_cap_spec [OF wf size bs inv off data, of cur, folded ctxt_def b_def, folded off_def dl_def]
      by (elim exE conjE) (rule that)
    define want where "want = min (bf_size b - dl) (cap - (off + dl))"
    have pos: "off + dl \<le> cap" using cap(2,4) by auto
    have room: "0 < bf_size b - dl" "dl \<le> bf_size b" using I by arith+
    let ?ctxt = "ctxt\<lparr>sc_cursor := cur, sc_read_cap := cap\<rparr>"
    have part: "bf_dl_offset b + bf_dl_len b \<le> bf_size b" "length (bf_buf b) = bf_size b"
      "buf_at b (bf_dl_offset b) (bf_dl_len b) = slice c off (off + dl)" "sc_filesize ctxt = length c"
      using I by (simp_all add: dl_def)
    note fill = fill_from_cap [of s fake ig cur env cap "off + dl" want "s\<lparr>sr_ctxt := ?ctxt\<rparr>", unfolded fold,
        OF ig(1) refl False [folded part(4)] cap(1) refl pos want_def room(2) refl]
    have grid: "filled env c fm ?ctxt b'"
      if "bf_size b' = bf_size b" "length (bf_buf b') = bf_size b" "bf_dl_offset b' = 0" "\<not> bf_faked b'"
        "bf_dl_len b' \<le> bf_size b" "off + bf_dl_len b' \<le> cap" "buf_at b' 0 (bf_dl_len b') = slice c off (off + bf_dl_len b')" for b'
      using that slice_agree [OF that(7)] cap(2,3,5) I by (simp add: filled_def fold)
    show ?thesis
    proof (cases "want = 0")
      case True
      then have full: "off + dl = cap" using room pos by (simp add: want_def min_def split: if_splits)
      have "cap = length c"
      proof (rule ccontr)
        assume ne: "cap \<noteq> length c"
        have "se_block_hash env" using full cap(2,4) by auto
        then have "off mod se_blocksize env = 0" "(off + dl) mod se_blocksize env = 0" using cap(5) full ne by auto
        then have "dl mod se_blocksize env = 0" by (metis add_0 mod_add_left_eq)
        moreover have "dl < se_blocksize env" using I by blast
        ultimately have "dl = 0" by simp
        with full cap(2) show False by simp
      qed
      then have f: "fill_buffer env s = Some (0, s\<lparr>sr_ctxt := ?ctxt, sr_buffer := moved b\<rparr>)"
        using fill(1) [OF True] full part(4) by simp
      note m = moved_spec [OF part(1,2)]
      have "filled env c fm ?ctxt (moved b)"
        by (rule grid) (use m room pos part(3) in \<open>simp_all add: dl_def\<close>)
      with f full \<open>cap = length c\<close> m(4,6) show ?thesis by (simp add: fold)
    next
      case reads: False
      have "off + dl < length c" using reads pos cap(3) by (simp add: want_def split: if_splits)
      then obtain bs' k where rd: "se_pread env want (off + dl) (sr_os s) = (Some bs', k)" "length bs' \<le> want"
        "bs' = slice c (off + dl) (off + dl + length bs')" "bs' \<noteq> []"
        using still reads unfolding still_file_def by blast
      have fit: "dl + length bs' \<le> bf_size b" "off + (dl + length bs') \<le> cap" "0 < length bs'"
        using rd(2,4) pos room by (auto simp: want_def)
      note m = appended_spec [OF part(1,2) fit(1) [unfolded dl_def]]
      have whole: "slice c off (off + dl) @ bs' = slice c off (off + (dl + length bs'))"
        using slice_append [of off "off + dl" "off + dl + length bs'" c] rd(3) by (simp add: add.assoc)
      have f: "fill_buffer env s = Some (if length c \<le> off + dl + length bs' then 0 else int (dl + length bs'),
          s\<lparr>sr_ctxt := ?ctxt, sr_os := k, sr_buffer := appended b bs'\<rparr>)"
        using fill(2) [OF _ rd(1,4,2)] reads part(4) by simp
      have "filled env c fm ?ctxt (appended b bs')"
        by (rule grid) (use m fit part(3) whole in \<open>simp_all add: dl_def\<close>)
      moreover have "off + (dl + length bs') \<le> length c" using fit(2) cap(3) by simp
      moreover have nz: "int (bf_dl_len b) + int (length bs') \<noteq> 0" using fit(3) by linarith
      ultimately show ?thesis using f fit(3) m(4,6) by (simp add: fold) (simp add: dl_def nz)
    qed
  qed
qed

subsection \<open>Between checkpoints\<close>

text \<open>The rows the hashfile is given, and those of two stretches of the file one after the other.\<close>

definition sent :: "int \<Rightarrow> extent_csum option list \<Rightarrow> (int \<times> extent_csum) list" where
  "sent fid rs = map (Pair fid \<circ> the) (filter (\<lambda>r. r \<noteq> None) rs)"

lemma sent_append: "sent fid (rs @ qs) = sent fid rs @ sent fid qs"
  by (simp add: sent_def)

lemma filter_split:
  fixes f :: "'a \<Rightarrow> nat"
  assumes "a \<le> b" "b \<le> d"
  shows "sorted_wrt (\<lambda>x y. f x \<le> f y) xs \<Longrightarrow>
    filter (\<lambda>x. a < f x \<and> f x \<le> b \<and> P x) xs @ filter (\<lambda>x. b < f x \<and> f x \<le> d \<and> P x) xs
    = filter (\<lambda>x. a < f x \<and> f x \<le> d \<and> P x) xs"
proof (induction xs)
  case (Cons x xs)
  show ?case
  proof (cases "f x \<le> b")
    case True
    with Cons assms show ?thesis by auto
  next
    case False
    then have "filter (\<lambda>x. a < f x \<and> f x \<le> b \<and> P x) xs = []"
      using Cons.prems by (fastforce simp: filter_empty_conv)
    with Cons False assms show ?thesis by auto
  qed
qed simp

lemma rows_split:
  assumes wf: "fm_wf fm" and "base0 \<le> ckpt" "ckpt \<le> p"
  shows "rows xx c fm base0 ckpt @ rows xx c fm ckpt p = rows xx c fm base0 p"
proof -
  have "sorted_wrt (\<lambda>a b. nhi a \<le> nlo b) (exts fm)" using wf by (simp add: fm_wf_def recs_wf_def)
  then have "sorted_wrt (\<lambda>a b. fin (length c) a \<le> fin (length c) b) (exts fm)"
  proof (rule sorted_wrt_mono_rel [rotated])
    fix x y assume "x \<in> set (exts fm)" "y \<in> set (exts fm)" "nhi x \<le> nlo y"
    moreover have "nlo y < nhi y" using fm_wf_ext(2) [OF wf \<open>y \<in> set (exts fm)\<close>] .
    ultimately show "fin (length c) x \<le> fin (length c) y" by (simp add: fin_def)
  qed
  from filter_split [OF assms(2,3) this, of "\<lambda>e. nlo e < length c"]
  show ?thesis unfolding rows_def map_append [symmetric] by simp
qed

lemma ext_inv_gap:
  assumes wf: "fm_wf fm" and gap: "\<And>x e. p \<le> x \<Longrightarrow> x < p' \<Longrightarrow> e \<in> set (exts fm) \<Longrightarrow> \<not> (nlo e \<le> x \<and> x < nhi e)"
    and p: "p < p'" "p' \<le> length c" and inv: "ext_inv env c fm base p s"
  shows "ext_inv env c fm base p' s"
proof -
  have clear: "nhi e \<le> p \<or> p' \<le> nlo e" if "e \<in> set (exts fm)" for e
  proof (rule ccontr)
    assume "\<not> ?thesis"
    then have "p \<le> max p (nlo e)" "max p (nlo e) < p'" "nlo e \<le> max p (nlo e)" "max p (nlo e) < nhi e"
      using p fm_wf_ext(2) [OF wf that] by auto
    with gap that show False by blast
  qed
  have "rows (se_xx env) c fm base p' = rows (se_xx env) c fm base p"
  proof (rule rows_gap)
    fix e assume "e \<in> set (exts fm)" "nlo e < length c"
    with clear [of e] fm_wf_ext(2) [OF wf, of e] p show "\<not> (p < fin (length c) e \<and> fin (length c) e \<le> p')"
      by (auto simp: fin_def)
  qed (use p in simp)
  moreover have "inflight (length c) fm p = None" "inflight (length c) fm p' = None"
    using clear p by (fastforce intro: inflight_gap)+
  ultimately show ?thesis using inv by (simp add: ext_inv_def partial_def)
qed

subsection \<open>A checkpoint\<close>

lemma ext_batch_ok:
  assumes ok: "writes_ok api view" and i: "inside view sw D K (Some us)"
  shows "\<exists>sw'. store_extent_batch api h sw = (0, h\<lparr>h_extents := []\<rparr>, sw')
    \<and> (\<exists>vs. inside view sw' D K (Some (us @ vs)) \<and> erows vs = sent (h_fileid h) (h_extents h))"
proof (cases "h_extents h = []")
  case True
  with i show ?thesis by (intro exI [of _ sw]) (auto simp: store_extent_batch_def sent_def intro!: exI [of _ "[]"])
next
  case False
  let ?vs = "map (ExtentRow (h_fileid h) \<circ> the) (filter (\<lambda>e. e \<noteq> None) (h_extents h))"
  obtain sw' where "unit_writes api ?vs sw = (0, sw')" "inside view sw' D K (Some (us @ ?vs))"
    using writes_take [OF ok i] by blast
  with False show ?thesis
    by (auto simp: store_extent_batch_def dbfile_store_extent_hashes_def sent_def erows_extents intro!: exI [of _ ?vs])
qed

lemma block_batch_ok:
  assumes ok: "writes_ok api view" and i: "inside view sw D K (Some us)"
  shows "\<exists>h' sw'. store_block_batch api h sw = (0, h', sw') \<and> h_extents h' = h_extents h \<and> h_fileid h' = h_fileid h
    \<and> (\<exists>vs. inside view sw' D K (Some (us @ vs)) \<and> erows vs = [])"
proof (cases "h_blocks h = []")
  case True
  with i show ?thesis by (auto simp: store_block_batch_def intro!: exI [of _ "[]"])
next
  case False
  let ?vs = "map (BlockRow (h_fileid h)) (h_blocks h)"
  obtain sw' where "unit_writes api ?vs sw = (0, sw')" "inside view sw' D K (Some (us @ ?vs))"
    using writes_take [OF ok i] by blast
  with False show ?thesis
    by (auto simp: store_block_batch_def dbfile_store_block_hashes_def intro!: exI [of _ ?vs])
qed

text \<open>A run with its extents' rows sent: all else stays, but for the blocks and the cursor.\<close>

definition same_but_rows :: "('c, 'k) scan_run \<Rightarrow> ('c, 'k) scan_run \<Rightarrow> bool" where
  "same_but_rows s s' \<longleftrightarrow> sr_buffer s' = sr_buffer s
    \<and> sc_filesize (sr_ctxt s') = sc_filesize (sr_ctxt s) \<and> sc_off (sr_ctxt s') = sc_off (sr_ctxt s)
    \<and> sc_read_cap (sr_ctxt s') = sc_read_cap (sr_ctxt s) \<and> sc_fiemap (sr_ctxt s') = sc_fiemap (sr_ctxt s)
    \<and> sc_file_csum (sr_ctxt s') = sc_file_csum (sr_ctxt s) \<and> sc_extent_csum (sr_ctxt s') = sc_extent_csum (sr_ctxt s)
    \<and> h_fileid (sr_hashes s') = h_fileid (sr_hashes s)"

lemma unit_kept:
  assumes ok: "writes_ok (se_api env) view" and t: "taken view sw E"
  shows "\<exists>sw1 h2 sw2 sw3 sw4. scan_write_begin (se_api env) now sw = Some (0, sw1)
    \<and> store_extent_batch (se_api env) h sw1 = (0, h\<lparr>h_extents := []\<rparr>, sw2)
    \<and> store_block_batch (se_api env) (h\<lparr>h_extents := []\<rparr>) sw2 = (0, h2, sw3)
    \<and> h_extents h2 = [] \<and> h_fileid h2 = h_fileid h
    \<and> (\<exists>sw3'. dbfile_store_checkpoint (se_api env) (h_fileid h2) cp sw3 = (0, sw3')
        \<and> scan_write_flush (se_api env) sw3' = (0, sw4)) \<and> taken view sw4 (E @ sent (h_fileid h) (h_extents h))"
proof -
  obtain D K where i: "idle view sw D K" "\<not> sw_batch_lost sw" "erows (concat (D @ K)) = E"
    using t by (auto simp: taken_def)
  obtain sw1 where b: "scan_write_begin (se_api env) now sw = Some (0, sw1)" "inside view sw1 D K (Some [])"
    using begin_ok [OF ok i(1,2)] by blast
  obtain sw2 vs where e: "store_extent_batch (se_api env) h sw1 = (0, h\<lparr>h_extents := []\<rparr>, sw2)"
    "inside view sw2 D K (Some vs)" "erows vs = sent (h_fileid h) (h_extents h)"
    using ext_batch_ok [OF ok b(2), of h] by auto
  obtain h2 sw3 ws where k: "store_block_batch (se_api env) (h\<lparr>h_extents := []\<rparr>) sw2 = (0, h2, sw3)"
    "h_extents h2 = []" "h_fileid h2 = h_fileid h" "inside view sw3 D K (Some (vs @ ws))" "erows ws = []"
    using block_batch_ok [OF ok e(2), of "h\<lparr>h_extents := []\<rparr>"] by auto
  obtain sw3' where c: "dbfile_store_checkpoint (se_api env) (h_fileid h2) cp sw3 = (0, sw3')"
    "inside view sw3' D K (Some (vs @ ws @ [CheckpointRow (h_fileid h2) cp]))"
    using writes_take [OF ok k(4), of "[CheckpointRow (h_fileid h2) cp]"] by (auto simp: dbfile_store_checkpoint_def)
  obtain sw4 where f: "scan_write_flush (se_api env) sw3' = (0, sw4)"
    "idle view sw4 (D @ K @ [vs @ ws @ [CheckpointRow (h_fileid h2) cp]]) []" "\<not> sw_batch_lost sw4"
    using flush_ok [OF ok c(2)] by blast
  have "taken view sw4 (E @ sent (h_fileid h) (h_extents h))"
    unfolding taken_def using f(2,3) i(3) e(3) k(5)
    by (intro exI [of _ "D @ K @ [vs @ ws @ [CheckpointRow (h_fileid h2) cp]]"] exI [of _ "[]"]) simp
  with b(1) e(1) k(1,2,3) c(1) f(1) show ?thesis by blast
qed

text \<open>A checkpoint either gives up before it writes, or sends the rows.\<close>

lemma checkpoint_of_spec:
  "\<exists>r cur. checkpoint_of env mtime ctxt = (r, ctxt\<lparr>sc_cursor := cur\<rparr>) \<and> r \<noteq> Inl 0"
proof -
  have neg: "r \<noteq> 0" if "running_checksum_save (se_xx env) v1 c len = Inl r" for v1 c len r
    using that by (simp add: running_checksum_save_def split: if_splits)
  let ?freeze = "\<lambda>c. running_checksum_save (se_xx env) (se_old_hole_digests env) c (running_checksum_state_size (se_xx env))"
  show ?thesis
  proof (cases "?freeze (sc_file_csum ctxt)")
    case (Inl r)
    with neg [OF Inl] show ?thesis by (simp add: checkpoint_of_def exI [of _ "sc_cursor ctxt"])
  next
    case (Inr fs)
    show ?thesis
    proof (cases "sc_extent_csum ctxt")
      case None
      with Inr show ?thesis by (simp add: checkpoint_of_def Let_def exI [of _ "sc_cursor ctxt"])
    next
      case (Some c)
      obtain found cur where f: "ext_from (sc_fiemap ctxt) (sc_off ctxt) (sc_cursor ctxt) = (found, cur)" by fastforce
      show ?thesis
        using Inr Some f neg [of "se_old_hole_digests env" c]
        by (cases found; cases "?freeze c") (auto simp: checkpoint_of_def Let_def)
    qed
  qed
qed

lemma write_checkpoint_spec:
  assumes ok: "writes_ok (se_api env) view" and t: "taken view (sr_writer s) E"
  shows "\<exists>ret s'. write_checkpoint env mtime s = Some (ret, s') \<and> same_but_rows s s'
    \<and> (ret = 0 \<longrightarrow> h_extents (sr_hashes s') = []
        \<and> taken view (sr_writer s') (E @ sent (h_fileid (sr_hashes s)) (h_extents (sr_hashes s))))
    \<and> (ret \<noteq> 0 \<longrightarrow> h_extents (sr_hashes s') = h_extents (sr_hashes s) \<and> taken view (sr_writer s') E)"
proof -
  obtain r cur where r: "checkpoint_of env mtime (sr_ctxt s) = (r, (sr_ctxt s)\<lparr>sc_cursor := cur\<rparr>)" "r \<noteq> Inl 0"
    using checkpoint_of_spec by blast
  show ?thesis
  proof (cases r)
    case (Inl ret)
    with r t show ?thesis by (simp add: write_checkpoint_def same_but_rows_def)
  next
    case (Inr cp)
    obtain now k where k: "se_elapsed env (sr_os s) = (now, k)" by fastforce
    obtain sw1 h2 sw2 sw3 sw3' sw4 where u: "scan_write_begin (se_api env) now (sr_writer s) = Some (0, sw1)"
      "store_extent_batch (se_api env) (sr_hashes s) sw1 = (0, (sr_hashes s)\<lparr>h_extents := []\<rparr>, sw2)"
      "store_block_batch (se_api env) ((sr_hashes s)\<lparr>h_extents := []\<rparr>) sw2 = (0, h2, sw3)"
      "h_extents h2 = []" "h_fileid h2 = h_fileid (sr_hashes s)"
      "dbfile_store_checkpoint (se_api env) (h_fileid h2) cp sw3 = (0, sw3')"
      "scan_write_flush (se_api env) sw3' = (0, sw4)"
      "taken view sw4 (E @ sent (h_fileid (sr_hashes s)) (h_extents (sr_hashes s)))"
      using unit_kept [OF ok t, of now "sr_hashes s" cp] by blast
    show ?thesis
      using r Inr k u by (simp add: write_checkpoint_def checkpoint_unit_def same_but_rows_def)
  qed
qed

subsection \<open>One pass\<close>

definition loop_inv ::
  "('c, 'k) scan_env \<Rightarrow> ('c \<Rightarrow> hash_row dbview) \<Rightarrow> byte list \<Rightarrow> fiemap \<Rightarrow> int \<Rightarrow> (int \<times> extent_csum) list \<Rightarrow> nat \<Rightarrow> nat \<Rightarrow>
    ('c, 'k) scan_run \<Rightarrow> bool"
where
  "loop_inv env view c fm fid E base0 ckpt s \<longleftrightarrow>
    buf_inv env c fm (sr_ctxt s) (sr_buffer s)
    \<and> ext_inv env c fm ckpt (sc_off (sr_ctxt s)) s
    \<and> file_inv env c fm (sc_off (sr_ctxt s)) (sc_file_csum (sr_ctxt s))
    \<and> h_fileid (sr_hashes s) = fid \<and> base0 \<le> ckpt \<and> ckpt \<le> sc_off (sr_ctxt s)
    \<and> taken view (sr_writer s) (E @ sent fid (rows (se_xx env) c fm base0 ckpt))"

text \<open>The work a run still has before it.\<close>

definition to_go :: "byte list \<Rightarrow> ('c, 'k) scan_run \<Rightarrow> nat" where
  "to_go c s = (length c - sc_off (sr_ctxt s)) + (length c - (sc_off (sr_ctxt s) + bf_dl_len (sr_buffer s)))"

lemma nohole_mono: "nohole bs fm lo hi \<Longrightarrow> lo \<le> lo' \<Longrightarrow> nohole bs fm lo' hi"
  by (auto simp: nohole_def)

text \<open>Skipping a hole.\<close>

lemma buf_inv_skip:
  assumes inv: "buf_inv env c fm ctxt b" and hole: "block_is_hole (se_blocksize env) (next_ext fm (sc_off ctxt)) (sc_off ctxt)"
    and off: "sc_off ctxt < length c" "sc_off ctxt + h \<le> length c"
    and grid: "(sc_off ctxt + h) mod se_blocksize env = 0 \<or> sc_off ctxt + h = length c"
    and ctxt': "sc_fiemap ctxt' = sc_fiemap ctxt" "sc_filesize ctxt' = sc_filesize ctxt"
      "sc_read_cap ctxt' = sc_read_cap ctxt" "sc_off ctxt' = sc_off ctxt + h"
  shows "buf_inv env c fm ctxt' b \<and> bf_dl_len b = 0"
proof -
  note I = inv [unfolded buf_inv_def]
  have cap: "sc_read_cap ctxt \<le> sc_off ctxt" if "se_block_hash env"
  proof (rule ccontr)
    assume "\<not> ?thesis"
    then have "nohole (se_blocksize env) fm (sc_off ctxt) (sc_read_cap ctxt)" "sc_off ctxt mod se_blocksize env = 0"
      "sc_off ctxt < sc_read_cap ctxt"
      using I that off(1) by auto
    with hole show False unfolding nohole_def by auto
  qed
  have dl: "bf_dl_len b = 0"
  proof (rule ccontr)
    assume "bf_dl_len b \<noteq> 0"
    moreover from this have "sc_off ctxt + bf_dl_len b \<le> sc_read_cap ctxt" "se_block_hash env" using I by auto
    ultimately show False using cap by simp
  qed
  with I cap off(2) grid ctxt' show ?thesis by (auto simp: buf_inv_def)
qed

text \<open>Consuming bytes of a filled buffer.\<close>

lemma consume_spec:
  assumes wf: "fm_wf fm" and size: "length c < 2 ^ 63" and opts: "\<not> se_old_hole_digests env" "\<not> se_only_whole_files env"
    and fl: "filled env c fm (sr_ctxt s) (sr_buffer s)" and inv: "ext_inv env c fm base (sc_off (sr_ctxt s)) s"
    and base: "base \<le> sc_off (sr_ctxt s)" and bytes: "bytes \<le> bf_dl_len (sr_buffer s)"
  shows "\<exists>s'. consume env bytes s = Some s' \<and> ext_inv env c fm base (sc_off (sr_ctxt s')) s'
    \<and> sr_writer s' = sr_writer s \<and> sr_os s' = sr_os s \<and> h_fileid (sr_hashes s') = h_fileid (sr_hashes s)
    \<and> sc_off (sr_ctxt s') = sc_off (sr_ctxt s) + bytes \<and> sc_read_cap (sr_ctxt s') = sc_read_cap (sr_ctxt s)
    \<and> sc_fiemap (sr_ctxt s') = fm \<and> sc_filesize (sr_ctxt s') = length c
    \<and> sr_buffer s' = (sr_buffer s)\<lparr>bf_dl_offset := bytes, bf_dl_len := bf_dl_len (sr_buffer s) - bytes\<rparr>
    \<and> sc_file_csum (sr_ctxt s') = add_to_running_checksum (sc_file_csum (sr_ctxt s)) (buf_at (sr_buffer s) 0 bytes)"
proof -
  define off where "off = sc_off (sr_ctxt s)"
  define s1 where "s1 = s\<lparr>sr_ctxt := (sr_ctxt s)\<lparr>sc_file_csum := add_to_running_checksum (sc_file_csum (sr_ctxt s)) (buf_at (sr_buffer s) 0 bytes)\<rparr>\<rparr>"
  note F = fl [unfolded filled_def, folded off_def]
  have s1: "sr_buffer s1 = sr_buffer s" "sc_fiemap (sr_ctxt s1) = fm" "sc_off (sr_ctxt s1) = off" "sc_filesize (sr_ctxt s1) = length c"
    "ext_inv env c fm base off s1"
    using F inv by (simp_all add: s1_def off_def ext_inv_def)
  have size64: "length c < 2 ^ 64" using size by simp
  have stop: "off + bytes \<le> length c" using F bytes by linarith
  have "agree (sr_buffer s) fm c off (off + bytes)" using F bytes by (auto simp: agree_def)
  from extents_loop_spec [OF wf size64 opts(1) stop base [folded off_def] this s1(1-4), of off "bytes + 1"] s1(5)
  obtain s2 where s2: "process_extents env bytes s1 = Some s2" "frame s1 s2" "ext_inv env c fm base (off + bytes) s2"
    unfolding process_extents_def s1(3) by auto
  let ?s' = "s2\<lparr>sr_buffer := (sr_buffer s2)\<lparr>bf_dl_offset := bytes, bf_dl_len := bf_dl_len (sr_buffer s2) - bytes\<rparr>,
      sr_ctxt := (sr_ctxt s2)\<lparr>sc_off := sc_off (sr_ctxt s2) + bytes\<rparr>\<rparr>"
  have "consume env bytes s = Some ?s'"
    using s2(1) opts(2) by (simp add: consume_def Let_def s1_def)
  with s2(2,3) s1 show ?thesis
    by (auto simp: frame_def ext_inv_def off_def s1_def)
qed

lemma buf_at_dl [simp]: "buf_at (b\<lparr>bf_dl_offset := x, bf_dl_len := y\<rparr>) p n = buf_at b p n"
  by (simp add: buf_at_def)

lemma filled_rest:
  assumes fl: "filled env c fm ctxt b" and bs: "0 < se_blocksize env"
    and bytes: "bytes = (if \<not> se_block_hash env \<or> bf_faked b then bf_dl_len b else bf_dl_len b div se_blocksize env * se_blocksize env)
      \<or> bytes = bf_dl_len b \<and> sc_off ctxt + bytes = length c"
    and ctxt': "sc_fiemap ctxt' = fm" "sc_filesize ctxt' = length c" "sc_read_cap ctxt' = sc_read_cap ctxt"
      "sc_off ctxt' = sc_off ctxt + bytes"
  shows "buf_inv env c fm ctxt' (b\<lparr>bf_dl_offset := bytes, bf_dl_len := bf_dl_len b - bytes\<rparr>)"
proof -
  note F = fl [unfolded filled_def]
  define q where "q = bf_dl_len b div se_blocksize env * se_blocksize env"
  have q: "q \<le> bf_dl_len b" "bf_dl_len b - q < se_blocksize env" "q mod se_blocksize env = 0"
    using bs by (simp_all add: q_def minus_div_mult_eq_mod)
  have grid: "(x + y) mod se_blocksize env = 0" if "x mod se_blocksize env = 0" "y mod se_blocksize env = 0" for x y
    using that by (simp add: mod_0_imp_dvd)
  have cap: "nohole (se_blocksize env) fm (sc_off ctxt + bytes) (sc_read_cap ctxt)
      \<and> (sc_read_cap ctxt mod se_blocksize env = 0 \<or> sc_read_cap ctxt = length c)"
    if "se_block_hash env" "sc_off ctxt + bytes < sc_read_cap ctxt"
  proof -
    have "sc_off ctxt < sc_read_cap ctxt" using that(2) by simp
    then have "nohole (se_blocksize env) fm (sc_off ctxt) (sc_read_cap ctxt)"
      "sc_read_cap ctxt mod se_blocksize env = 0 \<or> sc_read_cap ctxt = length c" using F that(1) by blast+
    then show ?thesis using nohole_mono by (meson le_add1)
  qed
  show ?thesis
  proof (cases "bytes = bf_dl_len b")
    case True
    have "(sc_off ctxt + bytes) mod se_blocksize env = 0 \<or> sc_off ctxt + bytes = length c" if "se_block_hash env"
    proof (cases "sc_off ctxt + bytes = length c")
      case False
      with bytes that True have "bf_faked b \<or> bytes = q" by (auto simp: q_def split: if_splits)
      then have "bytes mod se_blocksize env = 0" using F True q(3) by auto
      moreover have "sc_off ctxt mod se_blocksize env = 0" using F that by simp
      ultimately show ?thesis using grid by simp
    qed simp
    with True F cap bs ctxt' show ?thesis by (auto simp: buf_inv_def buf_at_def)
  next
    case False
    then have b: "se_block_hash env" "\<not> bf_faked b" "bytes = q" using bytes by (auto simp: q_def split: if_splits)
    have "buf_at b bytes (bf_dl_len b - bytes) = drop bytes (buf_at b 0 (bf_dl_len b))"
      by (simp add: buf_at_def drop_take)
    also have "\<dots> = slice c (sc_off ctxt + bytes) (sc_off ctxt + bf_dl_len b)"
      using F b by (simp add: slice_def drop_take add.commute)
    finally have "buf_at b bytes (bf_dl_len b - bytes) = slice c (sc_off ctxt + bytes) (sc_off ctxt + bytes + (bf_dl_len b - bytes))"
      using q(1) b(3) by simp
    moreover have "sc_off ctxt mod se_blocksize env = 0" "bytes mod se_blocksize env = 0" using F b q(3) by simp_all
    then have "(sc_off ctxt + bytes) mod se_blocksize env = 0" by (rule grid)
    moreover have "bytes \<le> bf_dl_len b" using q(1) b(3) by simp
    moreover have "bf_dl_len b - bytes < se_blocksize env" using q(2) b(3) by simp
    ultimately show ?thesis using F b(1,2) cap ctxt' by (auto simp: buf_inv_def)
  qed
qed

text \<open>
  No extent lies wholly past the end of the file behind a hole that reaches it: the first extent to end
  after the last byte starts in a block that starts in the file, or there is none.
\<close>

definition ends_ok :: "nat \<Rightarrow> fiemap \<Rightarrow> nat \<Rightarrow> bool" where
  "ends_ok bs fm n \<longleftrightarrow> (case next_ext fm (n - 1) of None \<Rightarrow> True | Some e \<Rightarrow> nlo e div bs * bs \<le> n)"

lemma ends_ok_next:
  assumes wf: "fm_wf fm" and ends: "ends_ok bs fm n" and p: "p < n" and e: "next_ext fm p = Some e"
  shows "nlo e div bs * bs \<le> n"
proof (cases "n - 1 < nhi e")
  case True
  then obtain x where x: "next_ext fm (n - 1) = Some x"
    using next_ext_None [of fm "n - 1"] next_ext_in [OF e] by (cases "next_ext fm (n - 1)") auto
  from next_ext_in [OF x] have "x \<in> set (exts fm)" "p < nhi x" using p by auto
  from next_ext_first [OF wf e this] have "nlo e \<le> nlo x"
    using fm_wf_ext(2) [OF wf conjunct1 [OF next_ext_in [OF e]]] by auto
  then have "nlo e div bs * bs \<le> nlo x div bs * bs" by (simp add: div_le_mono)
  also have "\<dots> \<le> n" using ends x by (simp add: ends_ok_def)
  finally show ?thesis .
next
  case False
  have "nlo e div bs * bs \<le> nlo e" by simp
  moreover have "nlo e < nhi e" by (rule fm_wf_ext(2) [OF wf conjunct1 [OF next_ext_in [OF e]]])
  ultimately show ?thesis using False p by linarith
qed

lemma hole_run_length_fits:
  assumes wf: "fm_wf (sc_fiemap ctxt)" and off: "sc_off ctxt < sc_filesize ctxt" "sc_filesize ctxt < 2 ^ 64"
    and ends: "ends_ok bs (sc_fiemap ctxt) (sc_filesize ctxt)" and h: "hole_run_length bs ctxt = (h, ctxt')"
  shows "sc_off ctxt + h \<le> sc_filesize ctxt"
proof -
  obtain found cur where f: "ext_from (sc_fiemap ctxt) (sc_off ctxt) (sc_cursor ctxt) = (found, cur)" by fastforce
  have found: "found = next_ext (sc_fiemap ctxt) (sc_off ctxt)"
    using ext_from_next [OF wf, of "sc_off ctxt" "sc_cursor ctxt"] f off by simp
  have "nlo e div bs * bs \<le> sc_filesize ctxt" if "found = Some e" for e
    using ends_ok_next [OF wf ends off(1)] found that by simp
  with h f off(1) show ?thesis
    by (cases found) (auto simp: hole_run_length_def split: if_splits)
qed

lemma hole_pass:
  assumes wf: "fm_wf fm" and size: "length c < 2 ^ 63" and bs: "0 < se_blocksize env"
    and inv: "loop_inv env view c fm fid E base0 ckpt s" and off: "sc_off (sr_ctxt s) < length c"
    and ends: "ends_ok (se_blocksize env) fm (length c)"
    and hole: "block_is_hole (se_blocksize env) (next_ext fm (sc_off (sr_ctxt s))) (sc_off (sr_ctxt s))"
  shows "\<exists>s'. scan_pass env mtime ckpt enabled s = Some (None, s', ckpt, enabled)
    \<and> loop_inv env view c fm fid E base0 ckpt s' \<and> to_go c s' < to_go c s"
proof -
  let ?off = "sc_off (sr_ctxt s)"
  note L = inv [unfolded loop_inv_def]
  have B: "buf_inv env c fm (sr_ctxt s) (sr_buffer s)" using L by simp
  then have c: "sc_fiemap (sr_ctxt s) = fm" "sc_filesize (sr_ctxt s) = length c" by (simp_all add: buf_inv_def)
  have "?off < sc_filesize (sr_ctxt s)" "sc_filesize (sr_ctxt s) < 2 ^ 64" "fm_wf (sc_fiemap (sr_ctxt s))"
    using off size wf c by simp_all
  from hole_run_length_spec [OF this(3) bs this(1,2)]
  obtain h cur where h: "hole_run_length (se_blocksize env) (sr_ctxt s) = (h, (sr_ctxt s)\<lparr>sc_cursor := cur\<rparr>)"
    "h \<noteq> 0" "\<And>x e. ?off \<le> x \<Longrightarrow> x < ?off + h \<Longrightarrow> e \<in> set (exts fm) \<Longrightarrow> \<not> (nlo e \<le> x \<and> x < nhi e)"
    "(?off + h) mod se_blocksize env = 0 \<or> ?off + h = length c"
    "?off + h = hole_end (se_blocksize env) fm (length c) ?off"
    using hole c by auto
  have h5: "?off + h \<le> length c"
    using hole_run_length_fits [OF _ _ _ _ h(1)] c wf off size ends by simp
  note h = h(1-4) h5 h(5)
  define s' where "s' = skip_hole h (s\<lparr>sr_ctxt := (sr_ctxt s)\<lparr>sc_cursor := cur\<rparr>\<rparr>)"
  have s': "sr_buffer s' = sr_buffer s" "sr_writer s' = sr_writer s" "sr_hashes s' = sr_hashes s"
    "sc_off (sr_ctxt s') = ?off + h" "sc_fiemap (sr_ctxt s') = sc_fiemap (sr_ctxt s)"
    "sc_filesize (sr_ctxt s') = sc_filesize (sr_ctxt s)" "sc_read_cap (sr_ctxt s') = sc_read_cap (sr_ctxt s)"
    "sc_extent_csum (sr_ctxt s') = sc_extent_csum (sr_ctxt s)"
    "sc_file_csum (sr_ctxt s') = add_to_running_checksum (sc_file_csum (sr_ctxt s)) (le_bytes 8 ?off @ le_bytes 8 h)"
    by (simp_all add: s'_def skip_hole_def Let_def)
  have "scan_pass env mtime ckpt enabled s = Some (None, s', ckpt, enabled)"
    using h(1,2) by (simp add: scan_pass_def s'_def)
  moreover have b': "buf_inv env c fm (sr_ctxt s') (sr_buffer s) \<and> bf_dl_len (sr_buffer s) = 0"
    by (rule buf_inv_skip [OF B hole off h(5,4)]) (use s' in simp_all)
  moreover have "ext_inv env c fm ckpt (?off + h) s'"
  proof -
    have "ext_inv env c fm ckpt ?off s'" using L s' by (simp add: ext_inv_def)
    from ext_inv_gap [OF wf h(3) _ h(5) this] h(2) show ?thesis by simp
  qed
  moreover have "file_inv env c fm (?off + h) (sc_file_csum (sr_ctxt s'))"
    unfolding s'(9)
  proof (rule file_inv_step)
    show "file_inv env c fm ?off (sc_file_csum (sr_ctxt s))" using L by simp
    show "file_stream (se_blocksize env) fm c ?off
        = (le_bytes 8 ?off @ le_bytes 8 h) @ file_stream (se_blocksize env) fm c (?off + h)"
      using file_stream_hole [OF off hole _ h(6)] h(2) by simp
  qed
  ultimately show ?thesis
    using L s' h(2,5) by (auto simp: loop_inv_def to_go_def)
qed

text \<open>After the bytes are consumed: no interrupt comes, so there may be a checkpoint, and the loop goes on.\<close>

lemma after_pass_ok:
  assumes wf: "fm_wf fm" and ok: "writes_ok (se_api env) view" and still: "still_file env c"
    and inv: "loop_inv env view c fm fid E base0 ckpt s"
  shows "\<exists>s' ckpt' enabled'. after_pass env mtime ckpt enabled s = Some (None, s', ckpt', enabled')
    \<and> loop_inv env view c fm fid E base0 ckpt' s' \<and> to_go c s' = to_go c s"
proof -
  note L = inv [unfolded loop_inv_def]
  obtain k where k: "se_interrupted env (sr_os s) = (False, k)"
    using still unfolding still_file_def by (metis (full_types) prod.collapse)
  define s1 where "s1 = s\<lparr>sr_os := k\<rparr>"
  have t: "taken view (sr_writer s1) (E @ sent fid (rows (se_xx env) c fm base0 ckpt))" using L by (simp add: s1_def)
  have lost: "\<not> filescan_batch_lost (sr_writer s)" using L by (auto simp: taken_def filescan_batch_lost_def)
  have inv1: "loop_inv env view c fm fid E base0 ckpt s1" "to_go c s1 = to_go c s"
    using L by (simp_all add: loop_inv_def ext_inv_def s1_def to_go_def)
  show ?thesis
  proof (cases "\<not> enabled \<or> sc_off (sr_ctxt s) - ckpt < se_checkpoint_interval env")
    case True
    then have "after_pass env mtime ckpt enabled s = Some (None, s1, ckpt, enabled)"
      using k lost by (simp add: after_pass_def Let_def s1_def)
    with inv1 show ?thesis by blast
  next
    case False
    obtain ret s' where w: "write_checkpoint env mtime s1 = Some (ret, s')" "same_but_rows s1 s'"
      "ret = 0 \<Longrightarrow> h_extents (sr_hashes s') = []"
      "ret = 0 \<Longrightarrow> taken view (sr_writer s')
        ((E @ sent fid (rows (se_xx env) c fm base0 ckpt)) @ sent (h_fileid (sr_hashes s1)) (h_extents (sr_hashes s1)))"
      "ret \<noteq> 0 \<Longrightarrow> h_extents (sr_hashes s') = h_extents (sr_hashes s1)"
      "ret \<noteq> 0 \<Longrightarrow> taken view (sr_writer s') (E @ sent fid (rows (se_xx env) c fm base0 ckpt))"
      using write_checkpoint_spec [OF ok t, of mtime] by blast
    have a: "after_pass env mtime ckpt enabled s
        = (if ret \<noteq> 0 then Some (None, s', ckpt, False) else Some (None, s', sc_off (sr_ctxt s'), enabled))"
      using k lost False w(1) by (simp add: after_pass_def Let_def s1_def)
    have same: "sr_buffer s' = sr_buffer s" "sc_off (sr_ctxt s') = sc_off (sr_ctxt s)" "h_fileid (sr_hashes s') = fid"
      "sc_extent_csum (sr_ctxt s') = sc_extent_csum (sr_ctxt s)" "sc_file_csum (sr_ctxt s') = sc_file_csum (sr_ctxt s)" "buf_inv env c fm (sr_ctxt s') (sr_buffer s)"
      "to_go c s' = to_go c s"
      using w(2) L by (simp_all add: same_but_rows_def s1_def buf_inv_def to_go_def)
    show ?thesis
    proof (cases "ret = 0")
      case True
      have staged: "h_extents (sr_hashes s1) = rows (se_xx env) c fm ckpt (sc_off (sr_ctxt s))" "h_fileid (sr_hashes s1) = fid"
        using L by (simp_all add: s1_def ext_inv_def)
      have "sent fid (rows (se_xx env) c fm base0 ckpt) @ sent fid (rows (se_xx env) c fm ckpt (sc_off (sr_ctxt s)))
          = sent fid (rows (se_xx env) c fm base0 (sc_off (sr_ctxt s)))"
        using L rows_split [OF wf, of base0 ckpt] unfolding sent_append [symmetric] by simp
      then have "taken view (sr_writer s') (E @ sent fid (rows (se_xx env) c fm base0 (sc_off (sr_ctxt s))))"
        using w(4) [OF True] unfolding staged by simp
      then have "loop_inv env view c fm fid E base0 (sc_off (sr_ctxt s')) s'"
        using same L w(3) [OF True] by (simp add: loop_inv_def ext_inv_def)
      with a True same show ?thesis by simp
    next
      case neq: False
      have "loop_inv env view c fm fid E base0 ckpt s'"
        using same L w(5,6) [OF neq] by (simp add: loop_inv_def ext_inv_def s1_def)
      with a neq same show ?thesis by (intro exI [of _ s'] exI [of _ ckpt] exI [of _ False]) simp
    qed
  qed
qed

text \<open>What the run holds when the loop is over: the file to its end, all its rows sent or staged.\<close>

definition loop_done ::
  "('c, 'k) scan_env \<Rightarrow> ('c \<Rightarrow> hash_row dbview) \<Rightarrow> byte list \<Rightarrow> fiemap \<Rightarrow> int \<Rightarrow> (int \<times> extent_csum) list \<Rightarrow> nat \<Rightarrow> nat \<Rightarrow>
    ('c, 'k) scan_run \<Rightarrow> bool"
where
  "loop_done env view c fm fid E base0 ckpt s \<longleftrightarrow> loop_inv env view c fm fid E base0 ckpt s \<and> sc_off (sr_ctxt s) = length c"

lemma same_run_filled:
  "same_run s s' \<Longrightarrow> filled env c fm (sr_ctxt s) (sr_buffer s) \<Longrightarrow> filled env c fm (sr_ctxt s') (sr_buffer s')"
  by (simp add: same_run_def filled_def)

lemma data_pass:
  assumes wf: "fm_wf fm" and size: "length c < 2 ^ 63" and bs: "0 < se_blocksize env"
    and ok: "writes_ok (se_api env) view" and still: "still_file env c"
    and opts: "\<not> se_old_hole_digests env" "\<not> se_only_whole_files env"
    and inv: "loop_inv env view c fm fid E base0 ckpt s" and off: "sc_off (sr_ctxt s) < length c"
    and data: "\<not> block_is_hole (se_blocksize env) (next_ext fm (sc_off (sr_ctxt s))) (sc_off (sr_ctxt s))"
  shows "\<exists>e s' ckpt' enabled'. scan_pass env mtime ckpt enabled s = Some (e, s', ckpt', enabled')
    \<and> (if e = None then loop_inv env view c fm fid E base0 ckpt' s' \<and> to_go c s' < to_go c s
       else e = Some LoopDone \<and> loop_done env view c fm fid E base0 ckpt' s')"
proof -
  let ?off = "sc_off (sr_ctxt s)"
  note L = inv [unfolded loop_inv_def]
  have B: "buf_inv env c fm (sr_ctxt s) (sr_buffer s)" using L by simp
  then have c: "sc_fiemap (sr_ctxt s) = fm" "sc_filesize (sr_ctxt s) = length c" by (simp_all add: buf_inv_def)
  have "?off < sc_filesize (sr_ctxt s)" "sc_filesize (sr_ctxt s) < 2 ^ 64" "fm_wf (sc_fiemap (sr_ctxt s))"
    using off size wf c by simp_all
  from hole_run_length_spec [OF this(3) bs this(1,2)] data c
  obtain cur where h: "hole_run_length (se_blocksize env) (sr_ctxt s) = (0, (sr_ctxt s)\<lparr>sc_cursor := cur\<rparr>)" by auto
  define s0 where "s0 = s\<lparr>sr_ctxt := (sr_ctxt s)\<lparr>sc_cursor := cur\<rparr>\<rparr>"
  have s0: "buf_inv env c fm (sr_ctxt s0) (sr_buffer s0)" "sc_off (sr_ctxt s0) = ?off" "sr_hashes s0 = sr_hashes s"
    "sr_writer s0 = sr_writer s" "sc_extent_csum (sr_ctxt s0) = sc_extent_csum (sr_ctxt s)" "sr_buffer s0 = sr_buffer s"
    using B by (simp_all add: s0_def buf_inv_def)
  have s0csum: "sc_file_csum (sr_ctxt s0) = sc_file_csum (sr_ctxt s)" by (simp add: s0_def)
  obtain ret s1 where f: "fill_buffer env s0 = Some (ret, s1)" "0 \<le> ret" "sr_hashes s1 = sr_hashes s"
    "sr_writer s1 = sr_writer s" "sc_off (sr_ctxt s1) = ?off" "sc_extent_csum (sr_ctxt s1) = sc_extent_csum (sr_ctxt s)"
    "filled env c fm (sr_ctxt s1) (sr_buffer s1)"
    "ret = 0 \<longleftrightarrow> ?off + bf_dl_len (sr_buffer s1) = length c" "ret \<noteq> 0 \<Longrightarrow> bf_dl_len (sr_buffer s) < bf_dl_len (sr_buffer s1)"
    "sc_file_csum (sr_ctxt s1) = sc_file_csum (sr_ctxt s)"
    "bf_faked (sr_buffer s1) \<Longrightarrow> \<exists>e \<in> set (exts fm). ext_skip e"
    using fill_buffer_spec [OF wf size bs still s0(1)] off data unfolding s0(2-6) s0csum by blast
  note F = f(7) [unfolded filled_def]
  define dl where "dl = bf_dl_len (sr_buffer s1)"
  define q where "q = (if \<not> se_block_hash env \<or> bf_faked (sr_buffer s1) then dl else dl div se_blocksize env * se_blocksize env)"
  have q: "q \<le> dl" by (simp add: q_def)
  let ?E = "E @ sent fid (rows (se_xx env) c fm base0 ckpt)"
  have "taken view (sr_writer s1) ?E" using L f(4) by simp
  moreover have "fm_wf (sc_fiemap (sr_ctxt s1))" "sc_off (sr_ctxt s1) + bf_dl_len (sr_buffer s1) < 2 ^ 64"
    using wf F size by simp_all
  ultimately obtain s2 where p: "process_blocks env s1 = Some (int q, s2)" "same_run s1 s2" "taken view (sr_writer s2) ?E"
    using process_blocks_ok [OF ok] unfolding q_def dl_def by blast
  define bytes where "bytes = (if ret = 0 then dl else q)"
  have r2: "bf_dl_len (sr_buffer s2) = dl" "sc_off (sr_ctxt s2) = ?off" using p(2) f(5) by (simp_all add: same_run_def dl_def)
  obtain s3 where last: "(if ret = 0 \<and> nat (int q) < bf_dl_len (sr_buffer s2)
        then map_option (\<lambda>(ret, s3). (ret, bf_dl_len (sr_buffer s2), s3))
               (process_block env (buf_at (sr_buffer s2) (nat (int q)) (bf_dl_len (sr_buffer s2) - nat (int q)))
                 (sc_off (sr_ctxt s2) + nat (int q)) s2)
        else Some (0, nat (int q), s2)) = Some (0, bytes, s3)" "same_run s1 s3" "taken view (sr_writer s3) ?E"
  proof (cases "ret = 0 \<and> q < dl")
    case True
    obtain s3 where "process_block env (buf_at (sr_buffer s2) q (dl - q)) (?off + q) s2 = Some (0, s3)" "same_run s2 s3"
      "taken view (sr_writer s3) ?E"
      using process_block_ok [OF ok p(3)] by blast
    with True r2 same_run_trans [OF p(2)] show thesis by (intro that [of s3]) (simp_all add: bytes_def)
  next
    case False
    with p q r2 show thesis by (intro that [of s2]) (auto simp: bytes_def)
  qed
  have s3: "filled env c fm (sr_ctxt s3) (sr_buffer s3)" "ext_inv env c fm ckpt (sc_off (sr_ctxt s3)) s3"
    "ckpt \<le> sc_off (sr_ctxt s3)" "h_fileid (sr_hashes s3) = fid" "sc_off (sr_ctxt s3) = ?off" "sr_buffer s3 = sr_buffer s1"
    "sc_read_cap (sr_ctxt s3) = sc_read_cap (sr_ctxt s1)" "sc_file_csum (sr_ctxt s3) = sc_file_csum (sr_ctxt s)"
    using same_run_filled [OF last(2) f(7)] last(2) f(3,5,6,10) L by (simp_all add: same_run_def ext_inv_def)
  have "bytes \<le> bf_dl_len (sr_buffer s3)" using q s3(6) by (simp add: bytes_def dl_def)
  from consume_spec [OF wf size opts s3(1-3) this] obtain s4 where s4: "consume env bytes s3 = Some s4"
    "ext_inv env c fm ckpt (sc_off (sr_ctxt s4)) s4" "sr_writer s4 = sr_writer s3"
    "h_fileid (sr_hashes s4) = fid" "sc_off (sr_ctxt s4) = ?off + bytes" "sc_read_cap (sr_ctxt s4) = sc_read_cap (sr_ctxt s1)"
    "sc_fiemap (sr_ctxt s4) = fm" "sc_filesize (sr_ctxt s4) = length c"
    "sr_buffer s4 = (sr_buffer s1)\<lparr>bf_dl_offset := bytes, bf_dl_len := dl - bytes\<rparr>"
    "sc_file_csum (sr_ctxt s4) = add_to_running_checksum (sc_file_csum (sr_ctxt s)) (buf_at (sr_buffer s1) 0 bytes)"
    unfolding s3(4-8) dl_def by blast
  have "buf_inv env c fm (sr_ctxt s4) (sr_buffer s4)"
    unfolding s4(9) dl_def
    by (rule filled_rest [OF f(7) bs]) (use f(5,8) s4(5-8) in \<open>auto simp: bytes_def q_def dl_def\<close>)
  moreover have "file_inv env c fm (?off + bytes) (sc_file_csum (sr_ctxt s4))"
    unfolding s4(10)
  proof (rule file_inv_step)
    show "file_inv env c fm ?off (sc_file_csum (sr_ctxt s))" using L by simp
    assume b: "se_block_hash env" and data_only: "\<forall>e \<in> set (exts fm). \<not> ext_skip e"
    then have nf: "\<not> bf_faked (sr_buffer s1)" using f(11) by blast
    have bytes: "bytes \<le> dl" "bytes mod se_blocksize env = 0 \<or> ?off + bytes = length c"
      using q b nf f(8) by (auto simp: bytes_def q_def dl_def)
    have F': "?off + dl \<le> length c" "?off + dl \<le> sc_read_cap (sr_ctxt s1)" "?off mod se_blocksize env = 0"
      "?off < sc_read_cap (sr_ctxt s1) \<Longrightarrow> nohole (se_blocksize env) fm ?off (sc_read_cap (sr_ctxt s1))"
      "buf_at (sr_buffer s1) 0 dl = slice c ?off (?off + dl)"
      using F f(5) nf b by (simp_all add: dl_def)
    have "buf_at (sr_buffer s1) 0 bytes = take bytes (buf_at (sr_buffer s1) 0 dl)"
      using bytes(1) by (simp add: buf_at_def min_absorb1)
    also have "\<dots> = slice c ?off (?off + bytes)" using bytes(1) unfolding F'(5) by (simp add: slice_def min_absorb1)
    finally have buf: "buf_at (sr_buffer s1) 0 bytes = slice c ?off (?off + bytes)" .
    show "file_stream (se_blocksize env) fm c ?off
        = buf_at (sr_buffer s1) 0 bytes @ file_stream (se_blocksize env) fm c (?off + bytes)"
    proof (cases "?off < sc_read_cap (sr_ctxt s1)")
      case True
      show ?thesis
        unfolding buf by (rule file_stream_run [OF bs F'(4) [OF True] F'(3)]) (use F' bytes in simp_all)
    next
      case False
      then have "bytes = 0" using F'(2) bytes(1) by linarith
      then show ?thesis by (simp add: buf_at_def)
    qed
  qed
  ultimately have inv4: "loop_inv env view c fm fid E base0 ckpt s4"
    using s4(2,3,4,5) last(3) L by (simp add: loop_inv_def)
  have pass: "scan_pass env mtime ckpt enabled s
      = (if ret = 0 then Some (Some LoopDone, s4, ckpt, enabled) else after_pass env mtime ckpt enabled s4)"
    using h f(1,2) p(1) last(1) s4(1) by (simp add: scan_pass_def s0_def)
  show ?thesis
  proof (cases "ret = 0")
    case True
    then have "sc_off (sr_ctxt s4) = length c" using f(8) s4(5) by (simp add: bytes_def dl_def)
    with pass True inv4 show ?thesis by (simp add: loop_done_def)
  next
    case False
    have "bf_dl_len (sr_buffer s4) = dl - bytes" using s4(9) by simp
    moreover have "?off + dl \<le> length c" using F f(5) by (simp add: dl_def)
    moreover have "bf_dl_len (sr_buffer s) < dl" using f(9) [OF False] by (simp add: dl_def)
    ultimately have "to_go c s4 < to_go c s"
      using s4(5) q False unfolding to_go_def by (simp add: bytes_def)
    moreover obtain s' ckpt' enabled' where "after_pass env mtime ckpt enabled s4 = Some (None, s', ckpt', enabled')"
      "loop_inv env view c fm fid E base0 ckpt' s'" "to_go c s' = to_go c s4"
      using after_pass_ok [OF wf ok still inv4] by blast
    ultimately show ?thesis using pass False by simp
  qed
qed

subsection \<open>The loop\<close>

lemma scan_loop_ok:
  assumes wf: "fm_wf fm" and size: "length c < 2 ^ 63" and bs: "0 < se_blocksize env"
    and ok: "writes_ok (se_api env) view" and still: "still_file env c"
    and opts: "\<not> se_old_hole_digests env" "\<not> se_only_whole_files env"
    and ends: "ends_ok (se_blocksize env) fm (length c)"
  shows "loop_inv env view c fm fid E base0 ckpt s \<Longrightarrow> to_go c s < n \<Longrightarrow>
    \<exists>s' ckpt' enabled'. scan_loop n env mtime ckpt enabled s = Some (LoopDone, s', ckpt', enabled')
      \<and> loop_done env view c fm fid E base0 ckpt' s'"
proof (induction n arbitrary: ckpt enabled s)
  case 0
  then show ?case by simp
next
  case (Suc n)
  have "buf_inv env c fm (sr_ctxt s) (sr_buffer s)" using Suc.prems(1) by (simp add: loop_inv_def)
  then have c: "sc_filesize (sr_ctxt s) = length c" "sc_off (sr_ctxt s) \<le> length c" by (simp_all add: buf_inv_def)
  show ?case
  proof (cases "sc_off (sr_ctxt s) < length c")
    case False
    with c Suc.prems(1) show ?thesis by (simp add: loop_done_def)
  next
    case True
    obtain e s' ckpt' enabled' where pass: "scan_pass env mtime ckpt enabled s = Some (e, s', ckpt', enabled')"
      "if e = None then loop_inv env view c fm fid E base0 ckpt' s' \<and> to_go c s' < to_go c s
       else e = Some LoopDone \<and> loop_done env view c fm fid E base0 ckpt' s'"
    proof (cases "block_is_hole (se_blocksize env) (next_ext fm (sc_off (sr_ctxt s))) (sc_off (sr_ctxt s))")
      case hole: True
      from hole_pass [OF wf size bs Suc.prems(1) True ends hole] that show thesis by (metis (full_types))
    next
      case data: False
      from data_pass [OF wf size bs ok still opts Suc.prems(1) True data] that show thesis by blast
    qed
    show ?thesis
    proof (cases e)
      case None
      with pass have "loop_inv env view c fm fid E base0 ckpt' s'" "to_go c s' < n" using Suc.prems(2) by auto
      from Suc.IH [OF this, of enabled'] None pass(1) True c show ?thesis by simp
    next
      case (Some d)
      with pass True c show ?thesis by simp
    qed
  qed
qed

end
