(* ===== verification/ScanDigests.thy ===== *)
theory ScanDigests
  imports ScanLoop
begin

text \<open>
  What hashing a file gives: a file that holds still is read to its end and every extent that holds
  data is stored under the digest of its own bytes, however the reads are cut and wherever the
  checkpoints fall; and where the code falls short of that.
\<close>

subsection \<open>Every extent under its own digest\<close>

text \<open>The rows a file should have, from its contents and its map alone.\<close>

definition file_rows :: "xxhash \<Rightarrow> byte list \<Rightarrow> fiemap \<Rightarrow> int \<Rightarrow> (int \<times> extent_csum) list" where
  "file_rows xx c fm fid =
    map (\<lambda>e. (fid, \<lparr>ec_loff = fe_logical e, ec_poff = fe_physical e, ec_len = fe_length e,
                   ec_digest = finish_running_checksum xx (slice c (nlo e) (min (nhi e) (length c)))\<rparr>))
      (filter (\<lambda>e. \<not> ext_skip e \<and> nlo e < length c) (exts fm))"

definition staged :: "('c, 'k) scan_run \<Rightarrow> (int \<times> extent_csum) list" where
  "staged s = sent (h_fileid (sr_hashes s)) (h_extents (sr_hashes s))"

lemma sent_rows:
  "sent fid (rows xx c fm base p) = map (\<lambda>e. (fid, the (row xx c e)))
     (filter (\<lambda>e. \<not> ext_skip e \<and> base < fin (length c) e \<and> fin (length c) e \<le> p \<and> nlo e < length c) (exts fm))"
proof -
  have "sent fid (map (row xx c) (filter P es)) = map (\<lambda>e. (fid, the (row xx c e))) (filter (\<lambda>e. \<not> ext_skip e \<and> P e) es)" for P es
    by (induction es) (auto simp: sent_def row_def)
  then show ?thesis by (simp add: rows_def)
qed

lemma sent_all:
  assumes wf: "fm_wf fm"
  shows "sent fid (rows xx c fm 0 (length c)) = file_rows xx c fm fid"
proof -
  have "filter (\<lambda>e. \<not> ext_skip e \<and> 0 < fin (length c) e \<and> fin (length c) e \<le> length c \<and> nlo e < length c) (exts fm)
      = filter (\<lambda>e. \<not> ext_skip e \<and> nlo e < length c) (exts fm)"
    using fm_wf_ext(2) [OF wf] by (intro filter_cong refl) (fastforce simp: fin_def)
  then show ?thesis
    by (simp add: sent_rows file_rows_def row_def fin_def)
qed

text \<open>A run about to read a file from its start.\<close>

definition fresh_run :: "('c, 'k) scan_env \<Rightarrow> byte list \<Rightarrow> fiemap \<Rightarrow> ('c, 'k) scan_run \<Rightarrow> bool" where
  "fresh_run env c fm s \<longleftrightarrow>
    sc_filesize (sr_ctxt s) = length c \<and> sc_off (sr_ctxt s) = 0 \<and> sc_read_cap (sr_ctxt s) = 0
    \<and> sc_fiemap (sr_ctxt s) = fm \<and> sc_extent_csum (sr_ctxt s) = None
    \<and> sc_file_csum (sr_ctxt s) = start_running_checksum
    \<and> h_extents (sr_hashes s) = []
    \<and> bf_dl_offset (sr_buffer s) = 0 \<and> bf_dl_len (sr_buffer s) = 0
    \<and> length (bf_buf (sr_buffer s)) = bf_size (sr_buffer s) \<and> se_blocksize env \<le> bf_size (sr_buffer s)"

lemma fresh_loop_inv:
  assumes fresh: "fresh_run env c fm s" and bs: "0 < se_blocksize env" and t: "taken view (sr_writer s) E"
  shows "loop_inv env view c fm (h_fileid (sr_hashes s)) E 0 0 s"
proof -
  note F = fresh [unfolded fresh_run_def]
  have "inflight (length c) fm 0 = None" by (rule inflight_gap) simp
  moreover have "buf_inv env c fm (sr_ctxt s) (sr_buffer s)" using F bs by (simp add: buf_inv_def buf_at_def)
  ultimately show ?thesis using F t by (simp add: loop_inv_def ext_inv_def partial_def sent_def file_inv_start)
qed

text \<open>C1: Hashing a file that holds still ends at the end of the file, in at most two passes for each of
  its bytes; the rows sent at the checkpoints, then those still staged, are exactly one row for each
  extent that holds data, in order, under the digest of that extent's own bytes, whatever the lengths
  of the reads, the size of the buffer, the block size, the holes and the checkpoint interval. When blocks
  are hashed and nothing is preallocated, the whole-file digest is that of the file's blocks with each
  hole standing as its offset and length, again whatever the reads.\<close>

theorem scan_loop_hashes_every_extent:
  assumes "fm_wf fm" "length c < 2 ^ 63" "ends_ok (se_blocksize env) fm (length c)"
    and "0 < se_blocksize env" "\<not> se_old_hole_digests env" "\<not> se_only_whole_files env"
    and "writes_ok (se_api env) view" "still_file env c"
    and "fresh_run env c fm s" "taken view (sr_writer s) E"
  shows "\<exists>s' ckpt enabled' rs. scan_loop (2 * length c + 1) env mtime 0 enabled s = Some (LoopDone, s', ckpt, enabled')
    \<and> sc_off (sr_ctxt s') = length c \<and> taken view (sr_writer s') (E @ rs)
    \<and> rs @ staged s' = file_rows (se_xx env) c fm (h_fileid (sr_hashes s))
    \<and> (se_block_hash env \<and> (\<forall>e \<in> set (exts fm). \<not> ext_skip e) \<longrightarrow>
        finish_running_checksum (se_xx env) (sc_file_csum (sr_ctxt s'))
        = finish_running_checksum (se_xx env) (file_stream (se_blocksize env) fm c 0))"
proof -
  let ?fid = "h_fileid (sr_hashes s)"
  have inv: "loop_inv env view c fm ?fid E 0 0 s" by (rule fresh_loop_inv [OF assms(9,4,10)])
  have "to_go c s < 2 * length c + 1" by (simp add: to_go_def)
  from scan_loop_ok [OF assms(1,2,4,7,8,5,6,3) inv this] obtain s' ckpt enabled' where
    r: "scan_loop (2 * length c + 1) env mtime 0 enabled s = Some (LoopDone, s', ckpt, enabled')"
      "loop_done env view c fm ?fid E 0 ckpt s'"
    by blast
  have L: "loop_inv env view c fm ?fid E 0 ckpt s'" "sc_off (sr_ctxt s') = length c"
    using r(2) by (simp_all add: loop_done_def)
  then have "staged s' = sent ?fid (rows (se_xx env) c fm ckpt (length c))" "ckpt \<le> length c"
    by (simp_all add: loop_inv_def ext_inv_def staged_def)
  then have "sent ?fid (rows (se_xx env) c fm 0 ckpt) @ staged s' = file_rows (se_xx env) c fm ?fid"
    using rows_split [OF assms(1), of 0 ckpt "length c"] by (simp add: sent_append [symmetric] sent_all [OF assms(1)])
  moreover have "file_inv env c fm (length c) (sc_file_csum (sr_ctxt s'))" using L by (simp add: loop_inv_def)
  ultimately show ?thesis
    using r(1) L unfolding loop_inv_def file_inv_def by (fastforce dest: goes_on_as_finish)
qed

text \<open>A connection that does what it is asked, a file of three blocks with a hole in the middle, and
  reads of at most three bytes.\<close>

definition plain_db :: "('w dbview, 'w) sqlite" where
  "plain_db = \<lparr>
     sq_exec = (\<lambda>s v. if (case s of BeginTrans \<Rightarrow> v_txn v = None | SpBegin \<Rightarrow> True | SpRelease \<Rightarrow> v_mark v \<noteq> None
          | SpRollback \<Rightarrow> v_txn v \<noteq> None \<and> v_mark v \<noteq> None | _ \<Rightarrow> v_txn v \<noteq> None)
        then (0, script_effect s v) else (1, v)),
     sq_write = (\<lambda>w v. if v_txn v = None then (1, v) else (0, v\<lparr>v_txn := Some (the (v_txn v) @ [w])\<rparr>)),
     sq_prepare = (\<lambda>s c. (0, c)),
     sq_autocommit = (\<lambda>v. v_txn v = None)\<rparr>"

lemma plain_db_ok: "writes_ok (plain_db :: ('w dbview, 'w) sqlite) (\<lambda>v. v)"
proof -
  have "snd (sq_exec plain_db s v)
      \<in> (if fst (sq_exec plain_db s v) = 0 then stmt_done s v else stmt_failed s v)" for s and v :: "'w dbview"
    by (cases s) (auto simp: plain_db_def script_effect_def stmt_failed_def split: option.splits)
  moreover have "snd (sq_write plain_db w v)
      \<in> (if fst (sq_write plain_db w v) = 0 then write_done w v else {v, rolled_back v})" for w and v :: "'w dbview"
    by (auto simp: plain_db_def write_done_def split: option.splits)
  moreover have "stmt_done s v \<noteq> {} \<Longrightarrow> fst (sq_exec plain_db s v) = 0" for s and v :: "'w dbview"
    by (cases s) (auto simp: plain_db_def split: option.splits if_splits)
  moreover have "v_txn v \<noteq> None \<Longrightarrow> fst (sq_write plain_db w v) = 0" for w and v :: "'w dbview"
    by (simp add: plain_db_def)
  ultimately show ?thesis unfolding writes_ok_def sqlite_ok_def by (auto simp: plain_db_def)
qed

definition small_file :: "byte list" where
  "small_file = [1, 2, 3, 4, 0, 0, 0, 0, 5, 6, 7, 8]"

definition small_map :: fiemap where
  "small_map = \<lparr>fm_mapped_extents = 2, fm_extents =
     [\<lparr>fe_logical = 0, fe_physical = 4096, fe_length = 4, fe_flags = 0\<rparr>,
      \<lparr>fe_logical = 8, fe_physical = 8192, fe_length = 4, fe_flags = 0\<rparr>]\<rparr>"

definition small_env :: "(hash_row dbview, unit) scan_env" where
  "small_env = \<lparr>se_api = plain_db, se_xx = count_hash 803,
     se_pread = (\<lambda>want pos k. (Some (slice small_file pos (pos + min 3 want)), k)), se_elapsed = Pair 0,
     se_interrupted = Pair False, se_blocksize = 4, se_block_hash = True, se_skip_zeroes = True,
     se_only_whole_files = False, se_old_hole_digests = False, se_block_batch_max = 1, se_checkpoint_interval = 4\<rparr>"

definition small_run :: "(hash_row dbview, unit) scan_run" where
  "small_run = \<lparr>sr_writer = scan_writer_open \<lparr>v_durable = [], v_txn = None, v_mark = None\<rparr>, sr_os = (),
     sr_hashes = \<lparr>h_extents_count = 0, h_extents = [], h_blocks_count = 0, h_blocks = [], h_blocks_flushed = 0, h_fileid = 7\<rparr>,
     sr_ctxt = \<lparr>sc_filesize = 12, sc_off = 0, sc_read_cap = 0, sc_fiemap = small_map, sc_cursor = 0,
       sc_file_csum = start_running_checksum, sc_extent_csum = None\<rparr>,
     sr_buffer = \<lparr>bf_buf = replicate 8 0, bf_size = 8, bf_dl_offset = 0, bf_dl_len = 0, bf_faked = False\<rparr>\<rparr>"

lemma small_len: "length small_file = 12"
  by (simp add: small_file_def)

lemma small_ok:
  shows "fm_wf small_map" "length small_file < 2 ^ 63" "ends_ok (se_blocksize small_env) small_map (length small_file)"
    and "0 < se_blocksize small_env" "\<not> se_old_hole_digests small_env" "\<not> se_only_whole_files small_env"
    and "writes_ok (se_api small_env) (\<lambda>v. v)" "still_file small_env small_file"
    and "fresh_run small_env small_file small_map small_run" "taken (\<lambda>v. v) (sr_writer small_run) []"
proof -
  note len = small_len
  show "fm_wf small_map" by (simp add: fm_wf_def recs_wf_def small_map_def)
  show "ends_ok (se_blocksize small_env) small_map (length small_file)"
    by (simp add: ends_ok_def next_ext_def len small_map_def small_env_def)
  have "slice small_file pos (pos + min 3 want) \<noteq> []" if "0 < want" "pos < 12" for pos want
    using that by (simp add: slice_def len)
  moreover have "slice small_file pos (pos + min 3 want)
      = slice small_file pos (pos + length (slice small_file pos (pos + min 3 want)))" for pos want
    by (simp add: slice_def min_def)
  ultimately show "still_file small_env small_file"
    unfolding still_file_def by (auto simp: small_env_def len) (auto simp: slice_def)
  show "fresh_run small_env small_file small_map small_run"
    by (simp add: fresh_run_def small_run_def small_env_def len)
  show "taken (\<lambda>v. v) (sr_writer small_run) []"
    unfolding taken_def by (intro exI [of _ "[]"]) (simp add: idle_def small_run_def scan_writer_open_def)
  show "length small_file < 2 ^ 63" "0 < se_blocksize small_env" "\<not> se_old_hole_digests small_env"
    "\<not> se_only_whole_files small_env" "writes_ok (se_api small_env) (\<lambda>v. v)"
    using plain_db_ok by (simp_all add: len small_env_def)
qed

theorem scan_loop_hashes_every_extent_witness:
  "\<exists>s' ckpt enabled' rs. scan_loop 25 small_env 1 0 True small_run = Some (LoopDone, s', ckpt, enabled')
    \<and> sc_off (sr_ctxt s') = 12 \<and> taken (\<lambda>v. v) (sr_writer s') rs
    \<and> rs @ staged s' = file_rows (count_hash 803) small_file small_map 7
    \<and> finish_running_checksum (count_hash 803) (sc_file_csum (sr_ctxt s'))
      = finish_running_checksum (count_hash 803) (file_stream 4 small_map small_file 0)"
  using scan_loop_hashes_every_extent [OF small_ok, of 1 True]
  by (simp add: small_len) (simp add: small_env_def small_run_def small_map_def ext_skip_def)

end
