(* ===== verification/ScanFaults.thy ===== *)
theory ScanFaults
  imports ScanDigests
begin

text \<open>
  Hashing a file when something goes wrong: a checkpoint the hashfile refuses, a batch of block
  digests it refuses, and storage preallocated past the end of the file.
\<close>

subsection \<open>A checkpoint that fails\<close>

lemma extent_batch_spec:
  assumes ok: "sqlite_ok api view" and i: "inside view sw D K (Some us)" and r: "store_extent_batch api h sw = (ret, h', sw')"
  shows "h' = (if ret = 0 then h\<lparr>h_extents := []\<rparr> else h) \<and> (if ret = 0 then \<exists>ws. inside view sw' D K (Some ws) else \<exists>cur. inside view sw' D K cur)"
proof (cases "h_extents h = []")
  case True
  with i r show ?thesis by (auto simp: store_extent_batch_def)
next
  case False
  let ?vs = "map (ExtentRow (h_fileid h) \<circ> the) (filter (\<lambda>e. e \<noteq> None) (h_extents h))"
  obtain q sw2 where w: "unit_writes api ?vs sw = (q, sw2)" by fastforce
  from writes_spec [OF ok i w] r w False show ?thesis
    by (cases "q = 0") (auto simp: store_extent_batch_def dbfile_store_extent_hashes_def)
qed

lemma block_batch_spec:
  assumes ok: "sqlite_ok api view" and i: "inside view sw D K (Some us)" and r: "store_block_batch api h sw = (ret, h', sw')"
  shows "h_extents h' = h_extents h \<and> (if ret = 0 then \<exists>ws. inside view sw' D K (Some ws) else \<exists>cur. inside view sw' D K cur)"
proof (cases "h_blocks h = []")
  case True
  with i r show ?thesis by (auto simp: store_block_batch_def)
next
  case False
  let ?vs = "map (BlockRow (h_fileid h)) (h_blocks h)"
  obtain q sw2 where w: "unit_writes api ?vs sw = (q, sw2)" by fastforce
  from writes_spec [OF ok i w] r w False show ?thesis
    by (cases "q = 0") (auto simp: store_block_batch_def dbfile_store_block_hashes_def)
qed

lemma checkpoint_unit_fails:
  assumes ok: "sqlite_ok (se_api env) view" and t: "taken view (sr_writer s) E"
    and r: "checkpoint_unit env cp s = Some (ret, s')" and ret: "ret \<noteq> 0"
  shows "(h_extents (sr_hashes s') = h_extents (sr_hashes s) \<or> h_extents (sr_hashes s') = [])
    \<and> (sw_batch_lost (sr_writer s') \<or> taken view (sr_writer s') E)"
proof -
  obtain D K where i: "idle view (sr_writer s) D K" "\<not> sw_batch_lost (sr_writer s)" "erows (concat (D @ K)) = E"
    using t by (auto simp: taken_def)
  have undone: "sw_batch_lost sw \<or> taken view sw E" if "idle view sw D K" for sw
    using that i(3) by (auto simp: taken_def)
  obtain now k where k: "se_elapsed env (sr_os s) = (now, k)" by fastforce
  obtain ret0 sw where b: "scan_write_begin (se_api env) now (sr_writer s) = Some (ret0, sw)"
    "if ret0 = 0 then inside view sw D K (Some []) else idle view sw D K \<and> sw_batch_lost sw = sw_batch_lost (sr_writer s)"
    using begin_spec [OF ok i(1)] by blast
  show ?thesis
  proof (cases "ret0 = 0")
    case False
    with b k r ret undone [of sw] show ?thesis by (auto simp: checkpoint_unit_def)
  next
    case True
    obtain ret1 h1 sw1 where e: "store_extent_batch (se_api env) (sr_hashes s) sw = (ret1, h1, sw1)" by (metis prod_cases3)
    from b True have "inside view sw D K (Some [])" by simp
    from extent_batch_spec [OF ok this e]
    have h1: "h_extents h1 = h_extents (sr_hashes s) \<or> h_extents h1 = []"
      and i1: "if ret1 = 0 then \<exists>ws. inside view sw1 D K (Some ws) else \<exists>cur. inside view sw1 D K cur"
      by auto
    obtain ret2 h2 sw2 where f: "(if ret1 = 0 then store_block_batch (se_api env) h1 sw1 else (ret1, h1, sw1)) = (ret2, h2, sw2)"
      by (metis prod_cases3)
    have h2: "h_extents h2 = h_extents h1"
      and i2: "if ret2 = 0 then \<exists>ws. inside view sw2 D K (Some ws) else \<exists>cur. inside view sw2 D K cur"
      using f i1 block_batch_spec [OF ok, of sw1 D K _ h1 ret2 h2 sw2] by (auto split: if_splits)
    obtain ret3 sw3 where g: "(if ret2 = 0 then dbfile_store_checkpoint (se_api env) (h_fileid h2) cp sw2 else (ret2, sw2)) = (ret3, sw3)"
      by fastforce
    have i3: "if ret3 = 0 then \<exists>ws. inside view sw3 D K (Some ws) else \<exists>cur. inside view sw3 D K cur"
    proof (cases "ret2 = 0")
      case True
      then obtain ws where "inside view sw2 D K (Some ws)" using i2 by auto
      moreover have "unit_writes (se_api env) [CheckpointRow (h_fileid h2) cp] sw2 = (ret3, sw3)"
        using g True by (simp add: dbfile_store_checkpoint_def)
      ultimately show ?thesis using writes_spec [OF ok] by (fastforce split: if_splits)
    next
      case False
      with g i2 show ?thesis by auto
    qed
    show ?thesis
    proof (cases "ret3 = 0")
      case False
      then obtain cur where "inside view sw3 D K cur" using i3 by auto
      from undone [OF abort_spec [OF ok this]] False b(1) True k e f g r h1 h2 show ?thesis
        by (auto simp: checkpoint_unit_def)
    next
      case t3: True
      then obtain ws where "inside view sw3 D K (Some ws)" using i3 by auto
      moreover obtain ret4 sw4 where fl: "scan_write_flush (se_api env) sw3 = (ret4, sw4)" by fastforce
      ultimately have "ret4 \<noteq> 0 \<Longrightarrow> sw_batch_lost sw4" using flush_inside [OF ok] by fastforce
      with t3 fl b(1) True k e f g r ret h1 h2 show ?thesis
        by (auto simp: checkpoint_unit_def)
    qed
  qed
qed


text \<open>The run over the small file once its first extent is staged, and a hashfile that takes the row of
  that extent and refuses the checkpoint after it, as a full disk does.\<close>

definition full_env :: "(int list \<times> hash_row dbview, unit) scan_env" where
  "full_env = \<lparr>se_api = script_db, se_xx = count_hash 803,
     se_pread = (\<lambda>want pos k. (Some (slice small_file pos (pos + min 3 want)), k)), se_elapsed = Pair 0,
     se_interrupted = Pair False, se_blocksize = 4, se_block_hash = True, se_skip_zeroes = True,
     se_only_whole_files = False, se_old_hole_digests = False, se_block_batch_max = 4, se_checkpoint_interval = 4\<rparr>"

definition first_row :: extent_csum where
  "first_row = \<lparr>ec_loff = 0, ec_poff = 4096, ec_len = 4, ec_digest = finish_running_checksum (count_hash 803) [1, 2, 3, 4]\<rparr>"

definition staged_run :: "(int list \<times> hash_row dbview, unit) scan_run" where
  "staged_run = \<lparr>sr_writer = scan_writer_open ([0, 0, 0, 1], \<lparr>v_durable = [], v_txn = None, v_mark = None\<rparr>), sr_os = (),
     sr_hashes = \<lparr>h_extents_count = 4, h_extents = [Some first_row], h_blocks_count = 0,
       h_blocks = [], h_blocks_flushed = 0, h_fileid = 7\<rparr>,
     sr_ctxt = \<lparr>sc_filesize = 12, sc_off = 4, sc_read_cap = 4, sc_fiemap = small_map, sc_cursor = 0,
       sc_file_csum = [1, 2, 3, 4], sc_extent_csum = None\<rparr>,
     sr_buffer = \<lparr>bf_buf = replicate 8 0, bf_size = 8, bf_dl_offset = 0, bf_dl_len = 0, bf_faked = False\<rparr>\<rparr>"

lemma failed_checkpoint_drops_rows:
  "case write_checkpoint full_env 1 staged_run of
     None \<Rightarrow> False
   | Some (ret, s') \<Rightarrow> ret = 1 \<and> h_extents (sr_hashes s') = [] \<and> \<not> sw_batch_lost (sr_writer s')
       \<and> v_durable (snd (sw_db (sr_writer s'))) = [] \<and> v_txn (snd (sw_db (sr_writer s'))) = Some []"
  "after_pass full_env 1 0 True staged_run
     = map_option (\<lambda>(ret, s'). (None, s', 0, False)) (write_checkpoint full_env 1 staged_run)"
proof -
  note defs = write_checkpoint_def checkpoint_of_def running_checksum_save_def checkpoint_unit_def
    scan_write_begin_def filescan_batch_lost_def dbfile_begin_trans_def scan_exec_def dbfile_exec_def
    store_extent_batch_def dbfile_store_extent_hashes_def store_block_batch_def dbfile_store_checkpoint_def
    scan_write_abort_def script_db_def scripted_def script_effect_def scan_writer_open_def full_env_def staged_run_def
  show checkpoint: "case write_checkpoint full_env 1 staged_run of
     None \<Rightarrow> False
   | Some (ret, s') \<Rightarrow> ret = 1 \<and> h_extents (sr_hashes s') = [] \<and> \<not> sw_batch_lost (sr_writer s')
       \<and> v_durable (snd (sw_db (sr_writer s'))) = [] \<and> v_txn (snd (sw_db (sr_writer s'))) = Some []"
    by (simp add: defs Let_def)
  have same: "staged_run\<lparr>sr_os := ()\<rparr> = staged_run" by (simp add: staged_run_def)
  have "se_interrupted full_env k = (False, k)" "\<not> filescan_batch_lost (sr_writer staged_run)"
    "\<not> sc_off (sr_ctxt staged_run) - 0 < se_checkpoint_interval full_env" "sr_os staged_run = ()" for k
    by (simp_all add: full_env_def staged_run_def filescan_batch_lost_def scan_writer_open_def)
  then show "after_pass full_env 1 0 True staged_run
     = map_option (\<lambda>(ret, s'). (None, s', 0, False)) (write_checkpoint full_env 1 staged_run)"
    using checkpoint by (auto simp: after_pass_def Let_def same split: option.splits)
qed


subsection \<open>Block digests the hashfile refuses\<close>

text \<open>
  An error of the hashfile is a positive number, and so is the answer of \<open>process_blocks\<close> when there is
  none: the number of bytes it took. So an error code goes for a count: that many bytes of the buffer
  are consumed, off the block grid, and the loop goes on as if nothing had failed.
\<close>

lemma refused_blocks_taken_for_bytes:
  assumes "hole_run_length (se_blocksize env) (sr_ctxt s) = (0, ctxt)" "fill_buffer env (s\<lparr>sr_ctxt := ctxt\<rparr>) = Some (r, s1)" "0 < r"
    and "se_block_hash env" "\<not> bf_faked (sr_buffer s1)"
    and "blocks_loop env (bf_dl_len (sr_buffer s1) div se_blocksize env) 0 (sc_off (sr_ctxt s1)) s1 = Some (err, s2)" "0 < err"
    and "consume env (nat err) s2 = Some s3"
  shows "scan_pass env mtime ckpt enabled s = after_pass env mtime ckpt enabled s3"
  using assms by (simp add: scan_pass_def process_blocks_def Let_def)

subsection \<open>Storage past the end\<close>

text \<open>C36: When a hole reaches the end of the file and the next extent starts in a block past it, as storage
  preallocated with \<open>FALLOC_FL_KEEP_SIZE\<close> does, the hole is taken to run to that extent: the scan ends
  past the end of the file, which the code takes for a file that changed under it and does not store,
  in every run.\<close>

theorem hole_before_preallocation_overshoots:
  assumes "fm_wf (sc_fiemap (sr_ctxt s))" "0 < se_blocksize env" "sc_off (sr_ctxt s) < sc_filesize (sr_ctxt s)"
    and "sc_filesize (sr_ctxt s) < 2 ^ 64" "next_ext (sc_fiemap (sr_ctxt s)) (sc_off (sr_ctxt s)) = Some e"
    and "sc_off (sr_ctxt s) + se_blocksize env \<le> nlo e"
    and "sc_filesize (sr_ctxt s) < nlo e div se_blocksize env * se_blocksize env"
  shows "\<exists>s'. scan_loop (Suc (Suc n)) env mtime ckpt enabled s = Some (LoopDone, s', ckpt, enabled)
    \<and> sc_filesize (sr_ctxt s') = sc_filesize (sr_ctxt s) \<and> sc_filesize (sr_ctxt s') < sc_off (sr_ctxt s')"
proof -
  let ?ctxt = "sr_ctxt s" and ?bs = "se_blocksize env"
  obtain cur where f: "ext_from (sc_fiemap ?ctxt) (sc_off ?ctxt) (sc_cursor ?ctxt) = (Some e, cur)"
    using ext_from_next [OF assms(1), of "sc_off ?ctxt" "sc_cursor ?ctxt"] assms(3-5)
    by (cases "ext_from (sc_fiemap ?ctxt) (sc_off ?ctxt) (sc_cursor ?ctxt)") simp
  define h where "h = nlo e div ?bs * ?bs - sc_off ?ctxt"
  have h: "hole_run_length ?bs ?ctxt = (h, ?ctxt\<lparr>sc_cursor := cur\<rparr>)" "sc_off ?ctxt + h = nlo e div ?bs * ?bs" "h \<noteq> 0"
    using f assms(3,6,7) by (simp_all add: hole_run_length_def block_is_hole_def h_def)
  let ?s' = "skip_hole h (s\<lparr>sr_ctxt := ?ctxt\<lparr>sc_cursor := cur\<rparr>\<rparr>)"
  have "scan_pass env mtime ckpt enabled s = Some (None, ?s', ckpt, enabled)"
    using h(1,3) by (simp add: scan_pass_def)
  moreover have "sc_filesize (sr_ctxt ?s') = sc_filesize ?ctxt" "sc_off (sr_ctxt ?s') = nlo e div ?bs * ?bs"
    using h(2) by (simp_all add: skip_hole_def Let_def)
  ultimately show ?thesis using assms(3,7) by (intro exI [of _ ?s']) simp
qed

text \<open>A sparse file of two blocks, the second a hole, with storage preallocated from its fourth on.\<close>

definition preallocated_map :: fiemap where
  "preallocated_map = \<lparr>fm_mapped_extents = 2, fm_extents =
     [\<lparr>fe_logical = 0, fe_physical = 4096, fe_length = 4, fe_flags = 0\<rparr>,
      \<lparr>fe_logical = 16, fe_physical = 8192, fe_length = 4, fe_flags = FIEMAP_EXTENT_UNWRITTEN\<rparr>]\<rparr>"

definition sparse_run :: "(hash_row dbview, unit) scan_run" where
  "sparse_run = small_run\<lparr>sr_ctxt := \<lparr>sc_filesize = 8, sc_off = 4, sc_read_cap = 4, sc_fiemap = preallocated_map,
     sc_cursor = 0, sc_file_csum = [1, 2, 3, 4], sc_extent_csum = None\<rparr>\<rparr>"

theorem hole_before_preallocation_overshoots_witness:
  "\<exists>s'. scan_loop (Suc (Suc 0)) small_env 1 0 True sparse_run = Some (LoopDone, s', 0, True)
    \<and> sc_filesize (sr_ctxt s') = 8 \<and> 8 < sc_off (sr_ctxt s')"
proof -
  define e where "e = \<lparr>fe_logical = 16, fe_physical = 8192, fe_length = 4, fe_flags = FIEMAP_EXTENT_UNWRITTEN\<rparr>"
  have "fm_wf (sc_fiemap (sr_ctxt sparse_run))"
    by (simp add: fm_wf_def recs_wf_def sparse_run_def preallocated_map_def)
  moreover have "next_ext (sc_fiemap (sr_ctxt sparse_run)) (sc_off (sr_ctxt sparse_run)) = Some e"
    by (simp add: next_ext_def sparse_run_def preallocated_map_def e_def)
  moreover have "0 < se_blocksize small_env" "sc_off (sr_ctxt sparse_run) < sc_filesize (sr_ctxt sparse_run)"
    "sc_filesize (sr_ctxt sparse_run) < 2 ^ 64" "sc_off (sr_ctxt sparse_run) + se_blocksize small_env \<le> nlo e"
    "sc_filesize (sr_ctxt sparse_run) < nlo e div se_blocksize small_env * se_blocksize small_env"
    by (simp_all add: sparse_run_def small_env_def e_def)
  ultimately show ?thesis
    using hole_before_preallocation_overshoots [of sparse_run small_env e 0 1 0 True]
    by (auto simp: sparse_run_def simp del: scan_loop.simps)
qed

end
