(* ===== verification/ScanResume.thy ===== *)
theory ScanResume
  imports ScanDigests
begin

text \<open>
  Taking up a file where an interrupted run left it (file_scan.c): the checkpoint read back, the
  decision whether this binary and the file as it is now can go on from it, and what happens when not.
  The row of the checkpoint is what the SELECT gives; the row has no extent state when that column is
  empty or NULL.
\<close>

subsection \<open>Reading a checkpoint back\<close>

record scan_resume =
  rs_off :: nat
  rs_csum :: "running_checksum option"
  rs_ext_csum :: "running_checksum option"
  rs_ext_loff :: u64
  rs_ext_len :: u64
  rs_v1 :: bool

definition dbfile_load_checkpoint :: "xxhash \<Rightarrow> scan_checkpoint option \<Rightarrow> scan_checkpoint option" where
  "dbfile_load_checkpoint xx found =
    (case found of
       None \<Rightarrow> None
     | Some cp \<Rightarrow>
         let len = running_checksum_state_size xx;
             ext_len = (case cp_ext_state cp of None \<Rightarrow> 0 | Some e \<Rightarrow> length e)
         in if length (cp_file_state cp) \<noteq> len \<or> ext_len \<noteq> 0 \<and> ext_len \<noteq> len then None
            else Some (cp\<lparr>cp_ext_state := if ext_len \<noteq> 0 then cp_ext_state cp else None\<rparr>))"

definition scan_resume_drop :: "scan_resume \<Rightarrow> scan_resume" where
  "scan_resume_drop r = r\<lparr>rs_csum := None, rs_ext_csum := None\<rparr>"

text \<open>The resume a checkpoint gives for a file of this size and time, if it is usable.\<close>

definition resume_point :: "xxhash \<Rightarrow> scan_checkpoint \<Rightarrow> nat \<Rightarrow> u64 \<Rightarrow> scan_resume option" where
  "resume_point xx cp fsize mtime =
    (if cp_size cp = fsize \<and> cp_mtime cp = mtime \<and> 0 < cp_loff cp \<and> cp_loff cp < fsize
     then case running_checksum_restore xx (cp_file_state cp) of
            None \<Rightarrow> None
          | Some c \<Rightarrow>
              let r = \<lparr>rs_off = cp_loff cp, rs_csum = Some c, rs_ext_csum = None, rs_ext_loff = cp_ext_loff cp,
                       rs_ext_len = cp_ext_len cp, rs_v1 = (running_checksum_state_version xx (cp_file_state cp) = 1)\<rparr>
              in (case cp_ext_state cp of
                    None \<Rightarrow> Some r
                  | Some e \<Rightarrow> map_option (\<lambda>x. r\<lparr>rs_ext_csum := Some x\<rparr>) (running_checksum_restore xx e))
     else None)"

definition dbfile_remove_hashes_from ::
  "('c, hash_row) sqlite \<Rightarrow> int \<Rightarrow> nat \<Rightarrow> 'c scan_writer \<Rightarrow> int \<times> 'c scan_writer" where
  "dbfile_remove_hashes_from api fileid loff sw =
    unit_writes api [RemoveBlocksFrom fileid (word_of_nat loff), RemoveExtentsFrom fileid (word_of_nat loff)] sw"

definition dbfile_remove_hashes :: "('c, hash_row) sqlite \<Rightarrow> int \<Rightarrow> 'c scan_writer \<Rightarrow> int \<times> 'c scan_writer" where
  "dbfile_remove_hashes api fileid sw = dbfile_remove_hashes_from api fileid 0 sw"

definition dbfile_remove_checkpoint :: "('c, hash_row) sqlite \<Rightarrow> int \<Rightarrow> 'c scan_writer \<Rightarrow> int \<times> 'c scan_writer" where
  "dbfile_remove_checkpoint api fileid sw = unit_writes api [RemoveCheckpoint fileid] sw"

text \<open>The answer, and the writer and the operating system after it. What the deletions return is ignored,
  and so is what ending the unit returns.\<close>

definition resume_scan ::
  "('c, 'k) scan_env \<Rightarrow> scan_checkpoint option \<Rightarrow> int \<Rightarrow> nat \<Rightarrow> u64 \<Rightarrow> 'c scan_writer \<times> 'k \<Rightarrow>
    (scan_resume option \<times> 'c scan_writer \<times> 'k) option"
where
  "resume_scan env found fileid fsize mtime st =
    (case st of (sw, k) \<Rightarrow>
      (case dbfile_load_checkpoint (se_xx env) found of
         None \<Rightarrow> Some (None, sw, k)
       | Some cp \<Rightarrow>
           let r = resume_point (se_xx env) cp fsize mtime
           in case se_elapsed env k of
                (now, k1) \<Rightarrow>
                  (case scan_write_begin (se_api env) now sw of
                     None \<Rightarrow> None
                   | Some (ret, sw1) \<Rightarrow>
                       if ret \<noteq> 0 then Some (None, sw1, k1)
                       else
                         let sw2 = snd (if r \<noteq> None then dbfile_remove_hashes_from (se_api env) fileid (cp_loff cp) sw1
                                        else dbfile_remove_checkpoint (se_api env) fileid sw1)
                         in case se_elapsed env k1 of
                              (now', k2) \<Rightarrow> Some (r, snd (scan_write_end (se_api env) now' sw2), k2))))"

subsection \<open>Adopting it\<close>

definition hole_read_before :: "nat \<Rightarrow> fiemap \<Rightarrow> nat \<Rightarrow> bool" where
  "hole_read_before blocksize fm i =
    (let e = ext_at fm i;
         (prev_end, prev_skip) = (if 0 < i then (fe_end (ext_at fm (i - 1)), ext_skip (ext_at fm (i - 1))) else (0, False))
     in prev_end < fe_logical e
        \<and> (prev_skip \<or> prev_end mod word_of_nat blocksize \<noteq> 0 \<or> fe_logical e mod word_of_nat blocksize \<noteq> 0))"

text \<open>Whether a data extent an older binary reached sits behind a hole it may have hashed.\<close>

fun old_hole_loop :: "nat \<Rightarrow> fiemap \<Rightarrow> nat \<Rightarrow> nat list \<Rightarrow> bool" where
  "old_hole_loop blocksize fm off [] = False"
| "old_hole_loop blocksize fm off (i # is) =
    (if off \<le> unat (fe_logical (ext_at fm i)) then False
     else if \<not> ext_skip (ext_at fm i) \<and> hole_read_before blocksize fm i then True
     else old_hole_loop blocksize fm off is)"

text \<open>Why a resume is declined, in the order of the tests; the extent is the one found at its offset.\<close>

datatype decline = FollowsHole | LayoutChanged | CoversHole | NoExtentState

definition resume_declined :: "('c, 'k) scan_env \<Rightarrow> scan_resume \<Rightarrow> fiemap \<Rightarrow> fiemap_extent option \<Rightarrow> decline option" where
  "resume_declined env r fm found =
    (if rs_v1 r \<and> old_hole_loop (se_blocksize env) fm (rs_off r) [0 ..< fm_mapped_extents fm] then Some FollowsHole
     else if rs_ext_csum r \<noteq> None
     then (case found of
             None \<Rightarrow> Some LayoutChanged
           | Some e \<Rightarrow>
               if fe_logical e \<noteq> rs_ext_loff r \<or> fe_length e \<noteq> rs_ext_len r then Some LayoutChanged
               else if rs_off r \<le> unat (fe_logical e) then Some CoversHole
               else None)
     else (case found of
             None \<Rightarrow> None
           | Some e \<Rightarrow>
               if \<not> se_only_whole_files env \<and> unat (fe_logical e) < rs_off r \<and> \<not> ext_skip e then Some NoExtentState else None))"

definition decline_resume ::
  "('c, 'k) scan_env \<Rightarrow> int \<Rightarrow> scan_resume \<Rightarrow> ('c, 'k) scan_run \<Rightarrow> (scan_resume \<times> ('c, 'k) scan_run) option" where
  "decline_resume env fileid r s =
    (let r' = (scan_resume_drop r)\<lparr>rs_off := 0\<rparr>; s0 = s\<lparr>sr_ctxt := (sr_ctxt s)\<lparr>sc_cursor := 0\<rparr>\<rparr>
     in case se_elapsed env (sr_os s) of
          (now, k1) \<Rightarrow>
            (case scan_write_begin (se_api env) now (sr_writer s) of
               None \<Rightarrow> None
             | Some (ret, sw1) \<Rightarrow>
                 if ret \<noteq> 0 then Some (r', s0\<lparr>sr_os := k1, sr_writer := sw1\<rparr>)
                 else
                   let sw2 = snd (dbfile_remove_hashes (se_api env) fileid sw1);
                       sw3 = snd (dbfile_remove_checkpoint (se_api env) fileid sw2)
                   in case se_elapsed env k1 of
                        (now', k2) \<Rightarrow>
                          Some (r', s0\<lparr>sr_os := k2, sr_writer := snd (scan_write_end (se_api env) now' sw3)\<rparr>)))"

text \<open>The first answer is what the C function returns; \<open>None\<close> is a file checksum that is not there, which
  its caller never passes.\<close>

definition adopt_resume ::
  "('c, 'k) scan_env \<Rightarrow> int \<Rightarrow> scan_resume \<Rightarrow> ('c, 'k) scan_run \<Rightarrow> (bool \<times> scan_resume \<times> ('c, 'k) scan_run) option" where
  "adopt_resume env fileid r s =
    (case ext_from (sc_fiemap (sr_ctxt s)) (rs_off r) (sc_cursor (sr_ctxt s)) of
       (found, cur) \<Rightarrow>
         let s0 = s\<lparr>sr_ctxt := (sr_ctxt s)\<lparr>sc_cursor := cur\<rparr>\<rparr>
         in if resume_declined env r (sc_fiemap (sr_ctxt s)) found \<noteq> None
            then map_option (Pair False) (decline_resume env fileid r s0)
            else map_option (\<lambda>c. (True, scan_resume_drop r,
                   s0\<lparr>sr_ctxt := (sr_ctxt s0)\<lparr>sc_file_csum := c, sc_extent_csum := rs_ext_csum r, sc_off := rs_off r\<rparr>\<rparr>))
                 (rs_csum r))"

subsection \<open>Passes\<close>

text \<open>Some whole passes of the loop, none of which ends it.\<close>

fun scan_passes ::
  "nat \<Rightarrow> ('c, 'k) scan_env \<Rightarrow> u64 \<Rightarrow> nat \<Rightarrow> bool \<Rightarrow> ('c, 'k) scan_run \<Rightarrow> (('c, 'k) scan_run \<times> nat \<times> bool) option"
where
  "scan_passes 0 env mtime ckpt enabled s = Some (s, ckpt, enabled)"
| "scan_passes (Suc n) env mtime ckpt enabled s =
    (if \<not> sc_off (sr_ctxt s) < sc_filesize (sr_ctxt s) then None
     else case scan_pass env mtime ckpt enabled s of
            Some (None, s', ckpt', enabled') \<Rightarrow> scan_passes n env mtime ckpt' enabled' s'
          | _ \<Rightarrow> None)"

lemma pass_ok:
  assumes wf: "fm_wf fm" and size: "length c < 2 ^ 63" and bs: "0 < se_blocksize env"
    and ok: "writes_ok (se_api env) view" and still: "still_file env c"
    and opts: "\<not> se_old_hole_digests env" "\<not> se_only_whole_files env"
    and ends: "ends_ok (se_blocksize env) fm (length c)"
    and inv: "loop_inv env view c fm fid E base0 ckpt s" and off: "sc_off (sr_ctxt s) < length c"
    and pass: "scan_pass env mtime ckpt enabled s = Some (None, s', ckpt', enabled')"
  shows "loop_inv env view c fm fid E base0 ckpt' s'"
proof (cases "block_is_hole (se_blocksize env) (next_ext fm (sc_off (sr_ctxt s))) (sc_off (sr_ctxt s))")
  case True
  from hole_pass [OF wf size bs inv off ends True, of mtime enabled] pass show ?thesis by auto
next
  case False
  from data_pass [OF wf size bs ok still opts inv off False, of mtime enabled] pass show ?thesis
    by (auto split: if_splits)
qed

lemma passes_ok:
  assumes "fm_wf fm" "length c < 2 ^ 63" "0 < se_blocksize env" "writes_ok (se_api env) view" "still_file env c"
    "\<not> se_old_hole_digests env" "\<not> se_only_whole_files env" "ends_ok (se_blocksize env) fm (length c)"
  shows "loop_inv env view c fm fid E base0 ckpt s \<Longrightarrow>
    scan_passes n env mtime ckpt enabled s = Some (s', ckpt', enabled') \<Longrightarrow>
    loop_inv env view c fm fid E base0 ckpt' s'"
proof (induction n arbitrary: ckpt enabled s)
  case (Suc n)
  have "sc_filesize (sr_ctxt s) = length c" using Suc.prems(1) by (simp add: loop_inv_def buf_inv_def)
  with Suc.prems(2) obtain s1 ckpt1 enabled1 where "sc_off (sr_ctxt s) < length c"
    "scan_pass env mtime ckpt enabled s = Some (None, s1, ckpt1, enabled1)"
    "scan_passes n env mtime ckpt1 enabled1 s1 = Some (s', ckpt', enabled')"
    by (auto split: if_splits option.splits)
  with pass_ok [OF assms Suc.prems(1)] Suc.IH show ?case by blast
qed simp

subsection \<open>A checkpoint and the resume from it\<close>

lemma save_ok:
  assumes ok: "xxhash_ok xx"
  shows "\<exists>buf c'. running_checksum_save xx False c (running_checksum_state_size xx) = Inr buf
    \<and> running_checksum_restore xx buf = Some c' \<and> goes_on_as xx c c'
    \<and> running_checksum_state_version xx buf = 2 \<and> length buf = running_checksum_state_size xx"
proof -
  obtain buf c' where b: "running_checksum_save xx False c (running_checksum_state_size xx) = Inr buf"
    "running_checksum_restore xx buf = Some c'" "goes_on_as xx c c'" "running_checksum_state_version xx buf = 2"
    using csum_state_spec [OF ok order_refl, of False c xx] by auto
  moreover have "length buf = running_checksum_state_size xx"
    using b(2) by (simp add: running_checksum_restore_def split: if_splits)
  ultimately show ?thesis by blast
qed

text \<open>At a checkpoint the extent in flight is the one found at the offset.\<close>

lemma partial_next:
  assumes wf: "fm_wf fm" and off: "off < length c"
  shows "partial c fm off = (case next_ext fm off of
      None \<Rightarrow> None
    | Some e \<Rightarrow> if \<not> ext_skip e \<and> nlo e < off then Some (slice c (nlo e) off) else None)"
proof (cases "next_ext fm off")
  case None
  then have "inflight (length c) fm off = None" using next_ext_None [of fm off] by (intro inflight_gap) auto
  with None show ?thesis by (simp add: partial_def)
next
  case (Some e)
  note e = next_ext_in [OF Some]
  show ?thesis
  proof (cases "nlo e \<le> off")
    case True
    from inflight_inside [OF wf Some True, of off "length c"] e off Some show ?thesis
      by (auto simp: partial_def fin_def)
  next
    case False
    have "inflight (length c) fm off = None"
    proof (rule inflight_gap)
      fix x assume x: "x \<in> set (exts fm)"
      show "\<not> (nlo x < off \<and> off < nhi x)"
        using next_ext_first [OF wf Some x] False fm_wf_ext(2) [OF wf conjunct1 [OF e]] by auto
    qed
    with Some False show ?thesis by (simp add: partial_def)
  qed
qed

text \<open>What a checkpoint made in a run that can go on looks like, and that the file adopts it.\<close>

lemma checkpoint_adopted:
  assumes wf: "fm_wf fm" and size: "length c < 2 ^ 63" and xx: "xxhash_ok (se_xx env)"
    and opts: "\<not> se_old_hole_digests env"
    and inv: "ext_inv env c fm base off s" "file_inv env c fm off (sc_file_csum (sr_ctxt s))"
    and s: "sc_off (sr_ctxt s) = off" "sc_filesize (sr_ctxt s) = length c" "sc_fiemap (sr_ctxt s) = fm"
    and off: "0 < off" "off < length c"
    and t: "sc_fiemap (sr_ctxt t) = fm"
  shows "\<exists>cp r cur q fc. fst (checkpoint_of env mtime (sr_ctxt s)) = Inr cp \<and> cp_loff cp = off
    \<and> dbfile_load_checkpoint (se_xx env) (Some cp) = Some cp
    \<and> resume_point (se_xx env) cp (length c) mtime = Some r \<and> rs_off r = off
    \<and> adopt_resume env fileid r t = Some (True, scan_resume_drop r,
        t\<lparr>sr_ctxt := (sr_ctxt t)\<lparr>sc_cursor := cur, sc_file_csum := fc, sc_extent_csum := q, sc_off := off\<rparr>\<rparr>)
    \<and> rel_option (goes_on_as (se_xx env)) (partial c fm off) q \<and> file_inv env c fm off fc"
proof -
  let ?xx = "se_xx env"
  have off64: "off < 2 ^ 64" using off size by simp
  obtain fbuf fc where f: "running_checksum_save ?xx False (sc_file_csum (sr_ctxt s)) (running_checksum_state_size ?xx) = Inr fbuf"
    "running_checksum_restore ?xx fbuf = Some fc" "goes_on_as ?xx (sc_file_csum (sr_ctxt s)) fc"
    "running_checksum_state_version ?xx fbuf = 2" "length fbuf = running_checksum_state_size ?xx"
    using save_ok [OF xx] by blast
  have fc: "file_inv env c fm off fc"
    using inv(2) f(3) goes_on_as_trans unfolding file_inv_def by blast
  obtain found cur where x: "ext_from fm off (sc_cursor (sr_ctxt s)) = (found, cur)" by fastforce
  obtain found' cur' where x': "ext_from fm off (sc_cursor (sr_ctxt t)) = (found', cur')" by fastforce
  have found: "found = next_ext fm off" "found' = next_ext fm off"
    using ext_from_next [OF wf off64] x x' by (metis fst_conv)+
  note part = partial_next [OF wf off(2)]
  show ?thesis
  proof (cases "sc_extent_csum (sr_ctxt s)")
    case None
    then have none: "partial c fm off = None" using inv(1) by (simp add: ext_inv_def)
    define cp where "cp = \<lparr>cp_loff = off, cp_size = length c, cp_mtime = mtime, cp_ext_loff = 0, cp_ext_len = 0,
        cp_file_state = fbuf, cp_ext_state = None\<rparr>"
    define r where "r = \<lparr>rs_off = off, rs_csum = Some fc, rs_ext_csum = None, rs_ext_loff = 0, rs_ext_len = 0, rs_v1 = False\<rparr>"
    have cp: "fst (checkpoint_of env mtime (sr_ctxt s)) = Inr cp"
      using f(1) None opts s by (simp add: checkpoint_of_def cp_def Let_def)
    have "resume_point ?xx cp (length c) mtime = Some r"
      using f(2,4) off by (simp add: resume_point_def cp_def r_def Let_def)
    moreover have "dbfile_load_checkpoint ?xx (Some cp) = Some cp"
      using f(5) by (simp add: dbfile_load_checkpoint_def cp_def Let_def)
    moreover have "resume_declined env r fm found' = None"
      using none part found(2) fm_wf_ext(1) [OF wf] by (auto simp: resume_declined_def r_def split: option.splits if_splits)
    then have "adopt_resume env fileid r t = Some (True, scan_resume_drop r,
        t\<lparr>sr_ctxt := (sr_ctxt t)\<lparr>sc_cursor := cur', sc_file_csum := fc, sc_extent_csum := None, sc_off := off\<rparr>\<rparr>)"
      using x' t by (simp add: adopt_resume_def r_def)
    ultimately show ?thesis using cp none fc by (auto simp: cp_def r_def)
  next
    case (Some q)
    obtain ebuf q' where e: "running_checksum_save ?xx False q (running_checksum_state_size ?xx) = Inr ebuf"
      "running_checksum_restore ?xx ebuf = Some q'" "goes_on_as ?xx q q'" "length ebuf = running_checksum_state_size ?xx"
      using save_ok [OF xx] by blast
    have some: "rel_option (goes_on_as ?xx) (partial c fm off) (Some q)" using inv(1) Some by (simp add: ext_inv_def)
    then obtain d where d: "next_ext fm off = Some d" "\<not> ext_skip d" "nlo d < off" "goes_on_as ?xx (slice c (nlo d) off) q"
      "partial c fm off = Some (slice c (nlo d) off)"
      using part by (auto simp: option_rel_Some2 split: option.splits if_splits)
    define cp where "cp = \<lparr>cp_loff = off, cp_size = length c, cp_mtime = mtime, cp_ext_loff = fe_logical d,
        cp_ext_len = fe_length d, cp_file_state = fbuf, cp_ext_state = Some ebuf\<rparr>"
    define r where "r = \<lparr>rs_off = off, rs_csum = Some fc, rs_ext_csum = Some q', rs_ext_loff = fe_logical d,
        rs_ext_len = fe_length d, rs_v1 = False\<rparr>"
    have cp: "fst (checkpoint_of env mtime (sr_ctxt s)) = Inr cp"
      using f(1) e(1) Some opts s x found(1) d(1) by (simp add: checkpoint_of_def cp_def Let_def)
    have "resume_point ?xx cp (length c) mtime = Some r"
      using f(2,4) e(2) off by (simp add: resume_point_def cp_def r_def Let_def)
    moreover have "dbfile_load_checkpoint ?xx (Some cp) = Some cp"
      using f(5) e(4) by (simp add: dbfile_load_checkpoint_def cp_def Let_def running_checksum_state_size_def)
    moreover have "resume_declined env r fm found' = None"
      using found(2) d by (simp add: resume_declined_def r_def)
    then have "adopt_resume env fileid r t = Some (True, scan_resume_drop r,
        t\<lparr>sr_ctxt := (sr_ctxt t)\<lparr>sc_cursor := cur', sc_file_csum := fc, sc_extent_csum := Some q', sc_off := off\<rparr>\<rparr>)"
      using x' t by (simp add: adopt_resume_def r_def)
    moreover have "rel_option (goes_on_as ?xx) (partial c fm off) (Some q')"
      unfolding d(5) using goes_on_as_trans [OF d(4) e(3)] by simp
    ultimately show ?thesis using cp fc by (intro exI [of _ cp] exI [of _ r]) (auto simp: cp_def r_def)
  qed
qed

lemma write_checkpoint_ok:
  assumes ok: "writes_ok (se_api env) view" and t: "taken view (sr_writer s) E"
    and cp: "fst (checkpoint_of env mtime (sr_ctxt s)) = Inr cp"
  shows "\<exists>s'. write_checkpoint env mtime s = Some (0, s')
    \<and> taken view (sr_writer s') (E @ sent (h_fileid (sr_hashes s)) (h_extents (sr_hashes s)))"
proof -
  obtain ctxt where r: "checkpoint_of env mtime (sr_ctxt s) = (Inr cp, ctxt)"
    using cp by (cases "checkpoint_of env mtime (sr_ctxt s)") simp
  obtain now k where k: "se_elapsed env (sr_os s) = (now, k)" by fastforce
  show ?thesis
    using r k unit_kept [OF ok t, of now "sr_hashes s" cp] by (auto simp: write_checkpoint_def checkpoint_unit_def)
qed


text \<open>A file of two blocks, the first a hole; the interrupt comes once the hole is passed.\<close>

definition late_file :: "byte list" where
  "late_file = [0, 0, 0, 0, 5, 6, 7, 8]"

definition late_map :: fiemap where
  "late_map = \<lparr>fm_mapped_extents = 1, fm_extents = [\<lparr>fe_logical = 4, fe_physical = 4096, fe_length = 4, fe_flags = 0\<rparr>]\<rparr>"

definition late_env :: "(hash_row dbview, unit) scan_env" where
  "late_env = small_env\<lparr>se_pread := (\<lambda>want pos k. (Some (slice late_file pos (pos + min 3 want)), k))\<rparr>"

definition late_run :: "(hash_row dbview, unit) scan_run" where
  "late_run = small_run\<lparr>sr_ctxt := \<lparr>sc_filesize = 8, sc_off = 0, sc_read_cap = 0, sc_fiemap = late_map, sc_cursor = 0,
       sc_file_csum = start_running_checksum, sc_extent_csum = None\<rparr>\<rparr>"


end
