(* ===== verification/ScanFinish.thy ===== *)
theory ScanFinish
  imports ScanResume
begin

text \<open>
  The end of hashing a file (\<open>csum_whole_file\<close>): the rows still staged and the digest of the whole file in
  one unit; a file whose extents are those of a file hashed before, whose rows are copied instead; and the
  row of an older binary that may stand. The fault a test may inject is left out.
\<close>

subsection \<open>The last unit of a file\<close>

abbreviation "FILE_INLINED \<equiv> (0x1 :: u32)"
abbreviation "FILE_RO_SUBVOL \<equiv> (0x2 :: u32)"
abbreviation "FILE_UNWRITTEN_CHECKED \<equiv> (0x4 :: u32)"
abbreviation "FILE_EOF_EXTENT_CHECKED \<equiv> (0x8 :: u32)"
abbreviation "FILE_HOLE_EXTENT_CHECKED \<equiv> (0x10 :: u32)"
abbreviation "FILE_SCAN_CHECKED \<equiv> FILE_UNWRITTEN_CHECKED OR FILE_EOF_EXTENT_CHECKED OR FILE_HOLE_EXTENT_CHECKED"

definition is_inlined :: "scan_ctxt \<Rightarrow> bool" where
  "is_inlined ctxt =
    (case fst (get_extent (sc_fiemap ctxt) (word_of_nat (sc_filesize ctxt) - 1) None) of
       None \<Rightarrow> False
     | Some i \<Rightarrow> fe_flags (ext_at (sc_fiemap ctxt) i) AND FIEMAP_EXTENT_DATA_INLINE \<noteq> 0)"

definition dbfile_update_scanned_file ::
  "('c, hash_row) sqlite \<Rightarrow> int \<Rightarrow> digest \<Rightarrow> u32 \<Rightarrow> nat \<Rightarrow> 'c scan_writer \<Rightarrow> int \<times> 'c scan_writer" where
  "dbfile_update_scanned_file api fileid digest flags nr_extents sw =
    unit_writes api [ScannedFileRow fileid digest flags nr_extents] sw"

definition scanned_flags :: "bool \<Rightarrow> bool \<Rightarrow> u32" where
  "scanned_flags inlined rdonly =
    FILE_SCAN_CHECKED OR (if inlined then FILE_INLINED else 0) OR (if rdonly then FILE_RO_SUBVOL else 0)"

text \<open>The answer is whether the file was stored; \<open>None\<close> is an abort.\<close>

definition finish_file ::
  "('c, 'k) scan_env \<Rightarrow> bool \<Rightarrow> nat \<Rightarrow> ('c, 'k) scan_run \<Rightarrow> (bool \<times> ('c, 'k) scan_run) option" where
  "finish_file env rdonly last_checkpoint s =
    (let ctxt = sr_ctxt s; api = se_api env; h = sr_hashes s; inlined = is_inlined ctxt
     in if sc_off ctxt \<noteq> sc_filesize ctxt then Some (False, s)
        else case se_elapsed env (sr_os s) of
          (now, k) \<Rightarrow>
            (case scan_write_begin api now (sr_writer s) of
               None \<Rightarrow> None
             | Some (ret, sw) \<Rightarrow>
                 if ret \<noteq> 0 then Some (False, s\<lparr>sr_os := k, sr_writer := sw\<rparr>)
                 else if inlined \<and> h_blocks_flushed h \<noteq> 0 then None
                 else
                   (case (if inlined then (0, h, sw) else store_block_batch api h sw) of
                      (ret1, h1, sw1) \<Rightarrow>
                        (case (if ret1 = 0 then store_extent_batch api h1 sw1 else (ret1, h1, sw1)) of
                           (ret2, h2, sw2) \<Rightarrow>
                             (case (if ret2 = 0
                                    then dbfile_update_scanned_file api (h_fileid h)
                                           (finish_running_checksum (se_xx env) (sc_file_csum ctxt))
                                           (scanned_flags inlined rdonly) (fm_mapped_extents (sc_fiemap ctxt)) sw2
                                    else (ret2, sw2)) of
                                (ret3, sw3) \<Rightarrow>
                                  (case (if ret3 = 0 \<and> last_checkpoint \<noteq> 0
                                         then dbfile_remove_checkpoint api (h_fileid h) sw3 else (ret3, sw3)) of
                                     (ret4, sw4) \<Rightarrow>
                                       if ret4 \<noteq> 0
                                       then Some (False, s\<lparr>sr_os := k, sr_hashes := h2, sr_writer := scan_write_abort api sw4\<rparr>)
                                       else case se_elapsed env k of
                                              (now', k') \<Rightarrow>
                                                (case scan_write_end api now' sw4 of
                                                   (ret5, sw5) \<Rightarrow>
                                                     Some (ret5 = 0, s\<lparr>sr_os := k', sr_hashes := h2, sr_writer := sw5\<rparr>))))))))"

text \<open>The loop and what follows it.\<close>

definition hash_file ::
  "nat \<Rightarrow> ('c, 'k) scan_env \<Rightarrow> bool \<Rightarrow> u64 \<Rightarrow> nat \<Rightarrow> bool \<Rightarrow> ('c, 'k) scan_run \<Rightarrow> (bool \<times> ('c, 'k) scan_run) option" where
  "hash_file n env rdonly mtime ckpt enabled s =
    (case scan_loop n env mtime ckpt enabled s of
       None \<Rightarrow> None
     | Some (e, s', ckpt', enabled') \<Rightarrow> if e = LoopDone then finish_file env rdonly ckpt' s' else Some (False, s'))"

subsection \<open>Copying the rows of a file with the same extents\<close>

text \<open>The rows a SELECT steps through, and whether it came to its end without an error.\<close>

fun layout_loop :: "(u64 \<times> u64 \<times> u64) list \<Rightarrow> bool \<Rightarrow> fiemap \<Rightarrow> nat \<Rightarrow> int" where
  "layout_loop [] at_end fm i = (if \<not> at_end then - 1 else if i = fm_mapped_extents fm \<and> 0 < i then 1 else 0)"
| "layout_loop ((lo, po, len) # rs) at_end fm i =
    (if fm_mapped_extents fm \<le> i then 0
     else let e = ext_at fm i
          in if lo \<noteq> fe_logical e \<or> po \<noteq> fe_physical e \<or> len \<noteq> fe_length e then 0
             else layout_loop rs at_end fm (i + 1))"

definition dbfile_layout_matches :: "(u64 \<times> u64 \<times> u64) list \<times> bool \<Rightarrow> fiemap \<Rightarrow> int" where
  "dbfile_layout_matches select fm = layout_loop (fst select) (snd select) fm 0"

definition dbfile_copy_scanned_file ::
  "('c, hash_row) sqlite \<Rightarrow> int \<Rightarrow> int \<Rightarrow> u32 \<Rightarrow> 'c scan_writer \<Rightarrow> int \<times> 'c scan_writer" where
  "dbfile_copy_scanned_file api dst donor flags sw =
    unit_writes api [CopyExtents dst donor, CopyBlocks dst donor, CopyFileRow dst donor flags] sw"

text \<open>\<open>donor\<close> is what the table of donors has for this layout, 0 for none; \<open>rows_of\<close> reads the donor's rows.\<close>

definition try_layout_copy ::
  "('c, 'k) scan_env \<Rightarrow> (int \<Rightarrow> (u64 \<times> u64 \<times> u64) list \<times> bool) \<Rightarrow> int \<Rightarrow> bool \<Rightarrow> ('c, 'k) scan_run \<Rightarrow>
    (bool \<times> ('c, 'k) scan_run) option"
where
  "try_layout_copy env rows_of donor rdonly s =
    (let fileid = h_fileid (sr_hashes s); flags = FILE_SCAN_CHECKED OR (if rdonly then FILE_RO_SUBVOL else 0)
     in if donor = 0 \<or> donor = fileid then Some (False, s)
        else if dbfile_layout_matches (rows_of donor) (sc_fiemap (sr_ctxt s)) \<le> 0 then Some (False, s)
        else case se_elapsed env (sr_os s) of
          (now, k) \<Rightarrow>
            (case scan_write_begin (se_api env) now (sr_writer s) of
               None \<Rightarrow> None
             | Some (ret, sw) \<Rightarrow>
                 if ret \<noteq> 0 then Some (False, s\<lparr>sr_os := k, sr_writer := sw\<rparr>)
                 else case dbfile_copy_scanned_file (se_api env) fileid donor flags sw of
                        (ret1, sw1) \<Rightarrow>
                          if ret1 \<noteq> 0 then Some (False, s\<lparr>sr_os := k, sr_writer := scan_write_abort (se_api env) sw1\<rparr>)
                          else case se_elapsed env k of
                                 (now', k') \<Rightarrow>
                                   (case scan_write_end (se_api env) now' sw1 of
                                      (ret2, sw2) \<Rightarrow> Some (ret2 = 0, s\<lparr>sr_os := k', sr_writer := sw2\<rparr>))))"

subsection \<open>Rows of older binaries\<close>

fun row_loop :: "nat \<Rightarrow> fiemap \<Rightarrow> nat \<Rightarrow> u32 \<Rightarrow> nat list \<Rightarrow> bool" where
  "row_loop blocksize fm fsize flags [] = True"
| "row_loop blocksize fm fsize flags (i # is) =
    (let e = ext_at fm i
     in if flags AND FILE_HOLE_EXTENT_CHECKED = 0 \<and> \<not> ext_skip e \<and> unat (fe_logical e) < fsize
           \<and> hole_read_before blocksize fm i then False
        else if fe_flags e AND FIEMAP_EXTENT_UNWRITTEN \<noteq> 0
        then (if flags AND FILE_UNWRITTEN_CHECKED = 0 then False else row_loop blocksize fm fsize flags is)
        else if flags AND FILE_EOF_EXTENT_CHECKED = 0 \<and> fe_flags e AND FIEMAP_EXTENT_LAST = 0
             \<and> unat (fe_logical e) < fsize \<and> fsize < unat (fe_end e) then False
        else row_loop blocksize fm fsize flags is)"

text \<open>\<open>fiemap\<close> is \<open>None\<close> when the file cannot be opened or mapped. The unit that records the answer may fail
  without a trace.\<close>

definition scan_row_ok ::
  "('c, 'k) scan_env \<Rightarrow> fiemap option \<Rightarrow> int \<Rightarrow> nat \<Rightarrow> u32 \<Rightarrow> 'c scan_writer \<times> 'k \<Rightarrow> (bool \<times> 'c scan_writer \<times> 'k) option" where
  "scan_row_ok env fiemap fileid fsize flags st =
    (case fiemap of
       None \<Rightarrow> Some (True, st)
     | Some fm \<Rightarrow>
         if \<not> row_loop (se_blocksize env) fm fsize flags [0 ..< fm_mapped_extents fm] then Some (False, st)
         else case st of (sw, k) \<Rightarrow>
           (case se_elapsed env k of
              (now, k1) \<Rightarrow>
                (case scan_write_begin (se_api env) now sw of
                   None \<Rightarrow> None
                 | Some (ret, sw1) \<Rightarrow>
                     if ret \<noteq> 0 then Some (True, sw1, k1)
                     else
                       let sw2 = snd (unit_writes (se_api env) [AddFileFlags fileid FILE_SCAN_CHECKED] sw1)
                       in case se_elapsed env k1 of
                            (now', k2) \<Rightarrow> Some (True, snd (scan_write_end (se_api env) now' sw2), k2))))"

subsection \<open>The last unit is kept whole or not at all\<close>

text \<open>The writes a unit has made, when all of them succeeded; else only that it is still open.\<close>

definition unit_at :: "('c \<Rightarrow> hash_row dbview) \<Rightarrow> 'c scan_writer \<Rightarrow> hash_row list list \<Rightarrow> hash_row list list \<Rightarrow> int \<Rightarrow> hash_row list \<Rightarrow> bool"
where
  "unit_at view sw D K ret ws \<longleftrightarrow> (if ret = 0 then inside view sw D K (Some ws) else \<exists>cur. inside view sw D K cur)"

lemma unit_at_writes:
  assumes ok: "sqlite_ok api view" and u: "unit_at view sw D K 0 us" and w: "unit_writes api ws sw = (ret, sw')"
  shows "unit_at view sw' D K ret (us @ ws)"
  using writes_spec [OF ok _ w] u by (simp add: unit_at_def)

lemma unit_at_step:
  assumes ok: "sqlite_ok api view" and u: "unit_at view sw D K r0 us"
    and w: "(if r0 = 0 then unit_writes api ws sw else (r0, sw)) = (ret, sw')"
  shows "unit_at view sw' D K ret (us @ ws)"
proof (cases "r0 = 0")
  case True
  then have "unit_at view sw D K 0 us" "unit_writes api ws sw = (ret, sw')" using u w by simp_all
  with unit_at_writes [OF ok] show ?thesis by blast
next
  case False
  with u w show ?thesis by (auto simp: unit_at_def)
qed

lemma block_batch_unit:
  assumes ok: "sqlite_ok api view" and u: "unit_at view sw D K 0 us" and r: "store_block_batch api h sw = (ret, h', sw')"
  shows "unit_at view sw' D K ret (us @ map (BlockRow (h_fileid h)) (h_blocks h)) \<and> h_extents h' = h_extents h \<and> h_fileid h' = h_fileid h"
proof (cases "h_blocks h = []")
  case True
  with u r show ?thesis by (auto simp: store_block_batch_def)
next
  case False
  obtain q sw2 where w: "unit_writes api (map (BlockRow (h_fileid h)) (h_blocks h)) sw = (q, sw2)" by fastforce
  from unit_at_writes [OF ok u w] w r False show ?thesis
    by (auto simp: store_block_batch_def dbfile_store_block_hashes_def split: if_splits)
qed

definition extent_rows :: "hashes \<Rightarrow> hash_row list" where
  "extent_rows h = map (ExtentRow (h_fileid h) \<circ> the) (filter (\<lambda>e. e \<noteq> None) (h_extents h))"

lemma extent_batch_unit:
  assumes ok: "sqlite_ok api view" and u: "unit_at view sw D K 0 us" and r: "store_extent_batch api h sw = (ret, h', sw')"
  shows "unit_at view sw' D K ret (us @ extent_rows h)"
proof (cases "h_extents h = []")
  case True
  with u r show ?thesis by (auto simp: store_extent_batch_def extent_rows_def)
next
  case False
  obtain q sw2 where w: "unit_writes api (extent_rows h) sw = (q, sw2)" by fastforce
  from unit_at_writes [OF ok u w] w r False show ?thesis
    by (auto simp: store_extent_batch_def dbfile_store_extent_hashes_def extent_rows_def split: if_splits)
qed

text \<open>The unit that marks a file scanned.\<close>

definition final_unit :: "('c, 'k) scan_env \<Rightarrow> bool \<Rightarrow> nat \<Rightarrow> ('c, 'k) scan_run \<Rightarrow> hash_row list" where
  "final_unit env rdonly last_checkpoint s =
    (let h = sr_hashes s; ctxt = sr_ctxt s
     in (if is_inlined ctxt then [] else map (BlockRow (h_fileid h)) (h_blocks h)) @ extent_rows h
        @ [ScannedFileRow (h_fileid h) (finish_running_checksum (se_xx env) (sc_file_csum ctxt))
             (scanned_flags (is_inlined ctxt) rdonly) (fm_mapped_extents (sc_fiemap ctxt))]
        @ (if last_checkpoint \<noteq> 0 then [RemoveCheckpoint (h_fileid h)] else []))"

text \<open>A unit ended: kept whole, or the batch is lost.\<close>

lemma end_unit:
  assumes ok: "sqlite_ok api view" and u: "unit_at view sw D K 0 ws" and e: "scan_write_end api now sw = (ret, sw')"
  shows "if ret = 0 then \<exists>D' K'. idle view sw' D' K' \<and> D' @ K' = D @ K @ [ws] \<and> \<not> sw_batch_lost sw'
    else (\<exists>K'. idle view sw' D K') \<and> sw_batch_lost sw'"
proof -
  have i: "inside view sw D K (Some ws)" using u by (simp add: unit_at_def)
  from end_inside [OF ok i e] show ?thesis by auto
qed

lemma finish_file_spec:
  assumes ok: "sqlite_ok (se_api env) view" and i: "idle view (sr_writer s) D K" "\<not> sw_batch_lost (sr_writer s)"
    and r: "finish_file env rdonly ckpt s = Some (stored, s')"
  shows "if stored
    then sc_off (sr_ctxt s) = sc_filesize (sr_ctxt s) \<and> \<not> sw_batch_lost (sr_writer s')
      \<and> (\<exists>D' K'. idle view (sr_writer s') D' K' \<and> D' @ K' = D @ K @ [final_unit env rdonly ckpt s])
    else idle view (sr_writer s') D K \<or> (\<exists>K'. idle view (sr_writer s') D K') \<and> sw_batch_lost (sr_writer s')"
proof (cases "sc_off (sr_ctxt s) = sc_filesize (sr_ctxt s)")
  case False
  with r i show ?thesis by (simp add: finish_file_def Let_def split: if_splits)
next
  case eof: True
  define inl where "inl = is_inlined (sr_ctxt s)"
  define h where "h = sr_hashes s"
  define fid where "fid = h_fileid h"
  define scanned where "scanned = ScannedFileRow fid (finish_running_checksum (se_xx env) (sc_file_csum (sr_ctxt s)))
      (scanned_flags inl rdonly) (fm_mapped_extents (sc_fiemap (sr_ctxt s)))"
  note unfold = finish_file_def Let_def inl_def [symmetric] h_def [symmetric] fid_def [symmetric]
    dbfile_update_scanned_file_def scanned_def [symmetric]
  obtain now k where k: "se_elapsed env (sr_os s) = (now, k)" by fastforce
  obtain ret0 sw where b: "scan_write_begin (se_api env) now (sr_writer s) = Some (ret0, sw)"
    "if ret0 = 0 then inside view sw D K (Some []) else idle view sw D K \<and> sw_batch_lost sw = sw_batch_lost (sr_writer s)"
    using begin_spec [OF ok i(1)] by blast
  show ?thesis
  proof (cases "ret0 = 0")
    case False
    with eof r k b show ?thesis unfolding unfold by auto
  next
    case True
    then have u0: "unit_at view sw D K 0 []" using b(2) by (simp add: unit_at_def)
    obtain ret1 h1 sw1 where e1: "(if inl then (0, h, sw) else store_block_batch (se_api env) h sw) = (ret1, h1, sw1)"
      by (metis prod_cases3)
    let ?bl = "if inl then [] else map (BlockRow fid) (h_blocks h)"
    have u1: "unit_at view sw1 D K ret1 ?bl" "extent_rows h1 = extent_rows h"
      using block_batch_unit [OF ok u0, of h ret1 h1 sw1] e1 u0 by (auto simp: fid_def extent_rows_def split: if_splits)
    obtain ret2 h2 sw2 where e2: "(if ret1 = 0 then store_extent_batch (se_api env) h1 sw1 else (ret1, h1, sw1)) = (ret2, h2, sw2)"
      by (metis prod_cases3)
    have u2: "unit_at view sw2 D K ret2 (?bl @ extent_rows h)"
      using e2 u1 extent_batch_unit [OF ok, of sw1 D K ?bl h1 ret2 h2 sw2] by (cases "ret1 = 0") (auto simp: unit_at_def)
    obtain ret3 sw3 where e3: "(if ret2 = 0 then unit_writes (se_api env) [scanned] sw2 else (ret2, sw2)) = (ret3, sw3)"
      by fastforce
    have u3: "unit_at view sw3 D K ret3 ((?bl @ extent_rows h) @ [scanned])"
      by (rule unit_at_step [OF ok u2 e3])
    let ?rm = "if ckpt \<noteq> 0 then [RemoveCheckpoint fid] else []"
    obtain ret4 sw4 where e4: "(if ret3 = 0 \<and> ckpt \<noteq> 0 then dbfile_remove_checkpoint (se_api env) fid sw3 else (ret3, sw3)) = (ret4, sw4)"
      by fastforce
    have "unit_at view sw4 D K ret4 (((?bl @ extent_rows h) @ [scanned]) @ ?rm)"
    proof (rule unit_at_step [OF ok u3])
      show "(if ret3 = 0 then unit_writes (se_api env) ?rm sw3 else (ret3, sw3)) = (ret4, sw4)"
        using e4 by (cases "ret3 = 0"; cases "ckpt = 0") (simp_all only: dbfile_remove_checkpoint_def simp_thms if_True if_False unit_writes.simps(1))
    qed
    moreover have "((?bl @ extent_rows h) @ [scanned]) @ ?rm = final_unit env rdonly ckpt s"
      by (simp add: final_unit_def Let_def scanned_def inl_def h_def fid_def)
    ultimately have u4: "unit_at view sw4 D K ret4 (final_unit env rdonly ckpt s)" by simp
    have fin: "finish_file env rdonly ckpt s
        = (if inl \<and> h_blocks_flushed h \<noteq> 0 then None
           else if ret4 \<noteq> 0 then Some (False, s\<lparr>sr_os := k, sr_hashes := h2, sr_writer := scan_write_abort (se_api env) sw4\<rparr>)
           else case se_elapsed env k of (now', k') \<Rightarrow>
             (case scan_write_end (se_api env) now' sw4 of (ret5, sw5) \<Rightarrow>
                Some (ret5 = 0, s\<lparr>sr_os := k', sr_hashes := h2, sr_writer := sw5\<rparr>)))"
      using eof k b(1) True e1 e2 e3 e4 unfolding unfold by (simp only: simp_thms if_False if_True prod.case option.case)
    show ?thesis
    proof (cases "ret4 = 0")
      case False
      with u4 obtain cur where "inside view sw4 D K cur" by (auto simp: unit_at_def)
      from abort_spec [OF ok this] fin r False show ?thesis by (auto split: if_splits)
    next
      case t4: True
      obtain now' k' where k': "se_elapsed env k = (now', k')" by fastforce
      obtain ret5 sw5 where e5: "scan_write_end (se_api env) now' sw4 = (ret5, sw5)" by fastforce
      from end_unit [OF ok _ e5, of D K] u4 t4 have
        "if ret5 = 0 then \<exists>D' K'. idle view sw5 D' K' \<and> D' @ K' = D @ K @ [final_unit env rdonly ckpt s] \<and> \<not> sw_batch_lost sw5
         else (\<exists>K'. idle view sw5 D K') \<and> sw_batch_lost sw5" by simp
      with fin r t4 k' e5 eof show ?thesis by (auto split: if_splits)
    qed
  qed
qed

subsection \<open>A whole file\<close>

lemma erows_extent_rows [simp]: "erows (extent_rows h) = sent (h_fileid h) (h_extents h)"
  by (simp add: extent_rows_def sent_def erows_extents)

lemma erows_final_unit [simp]: "erows (final_unit env rdonly ckpt s) = staged s"
  by (simp add: final_unit_def Let_def staged_def)

text \<open>C7: A file is marked as scanned, with the digest of what was read of it, only in one unit with every
  row still staged for it, once its whole length was read; a file not stored leaves nothing of that unit,
  or the batch is known to be lost. Whatever SQLite does.\<close>

theorem finish_file_all_or_nothing:
  assumes "sqlite_ok (se_api env) view" "idle view (sr_writer s) D K" "\<not> sw_batch_lost (sr_writer s)"
    and "finish_file env rdonly ckpt s = Some (stored, s')"
  shows "if stored
    then sc_off (sr_ctxt s) = sc_filesize (sr_ctxt s) \<and> \<not> sw_batch_lost (sr_writer s')
      \<and> (\<exists>D' K' blocks. idle view (sr_writer s') D' K' \<and> D' @ K' = D @ K @ [blocks
          @ map (ExtentRow (h_fileid (sr_hashes s)) \<circ> the) (filter (\<lambda>e. e \<noteq> None) (h_extents (sr_hashes s)))
          @ [ScannedFileRow (h_fileid (sr_hashes s)) (finish_running_checksum (se_xx env) (sc_file_csum (sr_ctxt s)))
               (scanned_flags (is_inlined (sr_ctxt s)) rdonly) (fm_mapped_extents (sc_fiemap (sr_ctxt s)))]
          @ (if ckpt \<noteq> 0 then [RemoveCheckpoint (h_fileid (sr_hashes s))] else [])]
        \<and> blocks = (if is_inlined (sr_ctxt s) then [] else map (BlockRow (h_fileid (sr_hashes s))) (h_blocks (sr_hashes s))))
    else idle view (sr_writer s') D K \<or> (\<exists>K'. idle view (sr_writer s') D K') \<and> sw_batch_lost (sr_writer s')"
  using finish_file_spec [OF assms] unfolding final_unit_def extent_rows_def Let_def by auto

text \<open>The small file with its first extent staged, at its end, on a hashfile that fails nothing.\<close>

definition ended_run :: "(hash_row dbview, unit) scan_run" where
  "ended_run = small_run\<lparr>sr_ctxt := \<lparr>sc_filesize = 12, sc_off = 12, sc_read_cap = 12, sc_fiemap = small_map, sc_cursor = 1,
       sc_file_csum = [1], sc_extent_csum = None\<rparr>,
     sr_hashes := (sr_hashes small_run)\<lparr>h_extents := [Some \<lparr>ec_loff = 0, ec_poff = 4096, ec_len = 4, ec_digest = []\<rparr>, None]\<rparr>\<rparr>"

lemma ended_run_inlined: "\<not> is_inlined (sr_ctxt ended_run)"
proof -
  have "fm_wf small_map" by (simp add: fm_wf_def recs_wf_def small_map_def)
  from get_extent_find [OF this, of "word_of_nat 12 - 1" None]
  show ?thesis by (simp add: is_inlined_def ended_run_def small_map_def upt_rec)
qed

lemma finish_file_small: "\<exists>s'. finish_file small_env False 4 ended_run = Some (True, s')"
  using ended_run_inlined
  by (simp add: finish_file_def Let_def) (simp add: ended_run_def small_run_def small_env_def store_block_batch_def
      store_extent_batch_def dbfile_store_extent_hashes_def dbfile_update_scanned_file_def dbfile_remove_checkpoint_def
      scan_write_begin_def scan_write_end_def scan_unit_release_def filescan_batch_lost_def dbfile_begin_trans_def
      scan_exec_def dbfile_exec_def plain_db_def script_effect_def scan_writer_open_def)

theorem finish_file_all_or_nothing_witness:
  "\<exists>s' D' K'. finish_file small_env False 4 ended_run = Some (True, s') \<and> idle (\<lambda>v. v) (sr_writer s') D' K'
    \<and> D' @ K' = [[ExtentRow 7 \<lparr>ec_loff = 0, ec_poff = 4096, ec_len = 4, ec_digest = []\<rparr>,
         ScannedFileRow 7 (finish_running_checksum (count_hash 803) [1]) (scanned_flags False False) 2, RemoveCheckpoint 7]]"
proof -
  obtain s' where s': "finish_file small_env False 4 ended_run = Some (True, s')" using finish_file_small by blast
  have "sqlite_ok (se_api small_env) (\<lambda>v. v)"
    using writes_ok_sqlite [OF plain_db_ok] by (simp add: small_env_def)
  moreover have "idle (\<lambda>v. v) (sr_writer ended_run) [] []" "\<not> sw_batch_lost (sr_writer ended_run)"
    by (simp_all add: idle_def ended_run_def small_run_def scan_writer_open_def)
  ultimately have "\<exists>D' K'. idle (\<lambda>v. v) (sr_writer s') D' K'
    \<and> D' @ K' = [[ExtentRow 7 \<lparr>ec_loff = 0, ec_poff = 4096, ec_len = 4, ec_digest = []\<rparr>,
         ScannedFileRow 7 (finish_running_checksum (count_hash 803) [1]) (scanned_flags False False) 2, RemoveCheckpoint 7]]"
    using finish_file_all_or_nothing [OF _ _ _ s', of "\<lambda>v. v" "[]" "[]"] ended_run_inlined
    by (auto simp: ended_run_def small_run_def small_env_def small_map_def)
  with s' show ?thesis by blast
qed

text \<open>When nothing fails the unit is stored.\<close>

lemma finish_file_ok:
  assumes ok: "writes_ok (se_api env) view" and t: "taken view (sr_writer s) E"
    and eof: "sc_off (sr_ctxt s) = sc_filesize (sr_ctxt s)" and inl: "\<not> is_inlined (sr_ctxt s)"
  shows "\<exists>s'. finish_file env rdonly ckpt s = Some (True, s') \<and> taken view (sr_writer s') (E @ staged s)"
proof -
  obtain D K where i: "idle view (sr_writer s) D K" "\<not> sw_batch_lost (sr_writer s)" "erows (concat (D @ K)) = E"
    using t by (auto simp: taken_def)
  define h where "h = sr_hashes s"
  define scanned where "scanned = ScannedFileRow (h_fileid h) (finish_running_checksum (se_xx env) (sc_file_csum (sr_ctxt s)))
      (scanned_flags False rdonly) (fm_mapped_extents (sc_fiemap (sr_ctxt s)))"
  let ?rm = "if ckpt \<noteq> 0 then [RemoveCheckpoint (h_fileid h)] else []"
  obtain now k where k: "se_elapsed env (sr_os s) = (now, k)" by fastforce
  obtain now' k' where k': "se_elapsed env k = (now', k')" by fastforce
  obtain sw1 where b: "scan_write_begin (se_api env) now (sr_writer s) = Some (0, sw1)" "inside view sw1 D K (Some [])"
    using begin_ok [OF ok i(1,2)] by blast
  obtain h2 sw2 us where e1: "store_block_batch (se_api env) h sw1 = (0, h2, sw2)" "h_extents h2 = h_extents h"
    "h_fileid h2 = h_fileid h" "inside view sw2 D K (Some us)"
    using block_batch_ok [OF ok b(2), of h] by auto
  obtain sw3 vs where e2: "store_extent_batch (se_api env) h2 sw2 = (0, h2\<lparr>h_extents := []\<rparr>, sw3)" "inside view sw3 D K (Some vs)"
    using ext_batch_ok [OF ok e1(4), of h2] by auto
  obtain sw4 where e3: "unit_writes (se_api env) [scanned] sw3 = (0, sw4)" "inside view sw4 D K (Some (vs @ [scanned]))"
    using writes_take [OF ok e2(2), of "[scanned]"] by blast
  obtain sw5 ws where e4: "unit_writes (se_api env) ?rm sw4 = (0, sw5)" "inside view sw5 D K (Some ws)"
    using writes_take [OF ok e3(2), of ?rm] by blast
  obtain sw6 where e5: "scan_write_end (se_api env) now' sw5 = (0, sw6)"
    using end_ok [OF ok e4(2)] by blast
  have e4': "(if 0 = (0 :: int) \<and> ckpt \<noteq> 0 then dbfile_remove_checkpoint (se_api env) (h_fileid h) sw4 else (0, sw4)) = (0, sw5)"
    using e4(1) by (cases "ckpt = 0") (auto simp: dbfile_remove_checkpoint_def)
  define s' where "s' = s\<lparr>sr_os := k', sr_hashes := h2\<lparr>h_extents := []\<rparr>, sr_writer := sw6\<rparr>"
  have fin: "finish_file env rdonly ckpt s = Some (True, s')"
    using eof inl k k' b(1) e1(1) e2(1) e3(1) e4' e5
    unfolding finish_file_def Let_def h_def [symmetric] dbfile_update_scanned_file_def
    by (simp add: scanned_def s'_def del: unit_writes.simps)
  from finish_file_spec [OF writes_ok_sqlite [OF ok] i(1,2) fin] obtain D' K' where
    d: "\<not> sw_batch_lost (sr_writer s')" "idle view (sr_writer s') D' K'" "D' @ K' = D @ K @ [final_unit env rdonly ckpt s]"
    by auto
  have "erows (concat (D' @ K')) = E @ staged s" unfolding d(3) using i(3) by simp
  with d fin show ?thesis unfolding taken_def by blast
qed

lemma not_inlined:
  assumes wf: "fm_wf (sc_fiemap ctxt)" and none: "\<forall>e \<in> set (exts (sc_fiemap ctxt)). fe_flags e AND FIEMAP_EXTENT_DATA_INLINE = 0"
  shows "\<not> is_inlined ctxt"
proof -
  have "i < fm_mapped_extents (sc_fiemap ctxt)" if "fst (get_extent (sc_fiemap ctxt) off None) = Some i" for i off
    using that get_extent_find [OF wf, of off None] by (auto simp: find_Some_iff)
  then show ?thesis
    using none by (auto simp: is_inlined_def fm_wf_len [OF wf] split: option.split)
qed



subsection \<open>The layout copy\<close>

lemma layout_loop_spec:
  "i \<le> fm_mapped_extents fm \<Longrightarrow>
    0 < layout_loop rs at_end fm i \<longleftrightarrow> at_end \<and> 0 < fm_mapped_extents fm
      \<and> rs = map (\<lambda>j. (fe_logical (ext_at fm j), fe_physical (ext_at fm j), fe_length (ext_at fm j))) [i ..< fm_mapped_extents fm]"
proof (induction rs at_end fm i rule: layout_loop.induct)
  case (1 at_end fm i)
  then show ?case by auto
next
  case (2 lo po len rs at_end fm i)
  show ?case
  proof (cases "i < fm_mapped_extents fm")
    case True
    then have "[i ..< fm_mapped_extents fm] = i # [i + 1 ..< fm_mapped_extents fm]" by (simp add: upt_conv_Cons)
    with 2 True show ?thesis by (auto simp: Let_def)
  next
    case False
    then show ?thesis by simp
  qed
qed

text \<open>C34: The rows of another file are copied only when that file's stored extents are, one for one and in
  order, this file's logical and physical offsets and lengths, none of them missing; and the copy is
  kept as one unit or not at all.\<close>

theorem layout_copy_sound:
  assumes "sqlite_ok (se_api env) view" "idle view (sr_writer s) D K" "\<not> sw_batch_lost (sr_writer s)"
    and "try_layout_copy env rows_of donor rdonly s = Some (copied, s')"
  shows "if copied
    then donor \<noteq> 0 \<and> donor \<noteq> h_fileid (sr_hashes s)
      \<and> rows_of donor = (map (\<lambda>j. let e = ext_at (sc_fiemap (sr_ctxt s)) j in (fe_logical e, fe_physical e, fe_length e))
            [0 ..< fm_mapped_extents (sc_fiemap (sr_ctxt s))], True)
      \<and> 0 < fm_mapped_extents (sc_fiemap (sr_ctxt s)) \<and> \<not> sw_batch_lost (sr_writer s')
      \<and> (\<exists>D' K' flags. idle view (sr_writer s') D' K' \<and> D' @ K' = D @ K @
            [[CopyExtents (h_fileid (sr_hashes s)) donor, CopyBlocks (h_fileid (sr_hashes s)) donor,
              CopyFileRow (h_fileid (sr_hashes s)) donor flags]])
    else idle view (sr_writer s') D K \<or> (\<exists>K'. idle view (sr_writer s') D K') \<and> sw_batch_lost (sr_writer s')"
proof -
  let ?fid = "h_fileid (sr_hashes s)" and ?fm = "sc_fiemap (sr_ctxt s)"
  show ?thesis
  proof (cases "donor = 0 \<or> donor = ?fid \<or> dbfile_layout_matches (rows_of donor) ?fm \<le> 0")
    case True
    with assms show ?thesis by (auto simp: try_layout_copy_def Let_def split: if_splits)
  next
    case m: False
    then have match: "rows_of donor = (map (\<lambda>j. let e = ext_at ?fm j in (fe_logical e, fe_physical e, fe_length e))
            [0 ..< fm_mapped_extents ?fm], True)" "0 < fm_mapped_extents ?fm"
      using layout_loop_spec [of 0 ?fm "fst (rows_of donor)" "snd (rows_of donor)"]
      by (auto simp: dbfile_layout_matches_def Let_def prod_eq_iff)
    define flags where "flags = FILE_SCAN_CHECKED OR (if rdonly then FILE_RO_SUBVOL else 0)"
    let ?ws = "[CopyExtents ?fid donor, CopyBlocks ?fid donor, CopyFileRow ?fid donor flags]"
    obtain now k where k: "se_elapsed env (sr_os s) = (now, k)" by fastforce
    obtain now' k' where k': "se_elapsed env k = (now', k')" by fastforce
    obtain ret0 sw where b: "scan_write_begin (se_api env) now (sr_writer s) = Some (ret0, sw)"
      "if ret0 = 0 then inside view sw D K (Some []) else idle view sw D K \<and> sw_batch_lost sw = sw_batch_lost (sr_writer s)"
      using begin_spec [OF assms(1,2)] by blast
    show ?thesis
    proof (cases "ret0 = 0")
      case False
      with m b k assms(4) show ?thesis by (auto simp: try_layout_copy_def Let_def)
    next
      case True
      then have u0: "unit_at view sw D K 0 []" using b(2) by (simp add: unit_at_def)
      obtain ret1 sw1 where w: "unit_writes (se_api env) ?ws sw = (ret1, sw1)" by fastforce
      have u1: "unit_at view sw1 D K ret1 ?ws" using unit_at_writes [OF assms(1) u0 w] by simp
      have run: "try_layout_copy env rows_of donor rdonly s
          = (if ret1 \<noteq> 0 then Some (False, s\<lparr>sr_os := k, sr_writer := scan_write_abort (se_api env) sw1\<rparr>)
             else case scan_write_end (se_api env) now' sw1 of
                    (ret2, sw2) \<Rightarrow> Some (ret2 = 0, s\<lparr>sr_os := k', sr_writer := sw2\<rparr>))"
        using m k k' b(1) True w unfolding try_layout_copy_def Let_def flags_def [symmetric] dbfile_copy_scanned_file_def
        by (simp del: unit_writes.simps)
      show ?thesis
      proof (cases "ret1 = 0")
        case False
        with u1 obtain cur where "inside view sw1 D K cur" by (auto simp: unit_at_def)
        from abort_spec [OF assms(1) this] run assms(4) False show ?thesis by auto
      next
        case t1: True
        obtain ret2 sw2 where e: "scan_write_end (se_api env) now' sw1 = (ret2, sw2)" by fastforce
        have "if ret2 = 0 then \<exists>D' K'. idle view sw2 D' K' \<and> D' @ K' = D @ K @ [?ws] \<and> \<not> sw_batch_lost sw2
            else (\<exists>K'. idle view sw2 D K') \<and> sw_batch_lost sw2"
          by (rule end_unit [OF assms(1) _ e]) (use u1 t1 in simp)
        with run t1 e m match assms(4) show ?thesis by (auto split: if_splits)
      qed
    qed
  qed
qed

text \<open>File 3 has the extents of the small file.\<close>

definition small_donor :: "int \<Rightarrow> (u64 \<times> u64 \<times> u64) list \<times> bool" where
  "small_donor fid = (if fid = 3 then [(0, 4096, 4), (8, 8192, 4)] else [], True)"

lemma layout_copy_small: "\<exists>s'. try_layout_copy small_env small_donor 3 True small_run = Some (True, s')"
  by (simp add: try_layout_copy_def Let_def small_donor_def dbfile_layout_matches_def small_run_def small_map_def
      small_env_def dbfile_copy_scanned_file_def scan_write_begin_def scan_write_end_def scan_unit_release_def
      filescan_batch_lost_def dbfile_begin_trans_def scan_exec_def dbfile_exec_def plain_db_def script_effect_def
      scan_writer_open_def)

theorem layout_copy_sound_witness:
  "\<exists>s' D' K' flags. try_layout_copy small_env small_donor 3 True small_run = Some (True, s')
    \<and> idle (\<lambda>v. v) (sr_writer s') D' K' \<and> D' @ K' = [[CopyExtents 7 3, CopyBlocks 7 3, CopyFileRow 7 3 flags]]"
proof -
  obtain s' where s': "try_layout_copy small_env small_donor 3 True small_run = Some (True, s')"
    using layout_copy_small by blast
  have "idle (\<lambda>v. v) (sr_writer small_run) [] []" "\<not> sw_batch_lost (sr_writer small_run)"
    by (simp_all add: idle_def small_run_def scan_writer_open_def)
  from layout_copy_sound [OF writes_ok_sqlite [OF small_ok(7)] this s']
  have "\<exists>D' K' flags. idle (\<lambda>v. v) (sr_writer s') D' K' \<and> D' @ K' = [[CopyExtents 7 3, CopyBlocks 7 3, CopyFileRow 7 3 flags]]"
    by (auto simp: small_run_def)
  with s' show ?thesis by blast
qed

end
