(* ===== verification/ScanFs.thy ===== *)
theory ScanFs
  imports Dedupe
begin

text \<open>
  Which files a run takes (file_scan.c): the counters of what was skipped, the probe of the filesystem a
  path lives on, the filesystem the run is locked to, \<open>check_file\<close>, and the question put to the first
  files of a filesystem not known by name. The kernel, libmount, libblkid and libuuid are answers in an
  environment; a filesystem answers the same all through the walk. The caches of devices are under a
  mutex of their own and only ever gain true entries, so \<open>check_file\<close> is one step. Messages are left out.
\<close>

subsection \<open>What is skipped\<close>

datatype scan_skip_bucket =
    SCAN_SKIP_PERMISSION
  | SCAN_SKIP_UNREADABLE
  | SCAN_SKIP_PATH_TOO_LONG
  | SCAN_SKIP_UNSUPPORTED_FS
  | SCAN_SKIP_EXCLUDED
  | SCAN_SKIP_TOO_SMALL
  | SCAN_SKIP_TOO_LARGE
  | SCAN_SKIP_NOT_REGULAR
  | SCAN_SKIP_READONLY_SUBVOL
  | SCAN_SKIP_CHANGED

type_synonym skips = "scan_skip_bucket \<Rightarrow> nat"

fun scan_skip_is_error :: "scan_skip_bucket \<Rightarrow> bool" where
  "scan_skip_is_error SCAN_SKIP_PERMISSION = True"
| "scan_skip_is_error SCAN_SKIP_UNREADABLE = True"
| "scan_skip_is_error SCAN_SKIP_PATH_TOO_LONG = True"
| "scan_skip_is_error SCAN_SKIP_UNSUPPORTED_FS = True"
| "scan_skip_is_error _ = False"

definition filescan_count_skip :: "scan_skip_bucket \<Rightarrow> skips \<Rightarrow> skips" where
  "filescan_count_skip b skips = skips(b := skips b + 1)"

definition filescan_count_errno_skip :: "int \<Rightarrow> skips \<Rightarrow> skips" where
  "filescan_count_errno_skip err skips =
    filescan_count_skip (if err = EACCES \<or> err = EPERM then SCAN_SKIP_PERMISSION else SCAN_SKIP_UNREADABLE) skips"

subsection \<open>The environment\<close>

text \<open>A null UUID is zero.\<close>

type_synonym uuid = "128 word"
type_synonym path = "byte list"

abbreviation "BTRFS_SUPER_MAGIC \<equiv> (0x9123683E :: u64)"
abbreviation "XFS_SB_MAGIC \<equiv> (0x58465342 :: u64)"

datatype file_kind = Reg | Dir | OtherKind

record statx =
  stx_kind :: file_kind
  stx_size :: u64
  stx_ino :: u64
  stx_dev :: u64
  stx_sec :: u64
  stx_nsec :: u64
  stx_uid :: nat

definition timestamp_to_nano :: "statx \<Rightarrow> u64" where
  "timestamp_to_nano st = stx_sec st * 1000000000 + stx_nsec st"

text \<open>What the calls of \<open>probe_fs\<close> answer for a path: an error number or a value.\<close>

record fs_answers =
  fa_open :: "int option"
  fa_fstatfs :: "int + u64"
  fa_btrfs_fsuuid :: "uuid option"
  fa_getfsuuid :: "(nat \<times> uuid) option"
  fa_statx_major :: "int + nat"
  fa_mountinfo :: bool
  fa_mount_source :: "byte list option option"
  fa_blkid_uuid :: "byte list \<Rightarrow> byte list option"
  fa_open_nofollow :: bool
  fa_rdonly :: "bool option"

record walk_env =
  we_excluded :: "path \<Rightarrow> bool \<Rightarrow> bool"
  we_min_filesize :: u64
  we_max_filesize :: u64
  we_recurse_dirs :: bool
  we_skip_readonly_subvols :: bool
  we_force_fs_probe :: bool
  we_config_uuid :: "uuid option"
  we_fs :: "path \<Rightarrow> fs_answers"
  we_uuid_parse :: "byte list \<Rightarrow> uuid option"

record locked_fs =
  lf_uuid :: uuid
  lf_dev :: u64
  lf_is_btrfs :: bool
  lf_dedupe :: dedupe_support
  lf_tries :: nat
  lf_unasked :: nat

record fs_state =
  fs_locked :: locked_fs
  fs_verified :: "u64 set"
  fs_ro_subvols :: "u64 \<Rightarrow> bool option"
  fs_skips :: skips
  fs_seed_lock_failed :: bool
  fs_roots_seeded :: nat
  fs_roots_unusable :: nat

text \<open>As the program starts.\<close>

definition fs_start :: fs_state where
  "fs_start = \<lparr>fs_locked = \<lparr>lf_uuid = 0, lf_dev = 0, lf_is_btrfs = False, lf_dedupe = DEDUPE_SUPPORT_NO, lf_tries = 0,
     lf_unasked = 0\<rparr>, fs_verified = {}, fs_ro_subvols = (\<lambda>d. None), fs_skips = (\<lambda>b. 0), fs_seed_lock_failed = False,
     fs_roots_seeded = 0, fs_roots_unusable = 0\<rparr>"

definition count_skip :: "scan_skip_bucket \<Rightarrow> fs_state \<Rightarrow> fs_state" where
  "count_skip b s = s\<lparr>fs_skips := filescan_count_skip b (fs_skips s)\<rparr>"

definition count_errno_skip :: "int \<Rightarrow> fs_state \<Rightarrow> fs_state" where
  "count_errno_skip err s = s\<lparr>fs_skips := filescan_count_errno_skip err (fs_skips s)\<rparr>"

subsection \<open>Probing the filesystem of a path\<close>

definition extract_first_device :: "byte list option \<Rightarrow> byte list option" where
  "extract_first_device src = map_option (takeWhile (\<lambda>c. c \<noteq> 58)) src"

record fs_probe =
  fp_uuid :: uuid
  fp_is_btrfs :: bool
  fp_supported :: bool

definition is_fs_allowlisted :: "bool \<Rightarrow> u64 \<Rightarrow> bool" where
  "is_fs_allowlisted force f_type =
    (if force then False else f_type = BTRFS_SUPER_MAGIC \<or> f_type = XFS_SB_MAGIC)"

text \<open>libmount and libblkid, where the filesystem does not give its UUID itself.\<close>

definition probe_device :: "walk_env \<Rightarrow> fs_answers \<Rightarrow> fs_probe \<Rightarrow> fs_state \<Rightarrow> fs_probe option \<times> fs_state" where
  "probe_device env a probe s =
    (let unsupported = (None, count_skip SCAN_SKIP_UNSUPPORTED_FS s)
     in case fa_statx_major a of
          Inl err \<Rightarrow> (None, count_errno_skip err s)
        | Inr major \<Rightarrow>
            if major = 0 then unsupported
            else if \<not> fa_mountinfo a then unsupported
            else
              (case fa_mount_source a of
                 None \<Rightarrow> unsupported
               | Some fs_source \<Rightarrow>
                   (case extract_first_device fs_source of
                      None \<Rightarrow> (None, count_skip SCAN_SKIP_UNREADABLE s)
                    | Some first_device \<Rightarrow>
                        (case fa_blkid_uuid a first_device of
                           None \<Rightarrow> unsupported
                         | Some tag \<Rightarrow>
                             (case we_uuid_parse env tag of
                                None \<Rightarrow> unsupported
                              | Some u \<Rightarrow> if u = 0 then unsupported else (Some (probe\<lparr>fp_uuid := u\<rparr>), s))))))"

definition probe_fs :: "walk_env \<Rightarrow> path \<Rightarrow> bool \<Rightarrow> fs_state \<Rightarrow> fs_probe option \<times> fs_state" where
  "probe_fs env path btrfs_only s =
    (let a = we_fs env path
     in case fa_open a of
          Some err \<Rightarrow> (None, count_errno_skip err s)
        | None \<Rightarrow>
            (case fa_fstatfs a of
               Inl err \<Rightarrow> (None, count_errno_skip err s)
             | Inr f_type \<Rightarrow>
                 let probe = \<lparr>fp_uuid = 0, fp_is_btrfs = (f_type = BTRFS_SUPER_MAGIC),
                              fp_supported = is_fs_allowlisted (we_force_fs_probe env) f_type\<rparr>
                 in if fp_is_btrfs probe
                    then (case fa_btrfs_fsuuid a of
                            None \<Rightarrow> (None, count_skip SCAN_SKIP_UNSUPPORTED_FS s)
                          | Some u \<Rightarrow> (Some (probe\<lparr>fp_uuid := u\<rparr>), s))
                    else if btrfs_only then (Some probe, s)
                    else
                      (case fa_getfsuuid a of
                         None \<Rightarrow> probe_device env a probe s
                       | Some (len, u) \<Rightarrow>
                           if len = 16 \<and> u \<noteq> 0 then (Some (probe\<lparr>fp_uuid := u\<rparr>), s) else probe_device env a probe s)))"

subsection \<open>Read-only subvolumes\<close>

definition ro_subvol_cached :: "u64 \<Rightarrow> fs_state \<Rightarrow> bool option" where
  "ro_subvol_cached dev s = fs_ro_subvols s dev"

text \<open>\<open>answer\<close> is what the kernel says of the open descriptor, \<open>None\<close> when it is no subvolume.\<close>

definition ro_subvol_lookup :: "bool option \<Rightarrow> u64 \<Rightarrow> bool \<Rightarrow> fs_state \<Rightarrow> bool \<times> fs_state" where
  "ro_subvol_lookup answer dev tally s =
    (case ro_subvol_cached dev s of
       Some rdonly \<Rightarrow> (rdonly, s)
     | None \<Rightarrow>
         let rdonly = (case answer of None \<Rightarrow> False | Some r \<Rightarrow> r);
             s1 = s\<lparr>fs_ro_subvols := (fs_ro_subvols s)(dev \<mapsto> rdonly)\<rparr>
         in (rdonly, if rdonly \<and> tally then count_skip SCAN_SKIP_READONLY_SUBVOL s1 else s1))"

definition dev_is_readonly_subvol :: "walk_env \<Rightarrow> u64 \<Rightarrow> path \<Rightarrow> fs_state \<Rightarrow> bool \<times> fs_state" where
  "dev_is_readonly_subvol env dev path s =
    (case ro_subvol_cached dev s of
       Some rdonly \<Rightarrow> (rdonly, s)
     | None \<Rightarrow>
         if \<not> fa_open_nofollow (we_fs env path) then (False, s)
         else ro_subvol_lookup (fa_rdonly (we_fs env path)) dev True s)"

text \<open>\<open>st_dev\<close> is what \<open>fstat\<close> gives of the open descriptor.\<close>

definition filescan_fd_is_readonly_subvol :: "walk_env \<Rightarrow> u64 option \<Rightarrow> bool option \<Rightarrow> fs_state \<Rightarrow> bool \<times> fs_state" where
  "filescan_fd_is_readonly_subvol env st_dev answer s =
    (if \<not> lf_is_btrfs (fs_locked s) \<or> we_skip_readonly_subvols env then (False, s)
     else case st_dev of None \<Rightarrow> (False, s) | Some dev \<Rightarrow> ro_subvol_lookup answer dev False s)"

subsection \<open>Taking a path\<close>

definition seed_failed :: "bool \<Rightarrow> fs_state \<Rightarrow> fs_state" where
  "seed_failed parent_checked s = (if parent_checked then s else s\<lparr>fs_seed_lock_failed := True\<rparr>)"

definition seed_reject :: "bool \<Rightarrow> fs_state \<Rightarrow> bool \<times> fs_state" where
  "seed_reject parent_checked s = (False, seed_failed parent_checked s)"

definition root_unusable :: "bool \<Rightarrow> fs_state \<Rightarrow> fs_state" where
  "root_unusable parent_checked s = (if parent_checked then s else s\<lparr>fs_roots_unusable := fs_roots_unusable s + 1\<rparr>)"

definition other_fs :: "bool \<Rightarrow> fs_state \<Rightarrow> bool \<times> fs_state" where
  "other_fs parent_checked s = (False, root_unusable parent_checked s)"

definition verified_dev_get :: "u64 \<Rightarrow> fs_state \<Rightarrow> bool" where
  "verified_dev_get dev s \<longleftrightarrow> dev \<in> fs_verified s"

definition verified_dev_put :: "u64 \<Rightarrow> fs_state \<Rightarrow> fs_state" where
  "verified_dev_put dev s = s\<lparr>fs_verified := insert dev (fs_verified s)\<rparr>"

text \<open>Locking on the filesystem of a path just probed.\<close>

definition lock_on :: "fs_probe \<Rightarrow> statx \<Rightarrow> fs_state \<Rightarrow> fs_state" where
  "lock_on probe st s = s\<lparr>fs_locked := (fs_locked s)\<lparr>lf_uuid := fp_uuid probe, lf_dev := stx_dev st,
     lf_is_btrfs := fp_is_btrfs probe,
     lf_dedupe := if fp_supported probe then DEDUPE_SUPPORT_YES else DEDUPE_SUPPORT_UNKNOWN\<rparr>\<rparr>"

text \<open>The second half of \<open>check_file\<close>: is the path on the filesystem the run is locked to?\<close>

definition locked_fs_check :: "walk_env \<Rightarrow> path \<Rightarrow> statx \<Rightarrow> bool \<Rightarrow> fs_state \<Rightarrow> bool \<times> fs_state" where
  "locked_fs_check env path st parent_checked s0 =
    (if lf_uuid (fs_locked s0) = 0 \<and> we_config_uuid env = None then seed_reject parent_checked s0
     else
       let s = (if lf_uuid (fs_locked s0) = 0
                then s0\<lparr>fs_locked := (fs_locked s0)\<lparr>lf_uuid := the (we_config_uuid env)\<rparr>\<rparr> else s0);
           dev = stx_dev st
       in if lf_uuid (fs_locked s) = 0
          then (case probe_fs env path False s of
                  (None, s1) \<Rightarrow> seed_reject parent_checked s1
                | (Some probe, s1) \<Rightarrow> (True, lock_on probe st s1))
          else if lf_dev (fs_locked s) = 0
          then (case probe_fs env path False s of
                  (None, s1) \<Rightarrow> seed_reject parent_checked s1
                | (Some probe, s1) \<Rightarrow>
                    if fp_uuid probe \<noteq> lf_uuid (fs_locked s1)
                    then seed_reject parent_checked
                           (root_unusable parent_checked (count_skip SCAN_SKIP_UNSUPPORTED_FS s1))
                    else (True, lock_on probe st s1))
          else if \<not> lf_is_btrfs (fs_locked s)
          then (if lf_dev (fs_locked s) = dev then (True, s) else other_fs parent_checked s)
          else if verified_dev_get dev s then (True, s)
          else case probe_fs env path True s of
                 (None, s1) \<Rightarrow> (False, root_unusable parent_checked s1)
               | (Some probe, s1) \<Rightarrow>
                   if \<not> fp_is_btrfs probe \<or> fp_uuid probe \<noteq> lf_uuid (fs_locked s1) then other_fs parent_checked s1
                   else (True, verified_dev_put dev s1))"

definition check_file :: "walk_env \<Rightarrow> path \<Rightarrow> statx \<Rightarrow> bool \<Rightarrow> fs_state \<Rightarrow> bool \<times> fs_state" where
  "check_file env path st parent_checked s =
    (let reg = (stx_kind st = Reg)
     in if we_excluded env path (stx_kind st = Dir) then (False, count_skip SCAN_SKIP_EXCLUDED s)
        else if stx_kind st \<noteq> Reg \<and> stx_kind st \<noteq> Dir then (False, count_skip SCAN_SKIP_NOT_REGULAR s)
        else if reg \<and> stx_size st < we_min_filesize env then (False, count_skip SCAN_SKIP_TOO_SMALL s)
        else if reg \<and> we_max_filesize env \<noteq> 0 \<and> we_max_filesize env < stx_size st
        then (False, count_skip SCAN_SKIP_TOO_LARGE s)
        else
          let (rdonly, s1) = (if lf_is_btrfs (fs_locked s) \<and> we_skip_readonly_subvols env
                              then dev_is_readonly_subvol env (stx_dev st) path s else (False, s))
          in if rdonly then (False, s1)
             else if reg \<and> parent_checked then (True, s1)
             else locked_fs_check env path st parent_checked s1)"

definition filescan_seed_failed :: "fs_state \<Rightarrow> bool" where
  "filescan_seed_failed s \<longleftrightarrow> fs_seed_lock_failed s \<and> fs_roots_seeded s = 0"

subsection \<open>Asking a file whether the filesystem can be deduplicated\<close>

abbreviation "FS_PROBE_MAX_TRIES \<equiv> (16 :: nat)"
abbreviation "FS_PROBE_MAX_UNASKED \<equiv> (1024 :: nat)"
abbreviation "EROFS \<equiv> (30 :: int)"

text \<open>The opens of a listed file: a descriptor, an error number, or a name that is no regular file any more.\<close>

datatype opened = Opened nat | NotRegular | OpenFailed int

record open_answers =
  oa_noatime :: "int + nat"
  oa_again :: "int + nat"
  oa_fstat :: "int + file_kind"
  oa_fcntl :: "int option"

definition open_listed :: "open_answers \<Rightarrow> opened" where
  "open_listed a =
    (case (case oa_noatime a of Inl err \<Rightarrow> if err = EPERM then oa_again a else Inl err | Inr fd \<Rightarrow> Inr fd) of
       Inl err \<Rightarrow> OpenFailed err
     | Inr fd \<Rightarrow>
         (case oa_fstat a of
            Inl err \<Rightarrow> OpenFailed err
          | Inr kind \<Rightarrow>
              if kind \<noteq> Reg then NotRegular
              else case oa_fcntl a of Some err \<Rightarrow> OpenFailed err | None \<Rightarrow> Opened fd))"

definition fs_probe_refuse :: "fs_state \<Rightarrow> bool \<times> fs_state" where
  "fs_probe_refuse s = (False, count_skip SCAN_SKIP_UNSUPPORTED_FS s)"

definition fs_probe_not_asked :: "fs_state \<Rightarrow> bool \<times> fs_state" where
  "fs_probe_not_asked s =
    (let n = lf_unasked (fs_locked s) + 1; s1 = s\<lparr>fs_locked := (fs_locked s)\<lparr>lf_unasked := n\<rparr>\<rparr>
     in if n < FS_PROBE_MAX_UNASKED then (True, s1) else fs_probe_refuse s1)"

record 'k probe_env =
  pe_open_rw :: "path \<Rightarrow> open_answers"
  pe_open_ro :: "path \<Rightarrow> open_answers"
  pe_euid :: nat
  pe_blocksize :: u32
  pe_ioctl :: "'k dedupe_ioctl"

definition probe_verdict :: "bool \<Rightarrow> dedupe_support \<Rightarrow> fs_state \<Rightarrow> bool \<times> fs_state" where
  "probe_verdict owned_fallback support s =
    (let lf = fs_locked s
     in if owned_fallback \<and> support = DEDUPE_SUPPORT_UNKNOWN then fs_probe_not_asked s
        else case support of
          DEDUPE_SUPPORT_YES \<Rightarrow> (True, s\<lparr>fs_locked := lf\<lparr>lf_dedupe := DEDUPE_SUPPORT_YES\<rparr>\<rparr>)
        | DEDUPE_SUPPORT_UNKNOWN \<Rightarrow>
            let n = lf_tries lf + 1; s1 = s\<lparr>fs_locked := lf\<lparr>lf_tries := n\<rparr>\<rparr>
            in if n < FS_PROBE_MAX_TRIES then (True, s1) else fs_probe_refuse s1
        | DEDUPE_SUPPORT_NO \<Rightarrow> fs_probe_refuse (s\<lparr>fs_locked := lf\<lparr>lf_dedupe := DEDUPE_SUPPORT_NO\<rparr>\<rparr>))"

definition fs_dedupe_probe_settled :: "'k probe_env \<Rightarrow> path \<Rightarrow> statx \<Rightarrow> fs_state \<times> 'k \<Rightarrow> bool \<times> fs_state \<times> 'k" where
  "fs_dedupe_probe_settled env path st sk =
    (case sk of (s, k) \<Rightarrow>
       let rw = open_listed (pe_open_rw env path);
           (fd, owned_fallback) =
             (case rw of
                OpenFailed err \<Rightarrow>
                  if err \<noteq> EROFS \<and> stx_uid st = pe_euid env then (open_listed (pe_open_ro env path), True) else (rw, False)
              | _ \<Rightarrow> (rw, False))
       in case fd of
            NotRegular \<Rightarrow> (True, s, k)
          | OpenFailed err \<Rightarrow>
              (case (if err \<noteq> EROFS then fs_probe_not_asked s else probe_verdict owned_fallback DEDUPE_SUPPORT_UNKNOWN s)
               of (r, s') \<Rightarrow> (r, s', k))
          | Opened n \<Rightarrow>
              if dedupe_probe_len (pe_blocksize env) (stx_size st) = 0
              then (case fs_probe_not_asked s of (r, s') \<Rightarrow> (r, s', k))
              else (case dedupe_probe_fd (pe_blocksize env) (pe_ioctl env) k n (stx_size st) of
                      (support, k') \<Rightarrow> (case probe_verdict owned_fallback support s of (r, s') \<Rightarrow> (r, s', k'))))"

definition filescan_report_fs_unusable :: "bool \<Rightarrow> fs_state \<Rightarrow> bool" where
  "filescan_report_fs_unusable interrupted s =
    (if interrupted \<or> lf_dedupe (fs_locked s) \<noteq> DEDUPE_SUPPORT_UNKNOWN then False else True)"

subsection \<open>One run, one filesystem\<close>

lemma count_skip_same [simp]: "fs_locked (count_skip b s) = fs_locked s" "fs_verified (count_skip b s) = fs_verified s"
  "fs_locked (count_errno_skip e s) = fs_locked s" "fs_verified (count_errno_skip e s) = fs_verified s"
  "fs_locked (root_unusable pc s) = fs_locked s" "fs_verified (root_unusable pc s) = fs_verified s"
  "fs_locked (seed_failed pc s) = fs_locked s" "fs_verified (seed_failed pc s) = fs_verified s"
  by (simp_all add: count_skip_def count_errno_skip_def root_unusable_def seed_failed_def)

lemma probe_device_same:
  "probe_device env a probe s = (r, s') \<Longrightarrow> fs_locked s' = fs_locked s \<and> fs_verified s' = fs_verified s"
  by (auto simp: probe_device_def Let_def split: sum.splits option.splits if_splits)

lemma probe_fs_same:
  "probe_fs env path only s = (r, s') \<Longrightarrow> fs_locked s' = fs_locked s \<and> fs_verified s' = fs_verified s"
  using probe_device_same
  by (auto simp: probe_fs_def Let_def split: sum.splits option.splits if_splits prod.splits)

lemma dev_is_readonly_same:
  "dev_is_readonly_subvol env dev path s = (r, s') \<Longrightarrow> fs_locked s' = fs_locked s \<and> fs_verified s' = fs_verified s"
  by (auto simp: dev_is_readonly_subvol_def ro_subvol_lookup_def Let_def split: option.splits if_splits)

text \<open>\<open>fs_of\<close> is the filesystem a device belongs to: a probe that tells it tells the truth, and devices and
  UUIDs are not null.\<close>

definition tells :: "walk_env \<Rightarrow> (u64 \<Rightarrow> uuid) \<Rightarrow> path \<Rightarrow> statx \<Rightarrow> bool" where
  "tells env fs_of path st \<longleftrightarrow> stx_dev st \<noteq> 0 \<and> fs_of (stx_dev st) \<noteq> 0
    \<and> (\<forall>only s probe s'. probe_fs env path only s = (Some probe, s') \<and> (fp_is_btrfs probe \<or> \<not> only)
         \<longrightarrow> fp_uuid probe = fs_of (stx_dev st))"

definition lock_inv :: "walk_env \<Rightarrow> (u64 \<Rightarrow> uuid) \<Rightarrow> fs_state \<Rightarrow> bool" where
  "lock_inv env fs_of s \<longleftrightarrow>
    (if lf_dev (fs_locked s) = 0
     then fs_verified s = {} \<and> (lf_uuid (fs_locked s) \<noteq> 0 \<longrightarrow> we_config_uuid env = Some (lf_uuid (fs_locked s)))
     else lf_uuid (fs_locked s) \<noteq> 0 \<and> lf_uuid (fs_locked s) = fs_of (lf_dev (fs_locked s))
       \<and> (\<forall>d \<in> fs_verified s. fs_of d = lf_uuid (fs_locked s))
       \<and> (\<forall>u. we_config_uuid env = Some u \<and> u \<noteq> 0 \<longrightarrow> lf_uuid (fs_locked s) = u))"

lemma lock_inv_same:
  "fs_locked s' = fs_locked s \<Longrightarrow> fs_verified s' = fs_verified s \<Longrightarrow> lock_inv env fs_of s' = lock_inv env fs_of s"
  by (simp add: lock_inv_def)

definition kept_lock :: "fs_state \<Rightarrow> fs_state \<Rightarrow> bool" where
  "kept_lock s s' \<longleftrightarrow> lf_dev (fs_locked s) \<noteq> 0 \<longrightarrow> fs_locked s' = fs_locked s"

lemma locked_fs_check_spec:
  assumes inv: "lock_inv env fs_of s0" and t: "tells env fs_of path st"
    and r: "locked_fs_check env path st pc s0 = (taken, s')"
  shows "lock_inv env fs_of s' \<and> kept_lock s0 s'
    \<and> (taken \<longrightarrow> lf_dev (fs_locked s') \<noteq> 0 \<and> fs_of (stx_dev st) = lf_uuid (fs_locked s'))"
proof (cases "lf_uuid (fs_locked s0) = 0 \<and> we_config_uuid env = None")
  case True
  with r inv show ?thesis by (auto simp: locked_fs_check_def seed_reject_def kept_lock_def lock_inv_def split: if_splits)
next
  case False
  define s where "s = (if lf_uuid (fs_locked s0) = 0
                then s0\<lparr>fs_locked := (fs_locked s0)\<lparr>lf_uuid := the (we_config_uuid env)\<rparr>\<rparr> else s0)"
  have i: "lock_inv env fs_of s" "kept_lock s0 s"
    using inv False by (auto simp: s_def lock_inv_def kept_lock_def Let_def)
  have same_dev: "lf_dev (fs_locked s) = lf_dev (fs_locked s0)" by (simp add: s_def)
  have told: "fp_uuid probe = fs_of (stx_dev st)" if "probe_fs env path only s = (Some probe, s1)" "fp_is_btrfs probe \<or> \<not> only"
    for only probe s1 using t that by (auto simp: tells_def)
  have dev: "stx_dev st \<noteq> 0" "fs_of (stx_dev st) \<noteq> 0" using t by (simp_all add: tells_def)
  show ?thesis
  proof (cases "lf_dev (fs_locked s) = 0")
    case unlocked: True
    obtain probe s1 where p: "probe_fs env path False s = (probe, s1)" by fastforce
    note same = probe_fs_same [OF p]
    show ?thesis
    proof (cases "lf_uuid (fs_locked s) = 0")
      case True
      then have "we_config_uuid env = Some 0" using False by (auto simp: s_def split: if_splits)
      with True r False unlocked p same i same_dev dev show ?thesis
        unfolding locked_fs_check_def s_def [symmetric]
        by (cases probe) (auto simp: Let_def seed_reject_def lock_on_def kept_lock_def lock_inv_def dest: told)
    next
      case locked: False
      then have "we_config_uuid env = Some (lf_uuid (fs_locked s))"
        using i(1) unlocked by (simp add: lock_inv_def)
      with r False unlocked locked p same i same_dev dev show ?thesis
        unfolding locked_fs_check_def s_def [symmetric]
        by (cases probe) (auto simp: Let_def seed_reject_def lock_on_def kept_lock_def lock_inv_def dest: told split: if_splits)
    qed
  next
    case locked: False
    obtain probe s1 where p: "probe_fs env path True s = (probe, s1)" by fastforce
    note same = probe_fs_same [OF p]
    have "fp_uuid a = fs_of (stx_dev st)" if "probe = Some a" "fp_is_btrfs a" for a using told p that by simp
    with r False locked p same i same_dev dev show ?thesis
      unfolding locked_fs_check_def s_def [symmetric]
      by (cases probe) (auto simp: Let_def other_fs_def verified_dev_put_def verified_dev_get_def kept_lock_def
          lock_inv_def split: if_splits)
  qed
qed

text \<open>What \<open>check_file\<close> looks at in the path itself.\<close>

definition wanted :: "walk_env \<Rightarrow> path \<Rightarrow> statx \<Rightarrow> bool" where
  "wanted env path st \<longleftrightarrow> \<not> we_excluded env path (stx_kind st = Dir) \<and> stx_kind st \<noteq> OtherKind
    \<and> (stx_kind st = Reg \<longrightarrow> we_min_filesize env \<le> stx_size st \<and> (we_max_filesize env = 0 \<or> stx_size st \<le> we_max_filesize env))"

lemma check_file_spec:
  assumes inv: "lock_inv env fs_of s" and t: "tells env fs_of path st"
    and r: "check_file env path st pc s = (taken, s')"
  shows "lock_inv env fs_of s' \<and> kept_lock s s' \<and> (taken \<longrightarrow> wanted env path st)
    \<and> (taken \<and> (stx_kind st = Dir \<or> \<not> pc) \<longrightarrow> lf_dev (fs_locked s') \<noteq> 0 \<and> fs_of (stx_dev st) = lf_uuid (fs_locked s'))"
proof -
  have skip: "lock_inv env fs_of (count_skip b s)" "kept_lock s (count_skip b s)" "kept_lock s s" for b
    using inv lock_inv_same [of "count_skip b s" s] by (simp_all add: kept_lock_def)
  show ?thesis
  proof (cases "wanted env path st")
    case False
    with r skip show ?thesis
      by (cases "stx_kind st") (auto simp: check_file_def wanted_def Let_def split: if_splits)
  next
    case True
    obtain rdonly s1 where ro: "(if lf_is_btrfs (fs_locked s) \<and> we_skip_readonly_subvols env
        then dev_is_readonly_subvol env (stx_dev st) path s else (False, s)) = (rdonly, s1)" by fastforce
    then have same: "fs_locked s1 = fs_locked s" "fs_verified s1 = fs_verified s"
      using dev_is_readonly_same by (auto split: if_splits)
    have i1: "lock_inv env fs_of s1" using inv lock_inv_same [OF same] by simp
    have run: "check_file env path st pc s = (if rdonly then (False, s1)
        else if stx_kind st = Reg \<and> pc then (True, s1) else locked_fs_check env path st pc s1)"
      using True ro by (cases "stx_kind st") (auto simp: check_file_def wanted_def Let_def not_less)
    show ?thesis
    proof (cases "rdonly \<or> stx_kind st = Reg \<and> pc")
      case fast: True
      with run r i1 same True show ?thesis by (auto simp: kept_lock_def split: if_splits)
    next
      case False
      with run r have "locked_fs_check env path st pc s1 = (taken, s')" by (auto split: if_splits)
      from locked_fs_check_spec [OF i1 t this] True same show ?thesis by (auto simp: kept_lock_def)
    qed
  qed
qed

text \<open>The paths of a run, in the order they are checked.\<close>

fun check_files :: "walk_env \<Rightarrow> (path \<times> statx \<times> bool) list \<Rightarrow> fs_state \<Rightarrow> bool list \<times> fs_state" where
  "check_files env [] s = ([], s)"
| "check_files env ((path, st, pc) # cs) s =
    (case check_file env path st pc s of
       (taken, s1) \<Rightarrow> (case check_files env cs s1 of (ts, s2) \<Rightarrow> (taken # ts, s2)))"

lemma check_files_spec:
  assumes "lock_inv env fs_of s" "\<forall>(path, st, pc) \<in> set cs. tells env fs_of path st"
    and "check_files env cs s = (ts, s')"
  shows "lock_inv env fs_of s' \<and> kept_lock s s' \<and> length ts = length cs
    \<and> (\<forall>((path, st, pc), taken) \<in> set (zip cs ts). taken \<longrightarrow> wanted env path st
        \<and> (stx_kind st = Dir \<or> \<not> pc \<longrightarrow> lf_dev (fs_locked s') \<noteq> 0 \<and> fs_of (stx_dev st) = lf_uuid (fs_locked s')))"
  using assms
proof (induction cs arbitrary: s ts s')
  case Nil
  then show ?case by (simp add: kept_lock_def)
next
  case (Cons c cs)
  obtain path st pc where c: "c = (path, st, pc)" by (cases c)
  obtain taken s1 where r: "check_file env path st pc s = (taken, s1)" by fastforce
  obtain ts1 s2 where rs: "check_files env cs s1 = (ts1, s2)" by fastforce
  have out: "ts = taken # ts1" "s' = s2" using Cons.prems(3) c r rs by auto
  have "tells env fs_of path st" "\<forall>(path, st, pc) \<in> set cs. tells env fs_of path st"
    using Cons.prems(2) c by auto
  note t = this
  from check_file_spec [OF Cons.prems(1) t(1) r]
  have one: "lock_inv env fs_of s1" "kept_lock s s1" "taken \<Longrightarrow> wanted env path st"
    "taken \<Longrightarrow> stx_kind st = Dir \<or> \<not> pc \<Longrightarrow> lf_dev (fs_locked s1) \<noteq> 0 \<and> fs_of (stx_dev st) = lf_uuid (fs_locked s1)"
    by auto
  from Cons.IH [OF one(1) t(2) rs] have
    rest: "lock_inv env fs_of s2" "kept_lock s1 s2" "length ts1 = length cs"
    "\<forall>((path, st, pc), taken) \<in> set (zip cs ts1). taken \<longrightarrow> wanted env path st
        \<and> (stx_kind st = Dir \<or> \<not> pc \<longrightarrow> lf_dev (fs_locked s2) \<noteq> 0 \<and> fs_of (stx_dev st) = lf_uuid (fs_locked s2))"
    by auto
  have "lf_dev (fs_locked s2) \<noteq> 0 \<and> fs_of (stx_dev st) = lf_uuid (fs_locked s2)" if "taken" "stx_kind st = Dir \<or> \<not> pc"
    using one(4) [OF that] rest(2) by (simp add: kept_lock_def)
  moreover have "kept_lock s s2" using one(2) rest(2) by (simp add: kept_lock_def)
  ultimately show ?case using one(3) rest c out by auto
qed

text \<open>C5: Every directory and every path the user names that a run takes is on one filesystem, the one the
  hashfile records if it records one; no path is taken that is excluded, of another kind, or a file
  outside the size limits. This for any paths in any order, whatever device each is on, if a
  filesystem tells its UUID truly when it tells it.\<close>

theorem check_files_one_fs:
  assumes "\<forall>(path, st, pc) \<in> set cs. tells env fs_of path st"
    and "check_files env cs fs_start = (ts, s')"
  shows "\<forall>((path, st, pc), taken) \<in> set (zip cs ts). taken \<longrightarrow>
    \<not> we_excluded env path (stx_kind st = Dir) \<and> stx_kind st \<noteq> OtherKind
    \<and> (stx_kind st = Reg \<longrightarrow> we_min_filesize env \<le> stx_size st \<and> (we_max_filesize env = 0 \<or> stx_size st \<le> we_max_filesize env))
    \<and> (stx_kind st = Dir \<or> \<not> pc \<longrightarrow> fs_of (stx_dev st) = lf_uuid (fs_locked s')
         \<and> (\<forall>u. we_config_uuid env = Some u \<and> u \<noteq> 0 \<longrightarrow> fs_of (stx_dev st) = u))"
proof -
  have "lock_inv env fs_of fs_start" by (simp add: lock_inv_def fs_start_def)
  from check_files_spec [OF this assms] show ?thesis
    unfolding wanted_def lock_inv_def by (fastforce split: if_splits)
qed

text \<open>A btrfs with two subvolumes, devices 1 and 2, and an XFS on device 3.\<close>

definition mixed_env :: walk_env where
  "mixed_env = \<lparr>we_excluded = (\<lambda>path dir. path = [47, 110]), we_min_filesize = 1, we_max_filesize = 0, we_recurse_dirs = True,
     we_skip_readonly_subvols = False, we_force_fs_probe = False, we_config_uuid = Some 0,
     we_fs = (\<lambda>path. \<lparr>fa_open = None, fa_fstatfs = Inr (if path = [47, 120] then XFS_SB_MAGIC else BTRFS_SUPER_MAGIC),
        fa_btrfs_fsuuid = Some 77, fa_getfsuuid = Some (16, 99), fa_statx_major = Inr 0, fa_mountinfo = False,
        fa_mount_source = None, fa_blkid_uuid = (\<lambda>d. None), fa_open_nofollow = True, fa_rdonly = Some False\<rparr>),
     we_uuid_parse = (\<lambda>t. None)\<rparr>"

definition mixed_calls :: "(path \<times> statx \<times> bool) list" where
  "mixed_calls = map (\<lambda>(path, kind, sz, dev, pc).
       (path, \<lparr>stx_kind = kind, stx_size = sz, stx_ino = 5, stx_dev = dev, stx_sec = 0, stx_nsec = 0, stx_uid = 0\<rparr>, pc))
     [([47, 97], Dir, 0, 1, False), ([47, 98], Dir, 0, 2, True), ([47, 120], Dir, 0, 3, False),
      ([47, 102], Reg, 9, 1, True), ([47, 101], Reg, 0, 1, True), ([47, 110], Reg, 9, 1, True)]"

theorem check_files_one_fs_witness:
  "\<exists>s'. check_files mixed_env mixed_calls fs_start = ([True, True, False, True, False, False], s')
    \<and> lf_uuid (fs_locked s') = 77"
proof -
  have t: "\<forall>(path, st, pc) \<in> set mixed_calls. tells mixed_env (\<lambda>d. if d = 3 then 99 else 77) path st"
    by (auto simp: mixed_calls_def tells_def mixed_env_def probe_fs_def Let_def)
  obtain s' where r: "check_files mixed_env mixed_calls fs_start = ([True, True, False, True, False, False], s')"
    by (simp add: mixed_calls_def mixed_env_def fs_start_def check_file_def locked_fs_check_def probe_fs_def Let_def
        lock_on_def verified_dev_get_def verified_dev_put_def other_fs_def root_unusable_def is_fs_allowlisted_def
        count_skip_def)
  from check_files_one_fs [OF t r] have "lf_uuid (fs_locked s') = 77" by (simp add: mixed_calls_def)
  with r show ?thesis by blast
qed

subsection \<open>Files that cannot answer\<close>

text \<open>Every file let through without an answer brings one of the two counters nearer to its limit, except a
  name that is no regular file any more.\<close>

lemma probe_settled_counts:
  assumes r: "fs_dedupe_probe_settled env path st (s, k) = (ok, s', k')"
    and u: "lf_dedupe (fs_locked s) = DEDUPE_SUPPORT_UNKNOWN"
    and l: "lf_tries (fs_locked s) < FS_PROBE_MAX_TRIES" "lf_unasked (fs_locked s) < FS_PROBE_MAX_UNASKED"
  shows "if ok
    then lf_dedupe (fs_locked s') = DEDUPE_SUPPORT_YES
      \<or> s' = s \<and> open_listed (pe_open_rw env path) = NotRegular
      \<or> s' = s \<and> open_listed (pe_open_ro env path) = NotRegular
      \<or> lf_dedupe (fs_locked s') = DEDUPE_SUPPORT_UNKNOWN
        \<and> lf_tries (fs_locked s') < FS_PROBE_MAX_TRIES \<and> lf_unasked (fs_locked s') < FS_PROBE_MAX_UNASKED
        \<and> lf_tries (fs_locked s') + lf_unasked (fs_locked s') = lf_tries (fs_locked s) + lf_unasked (fs_locked s) + 1
    else lf_dedupe (fs_locked s') \<noteq> DEDUPE_SUPPORT_YES"
  using r u l
  by (auto simp: fs_dedupe_probe_settled_def Let_def probe_verdict_def fs_probe_not_asked_def fs_probe_refuse_def
      split: opened.splits if_splits prod.splits dedupe_support.splits)

end
