(* ===== verification/ScanWalk.thy ===== *)
theory ScanWalk
  imports ScanFs ScanQueue
begin

text \<open>
  The parallel walk (file_scan.c): the roots, the two queues, the count of directories outstanding that
  says when the walk is over, and the threads that read directories while the main thread takes the
  files. GLib's queues are lists; what the system calls answer for an entry comes with the entry. A
  thread takes one entry of its directory in a step, so the threads interleave between entries.
\<close>

subsection \<open>The queues\<close>

datatype 'a item = Stop | Item 'a

record walk =
  wk_dirq :: "path item list"
  wk_fileq :: "(path \<times> statx) item list"
  wk_pending :: int
  wk_nthreads :: nat
  wk_roots :: "path list"
  wk_fs :: fs_state

definition dirq_stop_walkers :: "walk \<Rightarrow> walk" where
  "dirq_stop_walkers w = w\<lparr>wk_dirq := wk_dirq w @ replicate (wk_nthreads w) Stop, wk_fileq := wk_fileq w @ [Stop]\<rparr>"

text \<open>\<open>None\<close> is a path there was no memory for.\<close>

definition dirq_push :: "path option \<Rightarrow> walk \<Rightarrow> walk" where
  "dirq_push p w =
    (case p of
       None \<Rightarrow> w\<lparr>wk_fs := count_skip SCAN_SKIP_UNREADABLE (wk_fs w)\<rparr>
     | Some path \<Rightarrow> w\<lparr>wk_pending := wk_pending w + 1, wk_dirq := wk_dirq w @ [Item path]\<rparr>)"

definition dirq_finished :: "walk \<Rightarrow> walk" where
  "dirq_finished w =
    (let w1 = w\<lparr>wk_pending := wk_pending w - 1\<rparr> in if wk_pending w1 = 0 then dirq_stop_walkers w1 else w1)"

definition fileq_push :: "bool \<Rightarrow> path \<Rightarrow> statx \<Rightarrow> walk \<Rightarrow> walk" where
  "fileq_push alloc path st w = (if alloc then w\<lparr>wk_fileq := wk_fileq w @ [Item (path, st)]\<rparr> else w)"

definition filescan_walk_begin :: "nat \<Rightarrow> fs_state \<Rightarrow> walk" where
  "filescan_walk_begin io_threads s =
    \<lparr>wk_dirq = [], wk_fileq = [], wk_pending = 1, wk_nthreads = (if io_threads \<noteq> 0 then io_threads else 1),
     wk_roots = [], wk_fs = s\<lparr>fs_seed_lock_failed := False, fs_roots_seeded := 0\<rparr>\<rparr>"

subsection \<open>Reading a directory\<close>

abbreviation "NAME_MAX \<equiv> (255 :: nat)"
abbreviation "SLASH \<equiv> (47 :: byte)"

datatype d_type = DT_UNKNOWN | DT_REG | DT_DIR | DT_OTHER

record dirent =
  de_name :: "byte list"
  de_type :: d_type
  de_statx :: "int + statx"
  de_alloc :: bool

record dir_answers =
  da_opendir :: "int option"
  da_alloc :: bool
  da_entries :: "dirent list"
  da_readdir :: "int option"

definition walk_takes :: "walk_env \<Rightarrow> bool \<Rightarrow> bool \<Rightarrow> fs_state \<Rightarrow> bool \<times> fs_state" where
  "walk_takes env reg dir s =
    (if reg \<or> dir \<and> we_recurse_dirs env then (True, s)
     else (False, if \<not> dir then count_skip SCAN_SKIP_NOT_REGULAR s else s))"

definition child_path :: "path \<Rightarrow> byte list \<Rightarrow> path" where
  "child_path dir name = (if dir = [SLASH] then dir else dir @ [SLASH]) @ name"

definition process_entry :: "walk_env \<Rightarrow> path \<Rightarrow> dirent \<Rightarrow> walk \<Rightarrow> walk" where
  "process_entry env dir e w =
    (if de_name e = [46] \<or> de_name e = [46, 46] then w
     else case (if de_type e \<noteq> DT_UNKNOWN then walk_takes env (de_type e = DT_REG) (de_type e = DT_DIR) (wk_fs w)
                else (True, wk_fs w)) of
       (taken, s) \<Rightarrow>
         if \<not> taken then w\<lparr>wk_fs := s\<rparr>
         else if NAME_MAX < length (de_name e) then w\<lparr>wk_fs := count_skip SCAN_SKIP_PATH_TOO_LONG s\<rparr>
         else
           (case de_statx e of
              Inl err \<Rightarrow> w\<lparr>wk_fs := count_errno_skip err s\<rparr>
            | Inr st \<Rightarrow>
                (case (if de_type e = DT_UNKNOWN then walk_takes env (stx_kind st = Reg) (stx_kind st = Dir) s
                       else (True, s)) of
                   (taken1, s1) \<Rightarrow>
                     if \<not> taken1 then w\<lparr>wk_fs := s1\<rparr>
                     else
                       let child = child_path dir (de_name e)
                       in case check_file env child st True s1 of
                            (ok, s2) \<Rightarrow>
                              let w2 = w\<lparr>wk_fs := s2\<rparr>
                              in if \<not> ok then w2
                                 else if stx_kind st = Reg then fileq_push (de_alloc e) child st w2
                                 else if we_recurse_dirs env then dirq_push (if de_alloc e then Some child else None) w2
                                 else w2)))"

text \<open>Opening a directory gives the entries to read and the error, if any, that ends them.\<close>

definition open_dir :: "dir_answers \<Rightarrow> walk \<Rightarrow> dirent list \<times> int option \<times> walk" where
  "open_dir da w =
    (case da_opendir da of
       Some err \<Rightarrow> ([], None, w\<lparr>wk_fs := count_errno_skip err (wk_fs w)\<rparr>)
     | None \<Rightarrow>
         if \<not> da_alloc da then ([], None, w\<lparr>wk_fs := count_skip SCAN_SKIP_UNREADABLE (wk_fs w)\<rparr>)
         else (da_entries da, da_readdir da, w))"

definition end_dir :: "int option \<Rightarrow> walk \<Rightarrow> walk" where
  "end_dir readdir_err w =
    (case readdir_err of None \<Rightarrow> w | Some err \<Rightarrow> w\<lparr>wk_fs := count_errno_skip err (wk_fs w)\<rparr>)"

definition process_dir :: "walk_env \<Rightarrow> dir_answers \<Rightarrow> path \<Rightarrow> walk \<Rightarrow> walk" where
  "process_dir env da path w =
    (case open_dir da w of (es, err, w1) \<Rightarrow> end_dir err (fold (process_entry env path) es w1))"

subsection \<open>Roots and checkpointed files\<close>

record root_answers =
  ra_realpath :: "int + path"
  ra_statx :: "int + statx"
  ra_alloc :: bool

definition bad_root :: "int \<Rightarrow> fs_state \<Rightarrow> fs_state" where
  "bad_root err s = (count_errno_skip err s)\<lparr>fs_roots_unusable := fs_roots_unusable s + 1\<rparr>"

definition scan_file :: "walk_env \<Rightarrow> root_answers \<Rightarrow> walk \<Rightarrow> walk" where
  "scan_file env ra w =
    (case ra_realpath ra of
       Inl err \<Rightarrow>
         w\<lparr>wk_fs := if err = ENAMETOOLONG
                    then (count_skip SCAN_SKIP_PATH_TOO_LONG (wk_fs w))\<lparr>fs_roots_unusable := fs_roots_unusable (wk_fs w) + 1\<rparr>
                    else bad_root err (wk_fs w)\<rparr>
     | Inr path \<Rightarrow>
         (case ra_statx ra of
            Inl err \<Rightarrow> w\<lparr>wk_fs := bad_root err (wk_fs w)\<rparr>
          | Inr st \<Rightarrow>
              (case check_file env path st False (wk_fs w) of
                 (False, s) \<Rightarrow> w\<lparr>wk_fs := s\<rparr>
               | (True, s) \<Rightarrow>
                   let w1 = w\<lparr>wk_roots := wk_roots w @ [path], wk_fs := s\<rparr>;
                       w2 = (if stx_kind st = Reg then fileq_push (ra_alloc ra) path st w1
                             else dirq_push (if ra_alloc ra then Some path else None) w1)
                   in w2\<lparr>wk_fs := (wk_fs w2)\<lparr>fs_roots_seeded := fs_roots_seeded (wk_fs w2) + 1\<rparr>\<rparr>)))"

text \<open>A path is zero-terminated, so reading one past its end gives zero.\<close>

definition path_under_a_root :: "path list \<Rightarrow> path \<Rightarrow> path option" where
  "path_under_a_root roots path =
    find (\<lambda>root. take (length root) path = root
       \<and> (at0 path (length root) = 0 \<or> at0 path (length root) = SLASH \<or> root = [SLASH])) roots"

text \<open>The directories between a root and a file, by the places of the slashes.\<close>

fun reach_loop :: "walk_env \<Rightarrow> (path \<Rightarrow> int + statx) \<Rightarrow> path \<Rightarrow> nat list \<Rightarrow> fs_state \<Rightarrow> bool \<times> fs_state" where
  "reach_loop env statx path [] s = (True, s)"
| "reach_loop env statx path (p # ps) s =
    (if \<not> we_recurse_dirs env then (False, s)
     else case statx (take p path) of
            Inl err \<Rightarrow> (False, s)
          | Inr st \<Rightarrow>
              if stx_kind st \<noteq> Dir then (False, s)
              else case check_file env (take p path) st True s of
                     (False, s1) \<Rightarrow> (False, s1)
                   | (True, s1) \<Rightarrow> reach_loop env statx path ps s1)"

definition walk_would_reach :: "walk_env \<Rightarrow> (path \<Rightarrow> int + statx) \<Rightarrow> path \<Rightarrow> path \<Rightarrow> fs_state \<Rightarrow> bool \<times> fs_state" where
  "walk_would_reach env statx root path s =
    (if path = root then (True, s)
     else reach_loop env statx path (filter (\<lambda>i. path ! i = SLASH) [length root + 1 ..< length path]) s)"

definition seed_checkpointed_file :: "walk_env \<Rightarrow> (path \<Rightarrow> int + statx) \<Rightarrow> path \<Rightarrow> walk \<Rightarrow> walk" where
  "seed_checkpointed_file env statx path w =
    (case path_under_a_root (wk_roots w) path of
       None \<Rightarrow> w
     | Some root \<Rightarrow>
         (case walk_would_reach env statx root path (wk_fs w) of
            (False, s) \<Rightarrow> w\<lparr>wk_fs := s\<rparr>
          | (True, s) \<Rightarrow>
              (case statx path of
                 Inl err \<Rightarrow> w\<lparr>wk_fs := s\<rparr>
               | Inr st \<Rightarrow>
                   if stx_kind st \<noteq> Reg then w\<lparr>wk_fs := s\<rparr>
                   else case check_file env path st True s of
                          (False, s1) \<Rightarrow> w\<lparr>wk_fs := s1\<rparr>
                        | (True, s1) \<Rightarrow> fileq_push True path st (w\<lparr>wk_fs := s1\<rparr>))))"

text \<open>\<open>paths\<close> is what the query gives, \<open>None\<close> when it fails or there is no hashfile.\<close>

definition seed_checkpointed_files :: "walk_env \<Rightarrow> (path \<Rightarrow> int + statx) \<Rightarrow> path list option \<Rightarrow> walk \<Rightarrow> walk" where
  "seed_checkpointed_files env statx paths w =
    (case paths of None \<Rightarrow> w | Some ps \<Rightarrow> fold (seed_checkpointed_file env statx) ps w)"

subsection \<open>The threads\<close>

text \<open>A walker waits for a directory, reads one with the entries still to come, or has ended. The main
  thread queues the roots and the checkpointed files, starts the walkers and gives up its own token,
  and then takes files until it is told to stop.\<close>

datatype walker = Waiting | Reading path "dirent list" "int option" | Ended

datatype main_thread = Seeding "root_answers list" "path list option" | Releasing | Consuming | Finished

definition started :: "main_thread \<Rightarrow> bool" where
  "started m = (case m of Seeding ras ckpts \<Rightarrow> False | _ \<Rightarrow> True)"

text \<open>\<open>wr_abort\<close> is that the run was interrupted or the walk aborted. The last four record what happened: the
  files the main thread took, the directories done with, and the files and directories queued.\<close>

record walk_run =
  wr_walk :: walk
  wr_walkers :: "walker list"
  wr_main :: main_thread
  wr_abort :: bool
  wr_handed :: "(path \<times> statx) list"
  wr_read :: "path list"
  wr_files :: "(path \<times> statx) list"
  wr_dirs :: "path list"

definition items :: "'a item list \<Rightarrow> 'a list" where
  "items q = concat (map (\<lambda>x. case x of Stop \<Rightarrow> [] | Item a \<Rightarrow> [a]) q)"

definition walked :: "walk \<Rightarrow> walk_run \<Rightarrow> walk_run" where
  "walked w r = r\<lparr>wr_walk := w,
     wr_files := wr_files r @ items (drop (length (wk_fileq (wr_walk r))) (wk_fileq w)),
     wr_dirs := wr_dirs r @ items (drop (length (wk_dirq (wr_walk r))) (wk_dirq w))\<rparr>"

definition start_dir :: "bool \<Rightarrow> dir_answers \<Rightarrow> walk \<Rightarrow> dirent list \<times> int option \<times> walk" where
  "start_dir abort da w = (if abort then ([], None, w) else open_dir da w)"

definition walk_start :: "nat \<Rightarrow> fs_state \<Rightarrow> root_answers list \<Rightarrow> path list option \<Rightarrow> walk_run" where
  "walk_start io_threads s roots ckpts =
    (let w = filescan_walk_begin io_threads s
     in \<lparr>wr_walk = w, wr_walkers = replicate (wk_nthreads w) Waiting, wr_main = Seeding roots ckpts, wr_abort = False,
         wr_handed = [], wr_read = [], wr_files = [], wr_dirs = []\<rparr>)"

inductive walk_step :: "walk_env \<Rightarrow> (path \<Rightarrow> dir_answers) \<Rightarrow> (path \<Rightarrow> int + statx) \<Rightarrow> walk_run \<Rightarrow> walk_run \<Rightarrow> bool"
  for env readd statx
where
  SeedRoot: "wr_main r = Seeding (ra # ras) ckpts \<Longrightarrow>
    walk_step env readd statx r ((walked (scan_file env ra (wr_walk r)) r)\<lparr>wr_main := Seeding ras ckpts\<rparr>)"
| SeedCheckpoints: "wr_main r = Seeding [] ckpts \<Longrightarrow>
    walk_step env readd statx r ((walked (seed_checkpointed_files env statx ckpts (wr_walk r)) r)\<lparr>wr_main := Releasing\<rparr>)"
| Release: "wr_main r = Releasing \<Longrightarrow>
    walk_step env readd statx r (r\<lparr>wr_walk := dirq_finished (wr_walk r), wr_main := Consuming\<rparr>)"
| TakeFile: "wr_main r = Consuming \<Longrightarrow> wk_fileq (wr_walk r) = Item f # q \<Longrightarrow>
    walk_step env readd statx r (r\<lparr>wr_walk := (wr_walk r)\<lparr>wk_fileq := q\<rparr>, wr_handed := wr_handed r @ [f]\<rparr>)"
| StopMain: "wr_main r = Consuming \<Longrightarrow> wk_fileq (wr_walk r) = Stop # q \<Longrightarrow>
    walk_step env readd statx r (r\<lparr>wr_walk := (wr_walk r)\<lparr>wk_fileq := q\<rparr>, wr_main := Finished\<rparr>)"
| PopDir: "started (wr_main r) \<Longrightarrow> i < length (wr_walkers r) \<Longrightarrow> wr_walkers r ! i = Waiting \<Longrightarrow>
    wk_dirq (wr_walk r) = Item p # q \<Longrightarrow>
    start_dir (wr_abort r) (readd p) ((wr_walk r)\<lparr>wk_dirq := q\<rparr>) = (es, err, w) \<Longrightarrow>
    walk_step env readd statx r (r\<lparr>wr_walk := w, wr_walkers := (wr_walkers r)[i := Reading p es err]\<rparr>)"
| PopStop: "i < length (wr_walkers r) \<Longrightarrow> wr_walkers r ! i = Waiting \<Longrightarrow> wk_dirq (wr_walk r) = Stop # q \<Longrightarrow>
    walk_step env readd statx r (r\<lparr>wr_walk := (wr_walk r)\<lparr>wk_dirq := q\<rparr>, wr_walkers := (wr_walkers r)[i := Ended]\<rparr>)"
| Entry: "i < length (wr_walkers r) \<Longrightarrow> wr_walkers r ! i = Reading p (e # es) err \<Longrightarrow>
    walk_step env readd statx r
      ((walked (process_entry env p e (wr_walk r)) r)\<lparr>wr_walkers := (wr_walkers r)[i := Reading p es err]\<rparr>)"
| EndDir: "i < length (wr_walkers r) \<Longrightarrow> wr_walkers r ! i = Reading p [] err \<Longrightarrow>
    walk_step env readd statx r (r\<lparr>wr_walk := dirq_finished (end_dir err (wr_walk r)),
      wr_walkers := (wr_walkers r)[i := Waiting], wr_read := wr_read r @ [p]\<rparr>)"
| Abort: "\<not> wr_abort r \<Longrightarrow> walk_step env readd statx r (r\<lparr>wr_abort := True\<rparr>)"

subsection \<open>What a step queues\<close>

lemma items_simps [simp]: "items [] = []" "items (Stop # q) = items q" "items (Item a # q) = a # items q"
  "items (q @ q') = items q @ items q'" "items (map Item as) = as" "items (replicate n Stop) = []"
  by (auto simp: items_def comp_def)

definition pushes :: "walk \<Rightarrow> walk \<Rightarrow> (path \<times> statx) list \<Rightarrow> path list \<Rightarrow> bool" where
  "pushes w w' fs ds \<longleftrightarrow> wk_fileq w' = wk_fileq w @ map Item fs \<and> wk_dirq w' = wk_dirq w @ map Item ds
    \<and> wk_pending w' = wk_pending w + int (length ds) \<and> wk_nthreads w' = wk_nthreads w"

lemma pushes_none: "pushes w (w\<lparr>wk_fs := s\<rparr>) [] []" "pushes w w [] []"
  by (simp_all add: pushes_def)

lemma check_file_kind: "check_file env path st pc s = (True, s') \<Longrightarrow> stx_kind st = Reg \<or> stx_kind st = Dir"
  by (auto simp: check_file_def Let_def split: if_splits)

text \<open>An entry that leads to a directory.\<close>

definition subdir :: "dirent \<Rightarrow> bool" where
  "subdir e \<longleftrightarrow> de_name e \<noteq> [46] \<and> de_name e \<noteq> [46, 46]
    \<and> (case de_statx e of Inl err \<Rightarrow> False | Inr st \<Rightarrow> stx_kind st = Dir)"

text \<open>At most one file or one directory queued, the directory one that \<open>C\<close> allows.\<close>

definition few :: "(path \<Rightarrow> bool) \<Rightarrow> walk \<Rightarrow> walk \<Rightarrow> bool" where
  "few C w w' \<longleftrightarrow> (\<exists>fs ds. pushes w w' fs ds \<and> length fs \<le> 1 \<and> (ds = [] \<or> fs = [] \<and> (\<exists>p. C p \<and> ds = [p])))"

lemma few_intros [simp]:
  "few C w w" "few C w (w\<lparr>wk_fs := s\<rparr>)" "few C w (fileq_push a p st (w\<lparr>wk_fs := s\<rparr>))"
  "C p \<Longrightarrow> few C w (dirq_push (if a then Some p else None) (w\<lparr>wk_fs := s\<rparr>))"
  unfolding few_def pushes_def fileq_push_def dirq_push_def
  by (fastforce intro: exI [of _ "[]"] exI [of _ "[(p, st)]"] exI [of _ "[p]"] split: if_splits)+

lemma few_pushes: "few C w w' \<Longrightarrow> \<exists>fs ds. pushes w w' fs ds"
  unfolding few_def by blast

lemma few_fs: "few C w w1 \<Longrightarrow> few C w (w1\<lparr>wk_fs := s\<rparr>)"
  by (fastforce simp: few_def pushes_def)

lemma few_roots: "few C (w\<lparr>wk_roots := rs\<rparr>) w1 \<Longrightarrow> few C w w1"
  by (fastforce simp: few_def pushes_def)

lemma process_entry_pushes: "few (\<lambda>c. subdir e \<and> c = child_path p (de_name e)) w (process_entry env p e w)"
proof -
  let ?C = "\<lambda>c. subdir e \<and> c = child_path p (de_name e)"
  obtain taken s where t: "(if de_type e \<noteq> DT_UNKNOWN then walk_takes env (de_type e = DT_REG) (de_type e = DT_DIR) (wk_fs w)
                else (True, wk_fs w)) = (taken, s)" by fastforce
  show ?thesis
  proof (cases "de_name e = [46] \<or> de_name e = [46, 46] \<or> \<not> taken \<or> NAME_MAX < length (de_name e)")
    case True
    then show ?thesis unfolding process_entry_def t by auto
  next
    case name: False
    show ?thesis
    proof (cases "de_statx e")
      case (Inl err)
      with name show ?thesis unfolding process_entry_def t by simp
    next
      case st: (Inr st)
      obtain taken1 s1 where t1: "(if de_type e = DT_UNKNOWN then walk_takes env (stx_kind st = Reg) (stx_kind st = Dir) s
                       else (True, s)) = (taken1, s1)" by fastforce
      obtain ok s2 where c: "check_file env (child_path p (de_name e)) st True s1 = (ok, s2)" by fastforce
      have "subdir e" if "ok" "stx_kind st \<noteq> Reg"
        using that name st check_file_kind [of env _ st True s1 s2] c by (simp add: subdir_def)
      then show ?thesis
        using name st c unfolding process_entry_def t by (simp add: t1 Let_def)
    qed
  qed
qed

lemma scan_file_pushes: "few (\<lambda>p. ra_realpath ra = Inr p) w (scan_file env ra w)"
proof (cases "ra_realpath ra")
  case (Inl err)
  then show ?thesis by (simp add: scan_file_def)
next
  case path: (Inr path)
  show ?thesis
  proof (cases "ra_statx ra")
    case (Inl err)
    with path show ?thesis by (simp add: scan_file_def)
  next
    case (Inr st)
    let ?C = "\<lambda>p. ra_realpath ra = Inr p"
    obtain ok s where c: "check_file env path st False (wk_fs w) = (ok, s)" by fastforce
    let ?w1 = "w\<lparr>wk_roots := wk_roots w @ [path]\<rparr>"
    have "few ?C ?w1 (fileq_push a path st (?w1\<lparr>wk_fs := s\<rparr>))" for a by (rule few_intros)
    moreover have "few ?C ?w1 (dirq_push (if a then Some path else None) (?w1\<lparr>wk_fs := s\<rparr>))" for a
      by (rule few_intros) (rule path)
    ultimately have "few ?C ?w1 (if stx_kind st = Reg then fileq_push (ra_alloc ra) path st (?w1\<lparr>wk_fs := s\<rparr>)
        else dirq_push (if ra_alloc ra then Some path else None) (?w1\<lparr>wk_fs := s\<rparr>))"
      by simp
    note q = few_roots [OF this]
    show ?thesis
    proof (cases ok)
      case True
      with c have ct: "check_file env path st False (wk_fs w) = (True, s)" by simp
      from q have q': "few ?C w ((if stx_kind st = Reg then fileq_push (ra_alloc ra) path st (?w1\<lparr>wk_fs := s\<rparr>)
        else dirq_push (if ra_alloc ra then Some path else None) (?w1\<lparr>wk_fs := s\<rparr>))\<lparr>wk_fs := s'\<rparr>)" for s'
        by (rule few_fs)
      show ?thesis
        unfolding scan_file_def Let_def path Inr sum.case ct prod.case bool.case by (rule q' [unfolded path])
    next
      case False
      with path Inr c show ?thesis by (simp add: scan_file_def)
    qed
  qed
qed

lemma seed_checkpointed_file_pushes: "few (\<lambda>p. False) w (seed_checkpointed_file env statx p w)"
  by (simp add: seed_checkpointed_file_def split: option.split sum.split prod.split bool.split)

lemma few_file: "few (\<lambda>p. False) w w' \<Longrightarrow> \<exists>fs. pushes w w' fs [] \<and> length fs \<le> 1"
  by (auto simp: few_def)

lemma pushes_trans: "pushes w w1 fs ds \<Longrightarrow> pushes w1 w2 fs' ds' \<Longrightarrow> pushes w w2 (fs @ fs') (ds @ ds')"
  by (simp add: pushes_def)

lemma seed_checkpointed_files_pushes:
  "\<exists>fs. pushes w (seed_checkpointed_files env statx ckpts w) fs [] \<and> length fs \<le> (case ckpts of None \<Rightarrow> 0 | Some ps \<Rightarrow> length ps)"
proof (cases ckpts)
  case None
  then show ?thesis using pushes_none(2) by (fastforce simp: seed_checkpointed_files_def)
next
  case (Some ps)
  have "\<exists>fs. pushes w (fold (seed_checkpointed_file env statx) ps w) fs [] \<and> length fs \<le> length ps"
  proof (induction ps arbitrary: w)
    case Nil
    then show ?case using pushes_none(2) by fastforce
  next
    case (Cons p ps)
    obtain fs where "pushes w (seed_checkpointed_file env statx p w) fs []" "length fs \<le> 1"
      using few_file [OF seed_checkpointed_file_pushes] by blast
    moreover obtain fs' where "pushes (seed_checkpointed_file env statx p w)
        (fold (seed_checkpointed_file env statx) ps (seed_checkpointed_file env statx p w)) fs' []" "length fs' \<le> length ps"
      using Cons by blast
    ultimately show ?case using pushes_trans by (intro exI [of _ "fs @ fs'"]) fastforce
  qed
  with Some show ?thesis by (simp add: seed_checkpointed_files_def)
qed

subsection \<open>Nothing queued is lost or taken twice\<close>

definition readp :: "walker \<Rightarrow> path list" where
  "readp x = (case x of Reading p es err \<Rightarrow> [p] | _ \<Rightarrow> [])"

definition reading :: "walker list \<Rightarrow> path list" where
  "reading ws = concat (map readp ws)"

lemma readp_simps [simp]: "readp Waiting = []" "readp Ended = []" "readp (Reading p es err) = [p]"
  by (simp_all add: readp_def)

lemma reading_update:
  "i < length ws \<Longrightarrow> mset (reading (ws[i := x])) + mset (readp (ws ! i)) = mset (reading ws) + mset (readp x)"
  using mset_concat_update [of i "map readp ws" "readp x"] by (simp add: reading_def map_update)

lemma reading_nth: "i < length ws \<Longrightarrow> ws ! i = Reading p es err \<Longrightarrow> p \<in> set (reading ws)"
proof -
  assume "i < length ws" "ws ! i = Reading p es err"
  then have "Reading p es err \<in> set ws" by (metis nth_mem)
  then show ?thesis by (auto simp: reading_def intro: bexI [of _ "Reading p es err"])
qed

lemma map_items: "Stop \<notin> set q \<Longrightarrow> map Item (items q) = q"
proof (induction q)
  case (Cons x q)
  then show ?case by (cases x) auto
qed simp

definition token :: "main_thread \<Rightarrow> nat" where
  "token m = (case m of Consuming \<Rightarrow> 0 | Finished \<Rightarrow> 0 | _ \<Rightarrow> 1)"

definition walk_open :: "walk_run \<Rightarrow> bool" where
  "walk_open r \<longleftrightarrow> wk_pending (wr_walk r) = int (token (wr_main r) + length (items (wk_dirq (wr_walk r))) + length (reading (wr_walkers r)))
    \<and> Stop \<notin> set (wk_dirq (wr_walk r)) \<and> Stop \<notin> set (wk_fileq (wr_walk r)) \<and> Ended \<notin> set (wr_walkers r)
    \<and> wr_main r \<noteq> Finished"

definition walk_closed :: "walk_run \<Rightarrow> bool" where
  "walk_closed r \<longleftrightarrow> wk_pending (wr_walk r) = 0 \<and> reading (wr_walkers r) = []
    \<and> wk_dirq (wr_walk r) = replicate (count_list (wr_walkers r) Waiting) Stop
    \<and> (wr_main r = Consuming \<and> wk_fileq (wr_walk r) = map Item (items (wk_fileq (wr_walk r))) @ [Stop]
       \<or> wr_main r = Finished \<and> wk_fileq (wr_walk r) = [])"

definition walk_inv :: "walk_run \<Rightarrow> bool" where
  "walk_inv r \<longleftrightarrow> length (wr_walkers r) = wk_nthreads (wr_walk r) \<and> 0 < wk_nthreads (wr_walk r)
    \<and> wr_files r = wr_handed r @ items (wk_fileq (wr_walk r))
    \<and> mset (wr_dirs r) = mset (wr_read r) + mset (items (wk_dirq (wr_walk r))) + mset (reading (wr_walkers r))
    \<and> (if 0 < wk_pending (wr_walk r) then walk_open r else walk_closed r)"

lemma walk_inv_start: "walk_inv (walk_start n s roots ckpts)"
  by (auto simp: walk_inv_def walk_start_def filescan_walk_begin_def Let_def walk_open_def reading_def token_def)

lemma pushes_inv:
  assumes inv: "walk_inv r" and p: "pushes (wr_walk r) w fs ds" and open_: "0 < wk_pending (wr_walk r)"
  shows "walk_inv (walked w r)" "0 < wk_pending w"
  using inv p open_ by (auto simp: walk_inv_def walked_def pushes_def walk_open_def)

lemma same_readers:
  assumes "walk_inv r" "i < length (wr_walkers r)" "wr_walkers r ! i = Reading p es err"
  shows "walk_inv (r\<lparr>wr_walkers := (wr_walkers r)[i := Reading p es' err']\<rparr>)" "0 < wk_pending (wr_walk r)"
proof -
  have "readp (wr_walkers r ! i) = readp (Reading p es' err')" using assms(3) by simp
  then have same: "map readp ((wr_walkers r)[i := Reading p es' err']) = map readp (wr_walkers r)"
    by (metis list_update_id map_update)
  have "reading (wr_walkers r) \<noteq> []" using reading_nth [OF assms(2,3)] by auto
  then show pos: "0 < wk_pending (wr_walk r)"
    using assms(1) by (auto simp: walk_inv_def walk_closed_def split: if_splits)
  have "Ended \<notin> set ((wr_walkers r)[i := Reading p es' err'])" if "Ended \<notin> set (wr_walkers r)"
    using that set_update_subset_insert [of "wr_walkers r" i "Reading p es' err'"] by auto
  with pos assms(1) same show "walk_inv (r\<lparr>wr_walkers := (wr_walkers r)[i := Reading p es' err']\<rparr>)"
    by (auto simp: walk_inv_def walk_open_def reading_def)
qed

text \<open>Giving up a token: the last one closes the walk.\<close>

lemma finished_inv:
  assumes len: "length ws = wk_nthreads w" "0 < wk_nthreads w"
    and files: "files = handed @ items (wk_fileq w)"
    and dirs: "mset dirs = mset rd + mset (items (wk_dirq w)) + mset (reading ws)"
    and main: "m = Consuming \<or> m = Releasing \<or> (\<exists>ras ckpts. m = Seeding ras ckpts)"
    and pend: "wk_pending w = int (token m + length (items (wk_dirq w)) + length (reading ws)) + 1"
    and stops: "Stop \<notin> set (wk_dirq w)" "Stop \<notin> set (wk_fileq w)" "Ended \<notin> set ws"
  shows "walk_inv \<lparr>wr_walk = dirq_finished w, wr_walkers = ws, wr_main = m, wr_abort = ab, wr_handed = handed,
    wr_read = rd, wr_files = files, wr_dirs = dirs\<rparr>"
proof (cases "wk_pending w = 1")
  case False
  with assms show ?thesis by (auto simp: walk_inv_def dirq_finished_def Let_def walk_open_def)
next
  case True
  then have "token m + length (items (wk_dirq w)) + length (reading ws) = 0" using pend by linarith
  then have z: "token m = 0" "items (wk_dirq w) = []" "reading ws = []" by simp_all
  have "wk_dirq w = []"
  proof (cases "wk_dirq w")
    case (Cons x q)
    with z(2) stops(1) show ?thesis by (cases x) auto
  qed simp
  moreover have "\<forall>x \<in> set ws. x = Waiting"
  proof
    fix x assume "x \<in> set ws"
    with z(3) stops(3) show "x = Waiting" by (cases x) (auto simp: reading_def)
  qed
  then have "count_list ws Waiting = length ws" by (induction ws) auto
  moreover have "m = Consuming" using z(1) main by (auto simp: token_def)
  ultimately show ?thesis
    using True len files dirs z stops(2) map_items [OF stops(2)]
    by (simp add: walk_inv_def dirq_finished_def Let_def walk_closed_def dirq_stop_walkers_def)
qed

lemma waiting_readers:
  assumes inv: "walk_inv r" and i: "i < length (wr_walkers r)" "wr_walkers r ! i = Waiting"
  shows "mset (reading ((wr_walkers r)[i := Reading p es err])) = add_mset p (mset (reading (wr_walkers r)))"
    "mset (reading ((wr_walkers r)[i := Ended])) = mset (reading (wr_walkers r))"
  using reading_update [OF i(1), of "Reading p es err"] reading_update [OF i(1), of Ended] i(2) by simp_all

lemma count_list_update:
  "i < length ws \<Longrightarrow> count_list (ws[i := x]) y + (if ws ! i = y then 1 else 0) = count_list ws y + (if x = y then 1 else 0)"
proof (induction ws arbitrary: i)
  case (Cons z ws)
  show ?case
  proof (cases i)
    case 0
    then show ?thesis by simp
  next
    case (Suc j)
    with Cons.IH [of j] Cons.prems show ?thesis by auto
  qed
qed simp

lemma walk_step_inv:
  assumes "walk_step env readd statx r r'" "walk_inv r"
  shows "walk_inv r'"
  using assms
proof (cases rule: walk_step.cases)
  case (SeedRoot ra ras ckpts)
  obtain fs ds where p: "pushes (wr_walk r) (scan_file env ra (wr_walk r)) fs ds"
    using few_pushes [OF scan_file_pushes] by blast
  have "0 < wk_pending (wr_walk r)" using SeedRoot assms(2) by (auto simp: walk_inv_def walk_closed_def split: if_splits)
  from pushes_inv [OF assms(2) p this] SeedRoot show ?thesis
    by (auto simp: walk_inv_def walk_open_def walked_def token_def)
next
  case (SeedCheckpoints ckpts)
  obtain fs where p: "pushes (wr_walk r) (seed_checkpointed_files env statx ckpts (wr_walk r)) fs []"
    using seed_checkpointed_files_pushes by blast
  have "0 < wk_pending (wr_walk r)"
    using SeedCheckpoints assms(2) by (auto simp: walk_inv_def walk_closed_def split: if_splits)
  from pushes_inv [OF assms(2) p this] SeedCheckpoints show ?thesis
    by (auto simp: walk_inv_def walk_open_def walked_def token_def)
next
  case Release
  have pos: "0 < wk_pending (wr_walk r)" using Release assms(2) by (auto simp: walk_inv_def walk_closed_def split: if_splits)
  obtain w ws ab h rd fl dr where r: "r = \<lparr>wr_walk = w, wr_walkers = ws, wr_main = Releasing, wr_abort = ab,
    wr_handed = h, wr_read = rd, wr_files = fl, wr_dirs = dr\<rparr>" using Release by (cases r) auto
  show ?thesis
    using assms(2) pos unfolding Release r
    by simp (rule finished_inv; auto simp: walk_inv_def walk_open_def token_def)
next
  case (TakeFile f q)
  with assms(2) show ?thesis
    by (auto simp: walk_inv_def walk_open_def walk_closed_def split: if_splits)
next
  case (StopMain q)
  with assms(2) show ?thesis
    by (cases "items q") (auto simp: walk_inv_def walk_open_def walk_closed_def split: if_splits)
next
  case (PopDir i p q es err w)
  have "wk_dirq (wr_walk r) \<noteq> replicate n Stop" for n using PopDir(5) by (cases n) auto
  then have pos: "0 < wk_pending (wr_walk r)"
    using assms(2) by (auto simp: walk_inv_def walk_closed_def split: if_splits)
  have w: "wk_dirq w = q" "wk_fileq w = wk_fileq (wr_walk r)" "wk_pending w = wk_pending (wr_walk r)"
    "wk_nthreads w = wk_nthreads (wr_walk r)"
    using PopDir(6) by (auto simp: start_dir_def open_dir_def split: if_splits option.splits)
  note rd = waiting_readers(1) [OF assms(2) PopDir(3,4), of p es err]
  have "length (reading ((wr_walkers r)[i := Reading p es err])) = length (reading (wr_walkers r)) + 1"
    using arg_cong [OF rd, of size] by simp
  with assms(2) pos w rd PopDir show ?thesis
    by (auto simp: walk_inv_def walk_open_def dest: set_update_subset_insert [THEN subsetD])
next
  case (PopStop i q)
  note rd = waiting_readers(2) [OF assms(2) PopStop(2,3)]
  have "\<not> 0 < wk_pending (wr_walk r)" using PopStop assms(2) by (auto simp: walk_inv_def walk_open_def)
  moreover have "count_list ((wr_walkers r)[i := Ended]) Waiting + 1 = count_list (wr_walkers r) Waiting"
    using count_list_update [OF PopStop(2), of Ended Waiting] PopStop(3) by simp
  ultimately show ?thesis
    using assms(2) rd PopStop by (auto simp: walk_inv_def walk_closed_def replicate_Suc [symmetric] Cons_replicate_eq)
next
  case (Entry i p e es err)
  obtain fs ds where p: "pushes (wr_walk r) (process_entry env p e (wr_walk r)) fs ds"
    using few_pushes [OF process_entry_pushes] by blast
  note sr = same_readers(1) [OF assms(2) Entry(2,3), of es err] same_readers(2) [OF assms(2) Entry(2,3)]
  from pushes_inv(1) [OF sr(1), of "process_entry env p e (wr_walk r)" fs ds] p sr(2) Entry(1) show ?thesis
    by (cases r) (simp add: walked_def)
next
  case (EndDir i p err)
  have "reading (wr_walkers r) \<noteq> []" using reading_nth [OF EndDir(2,3)] by auto
  then have pos: "0 < wk_pending (wr_walk r)" using assms(2) by (auto simp: walk_inv_def walk_closed_def split: if_splits)
  have rd: "add_mset p (mset (reading ((wr_walkers r)[i := Waiting]))) = mset (reading (wr_walkers r))"
    using reading_update [OF EndDir(2), of Waiting] EndDir(3) by simp
  have len: "length (reading (wr_walkers r)) = length (reading ((wr_walkers r)[i := Waiting])) + 1"
    using arg_cong [OF rd, of size] by simp
  have w: "wk_dirq (end_dir err w) = wk_dirq w" "wk_fileq (end_dir err w) = wk_fileq w"
    "wk_pending (end_dir err w) = wk_pending w" "wk_nthreads (end_dir err w) = wk_nthreads w" for w
    by (simp_all add: end_dir_def split: option.split)
  obtain w ws m ab h rd' fl dr where r: "r = \<lparr>wr_walk = w, wr_walkers = ws, wr_main = m, wr_abort = ab,
    wr_handed = h, wr_read = rd', wr_files = fl, wr_dirs = dr\<rparr>" by (cases r)
  have "Ended \<notin> set (ws[i := Waiting])" if "Ended \<notin> set ws"
    using that set_update_subset_insert [of ws i Waiting] by auto
  then show ?thesis
    using assms(2) pos rd len unfolding EndDir r
    by simp (rule finished_inv; auto simp: walk_inv_def walk_open_def w token_def split: main_thread.splits)
next
  case Abort
  with assms(2) show ?thesis by (auto simp: walk_inv_def walk_open_def walk_closed_def)
qed

lemma walk_steps_inv: "(walk_step env readd statx)\<^sup>*\<^sup>* r r' \<Longrightarrow> walk_inv r \<Longrightarrow> walk_inv r'"
  by (induction rule: rtranclp_induct) (auto intro: walk_step_inv)

text \<open>C3: In any interleaving of the walkers, interrupted or not, the main thread takes the files in the order
  they were queued; and when it is told to stop it has had every file ever queued, every directory queued
  has been read once and done with, no walker holds one, and each walker not yet ended has its own
  word to stop waiting, so nothing is queued after that.\<close>

theorem walk_hands_over_all:
  assumes "(walk_step env readd statx)\<^sup>*\<^sup>* (walk_start n s roots ckpts) r"
  shows "(\<exists>rest. wr_files r = wr_handed r @ rest)
    \<and> (if wr_main r = Finished
       then wr_files r = wr_handed r \<and> mset (wr_dirs r) = mset (wr_read r) \<and> wk_fileq (wr_walk r) = []
         \<and> (\<forall>x \<in> set (wr_walkers r). x = Waiting \<or> x = Ended)
         \<and> wk_dirq (wr_walk r) = replicate (count_list (wr_walkers r) Waiting) Stop
       else True)"
proof -
  have inv: "walk_inv r" using walk_steps_inv [OF assms walk_inv_start] .
  have "x = Waiting \<or> x = Ended" if "x \<in> set (wr_walkers r)" "reading (wr_walkers r) = []" for x
  proof -
    have "readp x = []" using that by (simp add: reading_def)
    then show ?thesis by (cases x) auto
  qed
  with inv show ?thesis by (auto simp: walk_inv_def walk_open_def walk_closed_def split: if_splits)
qed

subsection \<open>The walk ends\<close>

text \<open>A tree no deeper than \<open>n\<close> below \<open>p\<close>, and a bound on the steps it takes to read it.\<close>

fun fits :: "(path \<Rightarrow> dir_answers) \<Rightarrow> nat \<Rightarrow> path \<Rightarrow> bool" where
  "fits readd 0 p = False"
| "fits readd (Suc n) p = list_all (\<lambda>e. subdir e \<longrightarrow> fits readd n (child_path p (de_name e))) (da_entries (readd p))"

fun dir_cost :: "(path \<Rightarrow> dir_answers) \<Rightarrow> nat \<Rightarrow> path \<Rightarrow> nat" where
  "dir_cost readd 0 p = 0"
| "dir_cost readd (Suc n) p =
    2 + sum_list (map (\<lambda>e. 2 + (if subdir e then dir_cost readd n (child_path p (de_name e)) else 0)) (da_entries (readd p)))"

lemma fits_cost:
  "fits readd n p \<Longrightarrow> n \<le> m \<Longrightarrow> fits readd m p \<and> dir_cost readd m p = dir_cost readd n p"
proof (induction n arbitrary: m p)
  case (Suc n)
  then obtain k where k: "m = Suc k" "n \<le> k" by (cases m) auto
  have kids: "fits readd k (child_path p (de_name e)) \<and> dir_cost readd k (child_path p (de_name e)) = dir_cost readd n (child_path p (de_name e))"
    if "e \<in> set (da_entries (readd p))" "subdir e" for e
    using Suc.prems(1) that by (intro Suc.IH k(2)) (simp add: list_all_iff)
  then have "fits readd m p" by (simp add: k list_all_iff)
  moreover have "dir_cost readd m p = dir_cost readd (Suc n) p"
    unfolding k(1) dir_cost.simps by (intro arg_cong [of _ _ sum_list] arg_cong2 [of _ _ _ _ "(+)"] map_cong) (auto simp: kids)
  ultimately show ?case by simp
qed simp

definition entries_cost :: "(path \<Rightarrow> dir_answers) \<Rightarrow> nat \<Rightarrow> path \<Rightarrow> dirent list \<Rightarrow> nat" where
  "entries_cost readd n p es = sum_list (map (\<lambda>e. 2 + (if subdir e then dir_cost readd n (child_path p (de_name e)) else 0)) es)"

definition entries_fit :: "(path \<Rightarrow> dir_answers) \<Rightarrow> nat \<Rightarrow> path \<Rightarrow> dirent list \<Rightarrow> bool" where
  "entries_fit readd n p es \<longleftrightarrow> (\<forall>e \<in> set es. subdir e \<longrightarrow> fits readd n (child_path p (de_name e)))"

lemma fits_entries:
  assumes "fits readd n p"
  shows "entries_fit readd n p (da_entries (readd p))" "dir_cost readd n p = 2 + entries_cost readd n p (da_entries (readd p))"
proof -
  obtain k where k: "n = Suc k" using assms by (cases n) auto
  have up: "fits readd n (child_path p (de_name e)) \<and> dir_cost readd n (child_path p (de_name e)) = dir_cost readd k (child_path p (de_name e))"
    if "e \<in> set (da_entries (readd p))" "subdir e" for e
    using fits_cost [of readd k "child_path p (de_name e)" n] assms that k by (auto simp: list_all_iff)
  then show "entries_fit readd n p (da_entries (readd p))" by (simp add: entries_fit_def)
  have "entries_cost readd n p (da_entries (readd p))
      = sum_list (map (\<lambda>e. 2 + (if subdir e then dir_cost readd k (child_path p (de_name e)) else 0)) (da_entries (readd p)))"
    unfolding entries_cost_def by (intro arg_cong [of _ _ sum_list] map_cong) (auto simp: up)
  then show "dir_cost readd n p = 2 + entries_cost readd n p (da_entries (readd p))" by (simp add: k)
qed

definition walker_cost :: "(path \<Rightarrow> dir_answers) \<Rightarrow> nat \<Rightarrow> walker \<Rightarrow> nat" where
  "walker_cost readd n x = (case x of Reading p es err \<Rightarrow> 1 + entries_cost readd n p es | _ \<Rightarrow> 0)"

definition walker_fits :: "(path \<Rightarrow> dir_answers) \<Rightarrow> nat \<Rightarrow> walker \<Rightarrow> bool" where
  "walker_fits readd n x = (case x of Reading p es err \<Rightarrow> entries_fit readd n p es | _ \<Rightarrow> True)"

definition root_cost :: "(path \<Rightarrow> dir_answers) \<Rightarrow> nat \<Rightarrow> root_answers \<Rightarrow> nat" where
  "root_cost readd n ra = 2 + (case ra_realpath ra of Inl err \<Rightarrow> 0 | Inr p \<Rightarrow> dir_cost readd n p)"

definition main_cost :: "(path \<Rightarrow> dir_answers) \<Rightarrow> nat \<Rightarrow> main_thread \<Rightarrow> nat" where
  "main_cost readd n m =
    (case m of
       Seeding ras ckpts \<Rightarrow> sum_list (map (root_cost readd n) ras) + (case ckpts of None \<Rightarrow> 0 | Some ps \<Rightarrow> length ps) + 2
     | Releasing \<Rightarrow> 1 | _ \<Rightarrow> 0)"

definition main_fits :: "(path \<Rightarrow> dir_answers) \<Rightarrow> nat \<Rightarrow> main_thread \<Rightarrow> bool" where
  "main_fits readd n m =
    (case m of
       Seeding ras ckpts \<Rightarrow> (\<forall>ra \<in> set ras. \<forall>p. ra_realpath ra = Inr p \<longrightarrow> fits readd n p)
     | _ \<Rightarrow> True)"

definition walk_fits :: "(path \<Rightarrow> dir_answers) \<Rightarrow> nat \<Rightarrow> walk_run \<Rightarrow> bool" where
  "walk_fits readd n r \<longleftrightarrow> (\<forall>d \<in> set (items (wk_dirq (wr_walk r))). fits readd n d)
    \<and> (\<forall>x \<in> set (wr_walkers r). walker_fits readd n x) \<and> main_fits readd n (wr_main r)"

definition walk_measure :: "(path \<Rightarrow> dir_answers) \<Rightarrow> nat \<Rightarrow> walk_run \<Rightarrow> nat" where
  "walk_measure readd n r =
    sum_list (map (dir_cost readd n) (items (wk_dirq (wr_walk r)))) + count_list (wk_dirq (wr_walk r)) Stop
    + length (wk_fileq (wr_walk r)) + sum_list (map (walker_cost readd n) (wr_walkers r))
    + (if 0 < wk_pending (wr_walk r) then wk_nthreads (wr_walk r) + 1 else 0)
    + main_cost readd n (wr_main r) + (if wr_abort r then 0 else 1)"

lemma sum_list_update_nat:
  "i < length xs \<Longrightarrow> sum_list (map f (xs[i := x])) + f (xs ! i) = sum_list (map f xs) + (f x :: nat)"
proof (induction xs arbitrary: i)
  case (Cons y ys)
  show ?case
  proof (cases i)
    case (Suc j)
    with Cons.IH [of j] Cons.prems show ?thesis by simp
  qed simp
qed simp

lemma walkers_cost:
  assumes "i < length ws" "ws ! i = y"
  shows "sum_list (map (walker_cost readd n) (ws[i := x])) + walker_cost readd n y
    = sum_list (map (walker_cost readd n) ws) + walker_cost readd n x"
  using sum_list_update_nat [OF assms(1), of "walker_cost readd n" x] assms(2) by simp

lemma walkers_fit: "(\<forall>x \<in> set ws. walker_fits readd n x) \<Longrightarrow> walker_fits readd n y \<Longrightarrow> \<forall>x \<in> set (ws[i := y]). walker_fits readd n x"
  using set_update_subset_insert [of ws i y] by auto

lemma count_list_map_Item [simp]: "count_list (map Item xs) Stop = 0"
  by (induction xs) auto

lemma count_list_append: "count_list (xs @ ys) x = count_list xs x + count_list ys x"
  by (induction xs) auto

lemma count_list_replicate [simp]: "count_list (replicate k x) x = k"
  by (induction k) auto

lemma finish_measure:
  "count_list (wk_dirq (dirq_finished w)) Stop + length (wk_fileq (dirq_finished w))
    + (if 0 < wk_pending (dirq_finished w) then wk_nthreads w + 1 else 0)
    \<le> count_list (wk_dirq w) Stop + length (wk_fileq w) + (if 0 < wk_pending w then wk_nthreads w + 1 else 0)
   \<and> items (wk_dirq (dirq_finished w)) = items (wk_dirq w) \<and> wk_nthreads (dirq_finished w) = wk_nthreads w"
  by (auto simp: dirq_finished_def Let_def dirq_stop_walkers_def count_list_append)

lemma walk_step_measure:
  assumes "walk_step env readd statx r r'" "walk_inv r" "walk_fits readd n r"
  shows "walk_fits readd n r' \<and> walk_measure readd n r' < walk_measure readd n r"
  using assms(1)
proof (cases rule: walk_step.cases)
  case (SeedRoot ra ras ckpts)
  obtain fs ds where p: "pushes (wr_walk r) (scan_file env ra (wr_walk r)) fs ds" "length fs \<le> 1"
    "ds = [] \<or> fs = [] \<and> (\<exists>p. ra_realpath ra = Inr p \<and> ds = [p])"
    using scan_file_pushes [of ra "wr_walk r" env] unfolding few_def by blast
  have fit: "\<forall>d \<in> set ds. fits readd n d" using p(3) assms(3) SeedRoot by (auto simp: walk_fits_def main_fits_def)
  have "length fs + sum_list (map (dir_cost readd n) ds) < root_cost readd n ra"
    using p(2,3) by (auto simp: root_cost_def)
  moreover have "0 < wk_pending (wr_walk r)"
    using SeedRoot assms(2) by (auto simp: walk_inv_def walk_closed_def split: if_splits)
  ultimately show ?thesis
    using p(1) fit assms(3) SeedRoot
    by (auto simp: walk_measure_def walk_fits_def pushes_def walked_def main_cost_def main_fits_def count_list_append split: if_splits)
next
  case (SeedCheckpoints ckpts)
  obtain fs where p: "pushes (wr_walk r) (seed_checkpointed_files env statx ckpts (wr_walk r)) fs []"
    "length fs \<le> (case ckpts of None \<Rightarrow> 0 | Some ps \<Rightarrow> length ps)"
    using seed_checkpointed_files_pushes by blast
  with assms(3) SeedCheckpoints show ?thesis
    by (auto simp: walk_measure_def walk_fits_def pushes_def walked_def main_cost_def main_fits_def)
next
  case Release
  with assms(3) finish_measure [of "wr_walk r"] show ?thesis
    by (auto simp: walk_measure_def walk_fits_def main_cost_def main_fits_def split: if_splits)
next
  case (TakeFile f q)
  with assms(3) show ?thesis by (auto simp: walk_measure_def walk_fits_def)
next
  case (StopMain q)
  with assms(3) show ?thesis by (auto simp: walk_measure_def walk_fits_def main_cost_def main_fits_def)
next
  case (PopDir i p q es err w)
  have w: "wk_dirq w = q" "wk_fileq w = wk_fileq (wr_walk r)" "wk_pending w = wk_pending (wr_walk r)"
    "wk_nthreads w = wk_nthreads (wr_walk r)" "es = [] \<or> es = da_entries (readd p)"
    using PopDir(6) by (auto simp: start_dir_def open_dir_def split: if_splits option.splits)
  have "fits readd n p" using assms(3) PopDir by (simp add: walk_fits_def)
  from fits_entries [OF this] w(5) have "walker_fits readd n (Reading p es err)"
    "walker_cost readd n (Reading p es err) < dir_cost readd n p"
    by (auto simp: walker_fits_def walker_cost_def entries_fit_def entries_cost_def)
  with assms(3) PopDir w walkers_cost [OF PopDir(3,4), of readd n "Reading p es err"]
    walkers_fit [of "wr_walkers r" readd n "Reading p es err" i] show ?thesis
    by (auto simp: walk_measure_def walk_fits_def walker_cost_def)
next
  case (PopStop i q)
  with assms(3) walkers_cost [OF PopStop(2,3), of readd n Ended] walkers_fit [of "wr_walkers r" readd n Ended i] show ?thesis
    by (auto simp: walk_measure_def walk_fits_def walker_cost_def walker_fits_def)
next
  case (Entry i p e es err)
  obtain fs ds where p: "pushes (wr_walk r) (process_entry env p e (wr_walk r)) fs ds" "length fs \<le> 1"
    "ds = [] \<or> fs = [] \<and> subdir e \<and> ds = [child_path p (de_name e)]"
    using process_entry_pushes [of e p "wr_walk r" env] unfolding few_def by auto
  have "walker_fits readd n (Reading p (e # es) err)" using assms(3) Entry(2,3) by (auto simp: walk_fits_def) (metis nth_mem)
  then have fit: "\<forall>d \<in> set ds. fits readd n d" "walker_fits readd n (Reading p es err)"
    using p(3) by (auto simp: walker_fits_def entries_fit_def)
  have "length fs + sum_list (map (dir_cost readd n) ds) + walker_cost readd n (Reading p es err)
      < walker_cost readd n (Reading p (e # es) err)"
    using p(2,3) by (auto simp: walker_cost_def entries_cost_def)
  with p(1) fit assms(3) Entry walkers_cost [OF Entry(2,3), of readd n "Reading p es err"]
    walkers_fit [of "wr_walkers r" readd n "Reading p es err" i]
    same_readers(2) [OF assms(2) Entry(2,3)] show ?thesis
    by (auto simp: walk_measure_def walk_fits_def pushes_def walked_def count_list_append)
next
  case (EndDir i p err)
  have w: "wk_dirq (end_dir err w) = wk_dirq w" "wk_fileq (end_dir err w) = wk_fileq w"
    "wk_pending (end_dir err w) = wk_pending w" "wk_nthreads (end_dir err w) = wk_nthreads w" for w
    by (simp_all add: end_dir_def split: option.split)
  with assms(3) EndDir walkers_cost [OF EndDir(2,3), of readd n Waiting] walkers_fit [of "wr_walkers r" readd n Waiting i]
    finish_measure [of "end_dir err (wr_walk r)"] show ?thesis
    by (auto simp: walk_measure_def walk_fits_def walker_cost_def walker_fits_def split: if_splits)
next
  case Abort
  with assms(3) show ?thesis by (auto simp: walk_measure_def walk_fits_def)
qed

text \<open>Whoever waits is waited for by someone who can go on.\<close>

lemma walk_never_stuck:
  assumes inv: "walk_inv r" and stuck: "\<nexists>r'. walk_step env readd statx r r'"
  shows "wr_main r = Finished \<and> (\<forall>x \<in> set (wr_walkers r). x = Ended)"
proof -
  have not_reading: "x = Waiting \<or> x = Ended" if "x \<in> set (wr_walkers r)" for x
  proof (rule ccontr)
    assume "\<not> (x = Waiting \<or> x = Ended)"
    then obtain p es err where "x = Reading p es err" by (cases x) auto
    with that obtain i where i: "i < length (wr_walkers r)" "wr_walkers r ! i = Reading p es err"
      by (metis in_set_conv_nth)
    show False
    proof (cases es)
      case Nil
      with i stuck EndDir show False by blast
    next
      case (Cons e es')
      with i stuck Entry show False by blast
    qed
  qed
  then have reading: "reading (wr_walkers r) = []" by (fastforce simp: reading_def)
  have main: "wr_main r = Consuming \<or> wr_main r = Finished"
  proof (cases "wr_main r")
    case (Seeding ras ckpts)
    with stuck SeedRoot SeedCheckpoints show ?thesis by (cases ras) blast+
  next
    case Releasing
    with stuck Release show ?thesis by blast
  qed simp_all
  have fin: "wr_main r = Finished"
  proof (rule ccontr)
    assume "wr_main r \<noteq> Finished"
    with main have c: "wr_main r = Consuming" by simp
    have empty: "wk_fileq (wr_walk r) = []"
    proof (cases "wk_fileq (wr_walk r)")
      case (Cons x q)
      with c stuck TakeFile StopMain show ?thesis by (cases x) blast+
    qed
    then have o: "walk_open r" "0 < wk_pending (wr_walk r)" "0 < length (wr_walkers r)"
      using inv c by (auto simp: walk_inv_def walk_closed_def split: if_splits)
    then have "items (wk_dirq (wr_walk r)) \<noteq> []" using reading c by (auto simp: walk_open_def token_def)
    then obtain p q where d: "wk_dirq (wr_walk r) = Item p # q"
      using o(1) by (cases "wk_dirq (wr_walk r)") (auto simp: walk_open_def split: item.splits, metis item.exhaust)
    have in_ws: "wr_walkers r ! 0 \<in> set (wr_walkers r)" using o(3) by (rule nth_mem)
    moreover have "Ended \<notin> set (wr_walkers r)" using o(1) by (simp add: walk_open_def)
    ultimately have "wr_walkers r ! 0 = Waiting" using not_reading [OF in_ws] by auto
    moreover obtain es err w where "start_dir (wr_abort r) (readd p) ((wr_walk r)\<lparr>wk_dirq := q\<rparr>) = (es, err, w)"
      by (cases "start_dir (wr_abort r) (readd p) ((wr_walk r)\<lparr>wk_dirq := q\<rparr>)")
    moreover have "started (wr_main r)" using c by (simp add: started_def)
    ultimately have "walk_step env readd statx r (r\<lparr>wr_walk := w, wr_walkers := (wr_walkers r)[0 := Reading p es err]\<rparr>)"
      using o(3) d by (intro PopDir) auto
    with stuck show False by blast
  qed
  have "x = Ended" if x: "x \<in> set (wr_walkers r)" for x
  proof (rule ccontr)
    assume "x \<noteq> Ended"
    with not_reading [OF x] x obtain i where i: "i < length (wr_walkers r)" "wr_walkers r ! i = Waiting"
      by (auto simp: in_set_conv_nth)
    then have "count_list (wr_walkers r) Waiting \<noteq> 0" by (metis count_list_0_iff nth_mem)
    moreover have "wk_dirq (wr_walk r) = replicate (count_list (wr_walkers r) Waiting) Stop"
      using inv fin by (auto simp: walk_inv_def walk_open_def walk_closed_def split: if_splits)
    ultimately obtain q where "wk_dirq (wr_walk r) = Stop # q" by (cases "count_list (wr_walkers r) Waiting") auto
    with PopStop [OF i this] stuck show False by blast
  qed
  with fin show ?thesis by blast
qed

lemma walk_steps_measure:
  "(walk_step env readd statx ^^ k) r r' \<Longrightarrow> walk_inv r \<Longrightarrow> walk_fits readd n r \<Longrightarrow>
    walk_inv r' \<and> walk_measure readd n r' + k \<le> walk_measure readd n r"
proof (induction k arbitrary: r)
  case (Suc k)
  then obtain r1 where r1: "walk_step env readd statx r r1" "(walk_step env readd statx ^^ k) r1 r'"
    by (meson relpowp_Suc_D2)
  from walk_step_measure [OF r1(1) Suc.prems(2,3)] have "walk_fits readd n r1" "walk_measure readd n r1 < walk_measure readd n r"
    by simp_all
  with Suc.IH [OF r1(2) walk_step_inv [OF r1(1) Suc.prems(2)]] show ?case by simp
qed simp

lemma walk_start_measure:
  "walk_measure readd n (walk_start t s roots ckpts)
    = max t 1 + sum_list (map (root_cost readd n) roots) + (case ckpts of None \<Rightarrow> 0 | Some ps \<Rightarrow> length ps) + 4"
proof -
  have "walker_cost readd n Waiting = 0" by (simp add: walker_cost_def)
  then show ?thesis
    by (cases t) (simp_all add: walk_measure_def walk_start_def filescan_walk_begin_def Let_def main_cost_def sum_list_replicate)
qed

lemma walk_reaches_end:
  assumes "walk_fits readd n (walk_start t s roots ckpts)"
  shows "\<exists>k r. (walk_step env readd statx ^^ k) (walk_start t s roots ckpts) r \<and> (\<nexists>r'. walk_step env readd statx r r')"
proof (rule ccontr)
  let ?step = "walk_step env readd statx" and ?s = "walk_start t s roots ckpts"
  assume "\<nexists>k r. (?step ^^ k) ?s r \<and> (\<nexists>r'. ?step r r')"
  then have "\<exists>r'. ?step r r'" if "(?step ^^ k) ?s r" for k r using that by blast
  then have next_step: "\<exists>r'. (?step ^^ Suc k) ?s r'" if "(?step ^^ k) ?s r" for k r
    using that by (meson relpowp_Suc_I)
  have long: "\<exists>r. (?step ^^ k) ?s r" for k
  proof (induction k)
    case 0
    then show ?case by auto
  next
    case (Suc k)
    with next_step show ?case by blast
  qed
  then obtain r where "(?step ^^ Suc (walk_measure readd n ?s)) ?s r" by blast
  from walk_steps_measure [OF this walk_inv_start assms] show False by simp
qed

text \<open>C4: The walk of a tree of finite depth ends: however the threads interleave it makes no more steps than a
  bound computed from the tree, and when no thread can go on it is because the main thread and every
  walker have been told to stop, with every file queued handed over. So no thread waits for ever on
  an empty queue.\<close>

theorem walk_ends:
  assumes "\<forall>ra \<in> set roots. \<forall>p. ra_realpath ra = Inr p \<longrightarrow> fits readd n p"
    and "(walk_step env readd statx ^^ k) (walk_start t s roots ckpts) r"
  shows "k \<le> max t 1 + sum_list (map (root_cost readd n) roots) + (case ckpts of None \<Rightarrow> 0 | Some ps \<Rightarrow> length ps) + 4
    \<and> ((\<nexists>r'. walk_step env readd statx r r') \<longrightarrow>
         wr_main r = Finished \<and> (\<forall>x \<in> set (wr_walkers r). x = Ended) \<and> wr_handed r = wr_files r)"
proof -
  have fit: "walk_fits readd n (walk_start t s roots ckpts)"
    using assms(1) by (auto simp: walk_fits_def walk_start_def filescan_walk_begin_def Let_def walker_fits_def main_fits_def)
  note m = walk_steps_measure [OF assms(2) walk_inv_start fit]
  have "k \<le> walk_measure readd n (walk_start t s roots ckpts)" using m by linarith
  then have "k \<le> max t 1 + sum_list (map (root_cost readd n) roots) + (case ckpts of None \<Rightarrow> 0 | Some ps \<Rightarrow> length ps) + 4"
    unfolding walk_start_measure .
  moreover have "wr_main r = Finished \<and> (\<forall>x \<in> set (wr_walkers r). x = Ended) \<and> wr_handed r = wr_files r"
    if "\<nexists>r'. walk_step env readd statx r r'"
  proof -
    have inv: "walk_inv r" using m by simp
    note ended = walk_never_stuck [OF inv that]
    then have "walk_closed r" using inv by (auto simp: walk_inv_def walk_open_def split: if_splits)
    with ended inv show ?thesis by (auto simp: walk_inv_def walk_closed_def)
  qed
  ultimately show ?thesis by blast
qed

text \<open>A root with a file and a directory, which holds one more file.\<close>

definition little_tree :: "path \<Rightarrow> dir_answers" where
  "little_tree p = \<lparr>da_opendir = None, da_alloc = True, da_entries =
     (if p = [47, 97] then [\<lparr>de_name = [102], de_type = DT_REG, de_statx = Inr \<lparr>stx_kind = Reg, stx_size = 9, stx_ino = 1,
          stx_dev = 1, stx_sec = 0, stx_nsec = 0, stx_uid = 0\<rparr>, de_alloc = True\<rparr>,
        \<lparr>de_name = [98], de_type = DT_DIR, de_statx = Inr \<lparr>stx_kind = Dir, stx_size = 0, stx_ino = 2,
          stx_dev = 1, stx_sec = 0, stx_nsec = 0, stx_uid = 0\<rparr>, de_alloc = True\<rparr>] else []), da_readdir = None\<rparr>"

definition little_root :: root_answers where
  "little_root = \<lparr>ra_realpath = Inr [47, 97], ra_statx = Inr \<lparr>stx_kind = Dir, stx_size = 0, stx_ino = 3,
     stx_dev = 1, stx_sec = 0, stx_nsec = 0, stx_uid = 0\<rparr>, ra_alloc = True\<rparr>"

lemma little_tree_fits: "\<forall>ra \<in> set [little_root]. \<forall>p. ra_realpath ra = Inr p \<longrightarrow> fits little_tree 2 p"
  by (simp add: little_root_def little_tree_def numeral_2_eq_2 child_path_def)

lemma little_walk:
  "\<exists>k r. (walk_step mixed_env little_tree (\<lambda>p. Inl 2) ^^ k) (walk_start 2 fs_start [little_root] None) r
    \<and> (\<nexists>r'. walk_step mixed_env little_tree (\<lambda>p. Inl 2) r r')"
  using little_tree_fits
  by (intro walk_reaches_end [of _ 2])
    (auto simp: walk_fits_def walk_start_def filescan_walk_begin_def Let_def walker_fits_def main_fits_def)

theorem walk_ends_witness:
  "\<exists>k r. k \<le> 20 \<and> (walk_step mixed_env little_tree (\<lambda>p. Inl 2) ^^ k) (walk_start 2 fs_start [little_root] None) r
    \<and> wr_main r = Finished \<and> wr_handed r = wr_files r"
proof -
  obtain k r where r: "(walk_step mixed_env little_tree (\<lambda>p. Inl 2) ^^ k) (walk_start 2 fs_start [little_root] None) r"
    "\<nexists>r'. walk_step mixed_env little_tree (\<lambda>p. Inl 2) r r'" using little_walk by blast
  have "root_cost little_tree 2 little_root \<le> 14"
    by (simp add: root_cost_def little_root_def little_tree_def numeral_2_eq_2 child_path_def)
  with walk_ends [OF little_tree_fits r(1)] r show ?thesis by (intro exI [of _ k] exI [of _ r]) simp
qed

theorem walk_hands_over_all_witness:
  "\<exists>r. (walk_step mixed_env little_tree (\<lambda>p. Inl 2))\<^sup>*\<^sup>* (walk_start 2 fs_start [little_root] None) r
    \<and> wr_main r = Finished \<and> wr_files r = wr_handed r \<and> mset (wr_dirs r) = mset (wr_read r)"
proof -
  obtain k r where r: "(walk_step mixed_env little_tree (\<lambda>p. Inl 2) ^^ k) (walk_start 2 fs_start [little_root] None) r"
    "\<nexists>r'. walk_step mixed_env little_tree (\<lambda>p. Inl 2) r r'" using little_walk by blast
  then have steps: "(walk_step mixed_env little_tree (\<lambda>p. Inl 2))\<^sup>*\<^sup>* (walk_start 2 fs_start [little_root] None) r"
    by (auto simp: rtranclp_power)
  have "wr_main r = Finished" using walk_never_stuck [OF walk_steps_inv [OF steps walk_inv_start] r(2)] by simp
  with walk_hands_over_all [OF steps] steps show ?thesis by auto
qed

end
