(* ===== verification/Spec2Isabelle.thy ===== *)
theory Spec2Isabelle
  imports Util Fiemap Dedupe FindDupes Filerec RunDedupe Pipeline ScanTables ScanQueue ScanWriter Csum ScanFaults ScanFinish ScanWalk
begin

text \<open>
  A verification development for oans, a file deduplicator: it walks directories, hashes what changed
  into a SQLite hashfile, reads the duplicates back and submits them to the kernel's FIDEDUPERANGE.
  The sources meant are those under src/.

  The program's parts and where they are modelled:

  \<^item> walking (\<open>file_scan.c\<close>). Threads read directories off one queue and put files on another, until a count
    of outstanding directories says there are no more (\<open>ScanWalk\<close>); what is taken, and on which filesystem,
    is \<open>check_file\<close> (\<open>ScanFs\<close>).
  \<^item> hashing (\<open>file_scan.c\<close>). Threads take files off a queue of size classes (\<open>ScanQueue\<close>), read each
    once, skip its holes, digest its blocks and extents and stage the rows (\<open>ScanHash\<close>), and write them
    through one connection in units of a batch (\<open>ScanWriter\<close>), with checkpoints another run takes up
    (\<open>ScanResume\<close>) and a last unit that marks the file scanned (\<open>ScanFinish\<close>). Tables in memory keep the inodes seen,
    the layout donors and the ids seen (\<open>OpenTable\<close>, \<open>ScanTables\<close>). Digests are in \<open>Csum\<close>
    (\<open>csum.c\<close>).
  \<^item> extent maps (\<open>fiemap.c\<close>, \<open>Fiemap\<close>): reading a map from the kernel, looking up an offset, comparing
    what two files store, crediting shared bytes once.
  \<^item> groups of duplicates (\<open>results-tree.c\<close>, \<open>hash-tree.c\<close>, \<open>find_dupes.c\<close>; \<open>ResultsTree\<close>, \<open>HashTree\<close>,
    \<open>FindDupes\<close>), kept in red-black trees (\<open>RbTree\<close>), with the search inside extents that fills them.
  \<^item> deduplication (\<open>filerec.c\<close>, \<open>dedupe.c\<close>, \<open>run_dedupe.c\<close>, the producer loop of \<open>oans.c\<close>; \<open>Filerec\<close>,
    \<open>Dedupe\<close>, \<open>RunDedupe\<close>, \<open>Pipeline\<close>): referenced file records, the rounds of one group, the batches in
    flight and the watermark that says from where the next run starts.
  \<^item> printing and parsing (\<open>util.c\<close>, \<open>Util\<close>): sizes, and file names made safe for a terminal.

  \<open>Base\<close> holds the machine integers, the laws of words and lists the rest share and the model of
  \<open>memcmp\<close> and decimal printing.

  How code becomes a definition. A C function is a HOL function of the same name; a struct a record with
  its fields prefixed where names collide; an enumeration a datatype. Machine integers are words of
  their width wherever the code's arithmetic can wrap; offsets inside one file (\<open>ScanHash\<close>), counts of
  elements and the like are natural numbers, for the reason each theory gives. A function that changes
  its arguments or globals takes and returns them. An abort or failed assertion is \<open>None\<close>; an error code
  is itself. What is not under src/ is an argument: the FIEMAP and FIDEDUPERANGE calls, \<open>open\<close>,
  \<open>pread\<close>, the clock, allocation where its failure matters, SQLite and xxHash. What is relied on of them
  is a named hypothesis (\<open>dedupe_kernel\<close>, \<open>sqlite_ok\<close>, \<open>xxhash_ok\<close>, \<open>still_file\<close>), each shown
  satisfiable by the instance in a witness. Other threads appear as interference (a function on the
  shared state applied wherever the lock is not held: \<open>ResultsTree\<close>, \<open>FindDupes\<close>) or as interleaved steps
  (the inductive relations of \<open>Pipeline\<close> and \<open>ScanWalk\<close>); elsewhere an operation under its lock is one step.

  Loops. A loop with a decreasing measure is a function with its termination proof. Where the measure
  rests on the environment the function takes fuel and a theorem says how much is enough: the number
  of extents and two more for walks over a map (\<open>ext_fuel\<close>), the bytes of a buffer and one more for
  its extents, twice the bytes of a file and one more for hashing it (\<open>scan_loop\<close>), as every pass moves
  the offset or the end of what is buffered.

  What the lemmas show, by group:

  \<^item> \<open>ScanHash\<close>, \<open>ScanExtents\<close>, \<open>ScanLoop\<close>, \<open>ScanDigests\<close>: over a well-formed map and a file that holds
    still, one extent row per data extent under the digest of its own bytes, whatever the reads, the
    holes and the checkpoints. \<open>ScanResume\<close>: the checkpoint of a stopped run gives the next run what one
    whole run would have had. \<open>ScanFinish\<close>: a file is marked scanned in one unit with all its rows or not
    at all, and rows are copied only between files with the same extents. \<open>ScanFaults\<close>: what failures do
    to that, with three defects of the code.
  \<^item> \<open>ScanFs\<close>: a run stays on one filesystem. \<open>ScanWalk\<close>: whatever the interleaving, every file queued is handed
    over once, nothing is queued after the end is announced, and the walk of a finite tree ends.
  \<^item> \<open>ScanWriter\<close>: units of a batch are kept or dropped whole under any failing SQLite. \<open>ScanQueue\<close>: the
    linked queue refines an abstract one and hands out every file. \<open>ScanTables\<close>: the tables are sets and
    maps, growth and allocation failure included.
  \<^item> \<open>Fiemap\<close>: maps are whole or refused, the cursor is only a hint, sharing is never claimed wrongly.
  \<^item> \<open>ResultsTree\<close>, \<open>HashTree\<close>, \<open>FindDupes\<close>: refinement of sets of places, no groups of one, sound matches,
    termination under interference. The contract of the trees is the locale \<open>rb_dict\<close>, that of the tables
    \<open>open_table\<close>; each is interpreted on the code's own comparisons.
  \<^item> \<open>Filerec\<close>, \<open>Dedupe\<close>, \<open>RunDedupe\<close>, \<open>Pipeline\<close>: reference counts and descriptors balance, rounds end and
    keep source and destinations in step, no use of a freed record in any interleaving, and a
    watermark that never passes unfinished work.
  \<^item> \<open>Util\<close>: no control byte reaches the terminal, sizes round trip, UTF-8 as the standard has it.

  Not modelled: the SQL of \<open>dbfile.c\<close> beyond the statements the scan writes with (its meaning is SQLite's);
  what \<open>file_scan.c\<close> does with a listed file before it is queued (\<open>__scan_file\<close>) and the read transaction of
  the listing, which are queries of the hashfile; \<open>glob.c\<close>, whose patterns mean what PCRE2 says; the progress
  display (\<open>progress.c\<close>) and reports, options and set-up in \<open>oans.c\<close>; the kernel's \<open>rbtree.c\<close> and
  \<open>list.h\<close>, which are taken for what they promise; floating-point printing, resource limits and stack
  traces. Running out of memory is modelled only where the code goes on after it.
\<close>

end
